(* ===== verification/Prelude.thy ===== *)
theory Prelude
  imports Main "HOL-Library.Word" "HOL-Library.Signed_Division" "HOL-Library.Monad_Syntax"
begin

text \<open>
  Shared vocabulary of the development: the C types at their width (LP64: pointers,
  \<open>size_t\<close> and \<open>long\<close> have 64 bits, \<open>int\<close> has 32), singly linked cells followed
  through a next-pointer function, and the generic step systems on which the
  concurrent parts of the library are modelled.

  Conventions used by every theory: a result of type \<open>'a option\<close> is \<open>None\<close>
  exactly where the C code has no defined result, because it follows a pointer to memory
  that is not allocated, indexes an array out of its bounds, or loops for ever. A failure
  that the code reports (a \<open>NULL\<close> or \<open>-1\<close> it returns) is an ordinary value inside
  \<open>Some\<close>.
\<close>

section \<open>C types\<close>

type_synonym byte = "8 word"
type_synonym ptr = "64 word"
type_synonym size_t = "64 word"
type_synonym c_long = "64 word"
type_synonym c_int = "32 word"

abbreviation NULL :: ptr where
  "NULL \<equiv> 0"

named_theorems word_to_nat \<open>facts that move 64-bit arithmetic to natural numbers\<close>
named_theorems store_simps \<open>what reads and writes of the C store return\<close>

text \<open>
  A user-space address: not \<open>NULL\<close> and not negative when read as a \<open>long\<close>, which the
  hash function does. Every address of a Linux x86-64 process is one.
\<close>

definition user_ptr :: "ptr \<Rightarrow> bool" where
  "user_ptr p \<longleftrightarrow> 0 < sint p"

lemma user_ptr_not_NULL [simp]: "user_ptr p \<Longrightarrow> p \<noteq> NULL"
  by (auto simp: user_ptr_def)

lemma unat_add_exact [word_to_nat]:
  fixes a b :: size_t
  assumes "unat a + unat b < 2 ^ 64"
  shows "unat (a + b) = unat a + unat b"
  using assms by (simp add: unat_word_ariths)

lemma unat_of_nat_exact [word_to_nat]:
  assumes "n < 2 ^ 64"
  shows "unat (of_nat n :: size_t) = n"
  using assms by (simp add: unat_of_nat)

lemma unat_sub_exact [word_to_nat]:
  fixes a b :: size_t
  assumes "unat b \<le> unat a"
  shows "unat (a - b) = unat a - unat b"
  using assms by (simp add: unat_sub word_le_nat_alt)

lemma sint_of_small:
  fixes p :: ptr
  assumes "unat p < 2 ^ 63"
  shows "sint p = int (unat p)"
proof -
  from assms have "int (unat p) < int (2 ^ 63)" by (simp only: of_nat_less_iff)
  then have "uint p < 2 ^ 63" by simp
  then show ?thesis
    unfolding sint_uint by (subst signed_take_bit_int_eq_self) (auto simp: order_trans [of _ 0])
qed

lemma user_ptrI: "0 < unat p \<Longrightarrow> unat p < 2 ^ 63 \<Longrightarrow> user_ptr p"
  by (simp only: user_ptr_def sint_of_small)

lemma sint_of_nat_small: "n < 2 ^ 31 \<Longrightarrow> sint (of_nat n :: c_int) = int n"
proof -
  assume "n < 2 ^ 31"
  then have "int n < 2 ^ 31" by (simp flip: of_nat_less_iff)
  moreover have "sint (of_nat n :: c_int) = signed_take_bit 31 (int n)"
    by (simp add: signed_of_nat)
  ultimately show ?thesis by (simp add: signed_take_bit_int_eq_self)
qed

section \<open>Integers in memory\<close>

text \<open>The bytes of an integer, the lowest first.\<close>

primrec bytes_of_nat :: "nat \<Rightarrow> nat \<Rightarrow> byte list" where
  "bytes_of_nat 0 x = []"
| "bytes_of_nat (Suc n) x = of_nat x # bytes_of_nat n (x div 256)"

primrec nat_of_bytes :: "byte list \<Rightarrow> nat" where
  "nat_of_bytes [] = 0"
| "nat_of_bytes (b # bs) = unat b + 256 * nat_of_bytes bs"

lemma length_bytes_of_nat [simp]: "length (bytes_of_nat n x) = n"
  by (induction n arbitrary: x) simp_all

lemma nat_of_bytes_of_nat: "nat_of_bytes (bytes_of_nat n x) = x mod 256 ^ n"
proof (induction n arbitrary: x)
  case (Suc n)
  have "unat (of_nat x :: byte) = x mod 256" by (simp add: unat_of_nat)
  with Suc show ?case by (simp add: mod_mult2_eq)
qed simp

lemma bytes_of_word:
  "of_nat (nat_of_bytes (bytes_of_nat 4 (unat a))) = (a :: c_int)"
  "of_nat (nat_of_bytes (bytes_of_nat 8 (unat b))) = (b :: size_t)"
proof -
  have "unat a < 256 ^ 4" "unat b < 256 ^ 8" 
    using unsigned_less [of a, where 'a = nat] unsigned_less [of b, where 'a = nat] by simp_all
  then show "of_nat (nat_of_bytes (bytes_of_nat 4 (unat a))) = a"
    "of_nat (nat_of_bytes (bytes_of_nat 8 (unat b))) = b"
    by (simp_all add: nat_of_bytes_of_nat)
qed

section \<open>Linked cells\<close>

text \<open>
  \<open>linked nx p xs\<close>: starting at \<open>p\<close> and following the partial next function \<open>nx\<close>, the
  cells visited until \<open>NULL\<close> are exactly \<open>xs\<close>, in this order.
\<close>

primrec linked :: "(ptr \<Rightarrow> ptr option) \<Rightarrow> ptr \<Rightarrow> ptr list \<Rightarrow> bool" where
  "linked nx p [] \<longleftrightarrow> p = NULL"
| "linked nx p (x # xs) \<longleftrightarrow>
     p = x \<and> x \<noteq> NULL \<and> (case nx x of None \<Rightarrow> False | Some q \<Rightarrow> linked nx q xs)"

lemma linked_NULL [simp]: "linked nx NULL xs \<longleftrightarrow> xs = []"
  by (cases xs) auto

lemma linked_nonNULL:
  "p \<noteq> NULL \<Longrightarrow> linked nx p xs \<longleftrightarrow> (\<exists>q ys. xs = p # ys \<and> nx p = Some q \<and> linked nx q ys)"
  by (cases xs) (auto split: option.splits)

lemma linked_determines: "linked nx p xs \<Longrightarrow> linked nx p ys \<Longrightarrow> xs = ys"
  by (induction xs arbitrary: p ys) (case_tac ys; auto split: option.splits)+

lemma linked_suffix: "linked nx p (xs @ y # ys) \<Longrightarrow> linked nx y (y # ys)"
proof (induction xs arbitrary: p)
  case (Cons x xs)
  then obtain q where "linked nx q (xs @ y # ys)" by (auto split: option.splits)
  then show ?case by (rule Cons.IH)
qed (auto split: option.splits)

lemma linked_distinct: "linked nx p xs \<Longrightarrow> distinct xs"
proof (induction xs arbitrary: p)
  case Nil
  then show ?case by simp
next
  case (Cons x xs)
  then obtain q where q: "nx x = Some q" "linked nx q xs" by (auto split: option.splits)
  have "x \<notin> set xs"
  proof
    assume "x \<in> set xs"
    then obtain us vs where "xs = us @ x # vs" by (auto simp: in_set_conv_decomp)
    with q(2) have "linked nx x (x # vs)" by (auto dest: linked_suffix)
    moreover have "linked nx x (x # xs)" using Cons.prems q by simp
    ultimately have "x # vs = x # xs" by (rule linked_determines)
    with \<open>xs = us @ x # vs\<close> show False by simp
  qed
  with Cons.IH q(2) show ?case by simp
qed

lemma linked_not_NULL: "linked nx p xs \<Longrightarrow> NULL \<notin> set xs"
  by (induction xs arbitrary: p) (auto split: option.splits)

lemma linked_in_dom: "linked nx p xs \<Longrightarrow> x \<in> set xs \<Longrightarrow> nx x \<noteq> None"
  by (induction xs arbitrary: p) (auto split: option.splits)

lemma linked_cong:
  "(\<And>x. x \<in> set xs \<Longrightarrow> nx x = nx' x) \<Longrightarrow> linked nx p xs = linked nx' p xs"
  by (induction xs arbitrary: p) (auto split: option.splits)

lemma linked_frame: "u \<notin> set xs \<Longrightarrow> linked (nx(u := q)) p xs = linked nx p xs"
  by (rule linked_cong) auto

lemma linked_nth:
  "linked nx p xs \<Longrightarrow> i < length xs \<Longrightarrow>
   nx (xs ! i) = Some (if Suc i < length xs then xs ! Suc i else NULL)"
proof (induction xs arbitrary: p i)
  case (Cons x xs)
  then obtain q where q: "nx x = Some q" "linked nx q xs" by (auto split: option.splits)
  show ?case
  proof (cases i)
    case 0
    with q show ?thesis by (cases xs) auto
  next
    case (Suc j)
    with q Cons show ?thesis by auto
  qed
qed simp

lemma linked_hd: "linked nx p xs \<Longrightarrow> xs \<noteq> [] \<Longrightarrow> p = hd xs"
  by (cases xs) auto

text \<open>Splitting a chain, inserting a cell after another one, and unlinking a cell.\<close>

primrec lseg :: "(ptr \<Rightarrow> ptr option) \<Rightarrow> ptr \<Rightarrow> ptr list \<Rightarrow> ptr \<Rightarrow> bool" where
  "lseg nx p [] q \<longleftrightarrow> p = q"
| "lseg nx p (x # xs) q \<longleftrightarrow>
     p = x \<and> x \<noteq> NULL \<and> (case nx x of None \<Rightarrow> False | Some r \<Rightarrow> lseg nx r xs q)"

lemma linked_append: "linked nx p (xs @ ys) \<longleftrightarrow> (\<exists>q. lseg nx p xs q \<and> linked nx q ys)"
  by (induction xs arbitrary: p) (auto split: option.splits)

lemma lseg_cong: "(\<And>x. x \<in> set xs \<Longrightarrow> nx x = nx' x) \<Longrightarrow> lseg nx p xs q = lseg nx' p xs q"
  by (induction xs arbitrary: p) (auto split: option.splits)

lemma linked_insert_after:
  assumes "linked nx p (xs @ x # ys)" and "n \<notin> set (xs @ x # ys)" and "n \<noteq> NULL"
    and "nx x = Some q"
  shows "linked (nx(n \<mapsto> q, x \<mapsto> n)) p (xs @ x # n # ys)"
proof -
  from assms(1) obtain r where r: "lseg nx p xs r" "linked nx r (x # ys)"
    by (auto simp: linked_append)
  from linked_distinct [OF assms(1)] have d: "x \<notin> set xs" "x \<notin> set ys" by auto
  have "lseg (nx(n \<mapsto> q, x \<mapsto> n)) p xs r"
    using r(1) d assms(2) by (subst lseg_cong [where nx' = nx]) auto
  moreover have "linked (nx(n \<mapsto> q, x \<mapsto> n)) q ys"
    using r(2) d assms(2,4) by (subst linked_cong [where nx' = nx]) auto
  ultimately show ?thesis using r(2) d assms(2,3) by (auto simp: linked_append)
qed

lemma linked_unlink:
  assumes "linked nx p (xs @ x # y # ys)" and "nx y = Some q"
  shows "linked (nx(x \<mapsto> q)) p (xs @ x # ys)"
proof -
  from assms(1) obtain r where r: "lseg nx p xs r" "linked nx r (x # y # ys)"
    by (auto simp: linked_append)
  from linked_distinct [OF assms(1)] have d: "x \<notin> set xs" "x \<notin> set ys" by auto
  have "lseg (nx(x \<mapsto> q)) p xs r"
    using r(1) d by (subst lseg_cong [where nx' = nx]) auto
  moreover have "linked (nx(x \<mapsto> q)) q ys"
    using r(2) d assms(2) by (subst linked_cong [where nx' = nx]) (auto split: option.splits)
  ultimately show ?thesis using r(2) by (auto simp: linked_append split: option.splits)
qed

lemma linked_snoc:
  assumes "linked nx p (xs @ [x])" and "n \<notin> set (xs @ [x])" and "n \<noteq> NULL"
  shows "linked (nx(n \<mapsto> NULL, x \<mapsto> n)) p (xs @ [x, n])"
proof -
  from assms(1) have "nx x = Some NULL" by (auto simp: linked_append split: option.splits)
  with linked_insert_after [OF assms(1), of n NULL] assms(2,3) show ?thesis by simp
qed

section \<open>Step systems\<close>

text \<open>
  The threads and processes of the library interleave. A concurrent component is a start
  predicate and a step relation; \<open>reach\<close> are the states some interleaving leads to.
\<close>

inductive reach :: "('s \<Rightarrow> bool) \<Rightarrow> ('s \<Rightarrow> 's \<Rightarrow> bool) \<Rightarrow> 's \<Rightarrow> bool"
  for init :: "'s \<Rightarrow> bool" and step :: "'s \<Rightarrow> 's \<Rightarrow> bool" where
  reach_start: "init s \<Longrightarrow> reach init step s"
| reach_next: "reach init step s \<Longrightarrow> step s t \<Longrightarrow> reach init step t"

locale inductive_invariant =
  fixes init :: "'s \<Rightarrow> bool" and step :: "'s \<Rightarrow> 's \<Rightarrow> bool" and inv :: "'s \<Rightarrow> bool"
  assumes inv_start: "init s \<Longrightarrow> inv s"
    and inv_next: "inv s \<Longrightarrow> step s t \<Longrightarrow> inv t"
begin

lemma reach_inv: "reach init step s \<Longrightarrow> inv s"
  by (induction rule: reach.induct) (auto intro: inv_start inv_next)

end

text \<open>
  A system whose runs follow those of another one: \<open>match s u\<close> relates their states, and a step
  of the first is a step of the second, or none. What holds in every state the second reaches
  then holds of some state that matches.
\<close>

locale step_simulation =
  fixes init :: "'s \<Rightarrow> bool" and step :: "'s \<Rightarrow> 's \<Rightarrow> bool" and match :: "'s \<Rightarrow> 'a \<Rightarrow> bool"
    and ainit :: "'a \<Rightarrow> bool" and astep :: "'a \<Rightarrow> 'a \<Rightarrow> bool"
  assumes match_start: "init s \<Longrightarrow> \<exists>u. ainit u \<and> match s u"
    and match_next: "match s u \<Longrightarrow> reach ainit astep u \<Longrightarrow> step s t \<Longrightarrow> \<exists>v. (v = u \<or> astep u v) \<and> match t v"
begin

lemma reach_match: "reach init step s \<Longrightarrow> \<exists>u. reach ainit astep u \<and> match s u"
proof (induction rule: reach.induct)
  case (reach_start s)
  then show ?case using match_start by (blast intro: reach.reach_start)
next
  case (reach_next s t)
  then obtain u where u: "reach ainit astep u" "match s u" by blast
  from match_next [OF u(2,1) reach_next.hyps(2)] u(1) show ?case by (blast intro: reach.reach_next)
qed

end

text \<open>The same where the state of the second is a function of the state of the first.\<close>

locale step_refinement = inductive_invariant init step inv
  for init :: "'s \<Rightarrow> bool" and step :: "'s \<Rightarrow> 's \<Rightarrow> bool" and inv :: "'s \<Rightarrow> bool" +
  fixes abs :: "'s \<Rightarrow> 'a" and ainit :: "'a \<Rightarrow> bool" and astep :: "'a \<Rightarrow> 'a \<Rightarrow> bool"
  assumes abs_start: "init s \<Longrightarrow> ainit (abs s)"
    and abs_next: "inv s \<Longrightarrow> step s t \<Longrightarrow> abs t = abs s \<or> astep (abs s) (abs t)"

sublocale step_refinement \<subseteq> matching: step_simulation init step "\<lambda>s u. inv s \<and> u = abs s" ainit astep
proof unfold_locales
  show "\<exists>u. ainit u \<and> inv s \<and> u = abs s" if "init s" for s
    using abs_start [OF that] inv_start [OF that] by simp
  show "\<exists>v. (v = u \<or> astep u v) \<and> inv t \<and> v = abs t" if "inv s \<and> u = abs s" "step s t" for s t u
    using abs_next [of s t] inv_next [of s t] that by simp
qed

context step_refinement begin

lemma reach_abs: "reach init step s \<Longrightarrow> reach ainit astep (abs s)"
  using matching.reach_match by blast

end

text \<open>Whatever steps are taken, as long as one that can be taken is, \<open>P\<close> comes to hold.\<close>

inductive inevitable :: "('s \<Rightarrow> 's \<Rightarrow> bool) \<Rightarrow> ('s \<Rightarrow> bool) \<Rightarrow> 's \<Rightarrow> bool"
  for step :: "'s \<Rightarrow> 's \<Rightarrow> bool" and P :: "'s \<Rightarrow> bool" where
  inevitable_now: "P s \<Longrightarrow> inevitable step P s"
| inevitable_later: "step s u \<Longrightarrow> (\<And>t. step s t \<Longrightarrow> inevitable step P t) \<Longrightarrow> inevitable step P s"

lemma inevitable_measure:
  assumes keep: "\<And>s t. Q s \<Longrightarrow> step s t \<Longrightarrow> Q t \<and> (m t :: nat) < m s"
    and go: "\<And>s. Q s \<Longrightarrow> \<not> P s \<Longrightarrow> \<exists>t. step s t"
  shows "Q s \<Longrightarrow> inevitable step P s"
proof (induction "m s" arbitrary: s rule: less_induct)
  case less
  show ?case
  proof (cases "P s")
    case False
    then obtain u where "step s u" using go [OF less.prems] by blast
    thus ?thesis
      using less.hyps keep [OF less.prems] by (blast intro: inevitable_later)
  qed (rule inevitable_now)
qed

text \<open>The same when the measure is of what a state stands for.\<close>

lemma inevitable_decreasing:
  assumes keep: "\<And>s t k. Q s k \<Longrightarrow> step s t \<Longrightarrow> \<exists>j < k. Q t (j :: nat)"
    and go: "\<And>s k. Q s k \<Longrightarrow> \<not> P s \<Longrightarrow> \<exists>t. step s t"
  shows "Q s k \<Longrightarrow> inevitable step P s"
proof (induction k arbitrary: s rule: less_induct)
  case (less k)
  show ?case
  proof (cases "P s")
    case False
    then obtain u where "step s u" using go [OF less.prems] by blast
    moreover have "inevitable step P t" if "step s t" for t using keep [OF less.prems that] less.IH by blast
    ultimately show ?thesis by (rule inevitable_later)
  qed (rule inevitable_now)
qed

lemma reach_rtranclp: "step\<^sup>*\<^sup>* s t \<Longrightarrow> reach init step s \<Longrightarrow> reach init step t"
  by (induction rule: rtranclp_induct) (auto intro: reach_next)

lemma inevitable_reaches: "inevitable step P s \<Longrightarrow> \<exists>t. step\<^sup>*\<^sup>* s t \<and> P t"
proof (induction rule: inevitable.induct)
  case (inevitable_later s u)
  then obtain t where "step\<^sup>*\<^sup>* u t" "P t" by blast
  with inevitable_later.hyps(1) show ?case by (blast intro: converse_rtranclp_into_rtranclp)
qed blast

lemma sum_update:
  fixes w :: "nat \<Rightarrow> 'a \<Rightarrow> nat"
  assumes "p < n"
  shows "(\<Sum>q<n. w q ((f(p := c)) q)) + w p (f p) = (\<Sum>q<n. w q (f q)) + w p c"
proof -
  have "(\<Sum>q<n. w q (g q)) = w p (g p) + (\<Sum>q\<in>{..<n} - {p}. w q (g q))" for g
    using assms by (intro sum.remove) auto
  moreover have "(\<Sum>q\<in>{..<n} - {p}. w q ((f(p := c)) q)) = (\<Sum>q\<in>{..<n} - {p}. w q (f q))"
    by (rule sum.cong) auto
  ultimately show ?thesis by simp
qed

section \<open>Tables with two indices\<close>

definition put2 :: "nat \<Rightarrow> nat \<Rightarrow> 'a \<Rightarrow> (nat \<Rightarrow> nat \<Rightarrow> 'a) \<Rightarrow> nat \<Rightarrow> nat \<Rightarrow> 'a" where
  "put2 i j v f = f(i := (f i)(j := v))"

lemma put2_apply [simp]: "put2 i j v f a b = (if a = i \<and> b = j then v else f a b)"
  by (simp add: put2_def)

lemma sum_update2:
  fixes w :: "'a \<Rightarrow> nat"
  assumes "p < n" "d < n"
  shows "(\<Sum>q<n. \<Sum>c<n. w (put2 p d v f q c)) + w (f p d) = (\<Sum>q<n. \<Sum>c<n. w (f q c)) + w v"
  using sum_update [OF assms(1), of "\<lambda>_ g. \<Sum>c<n. w (g c)" f "(f p)(d := v)"] sum_update [OF assms(2), of "\<lambda>_. w" "f p" v]
  unfolding put2_def by linarith

text \<open>The entries of a queue with a key, such as the PE they are for.\<close>

definition sel :: "nat \<Rightarrow> (nat \<times> 'a) list \<Rightarrow> 'a list" where
  "sel p xs = map snd (filter (\<lambda>x. fst x = p) xs)"

lemma sel_simps [simp]:
  "sel p [] = []" "sel p ((q, x) # xs) = (if q = p then x # sel p xs else sel p xs)"
  "sel p (xs @ ys) = sel p xs @ sel p ys"
  by (simp_all add: sel_def)

section \<open>Lists of options and searching\<close>

lemma those_map_Some: "those (map (\<lambda>x. Some (f x)) xs) = Some (map f xs)"
  by (induction xs) simp_all

lemma find_cong: "(\<And>x. x \<in> set xs \<Longrightarrow> P x = Q x) \<Longrightarrow> find P xs = find Q xs"
  by (induction xs) auto

lemma find_map_eq: "find P (map f xs) = map_option f (find (\<lambda>x. P (f x)) xs)"
  by (induction xs) auto

lemma find_SomeD: "find P xs = Some x \<Longrightarrow> P x \<and> x \<in> set xs"
  by (auto simp: find_Some_iff)

end
