(* ===== verification/Comm_Node.thy ===== *)
theory Comm_Node
  imports Prelude
begin

text \<open>
  \<open>comm/comm_node.c\<close> and \<open>network/netutil.c\<close>: the node's region, and the table that says of
  every PE whether it runs on this node, under which index the layers below know it, and on
  which host. The two arrays of the region are lists whose elements are \<open>None\<close> until they
  are stored; the pointer to a host is its index in the array of hosts. Resolving a host name
  is the system's \<open>gethostbyname\<close>, a parameter.
\<close>

section \<open>Definitions\<close>

definition PE_TYPE_LOCAL :: "8 word" where "PE_TYPE_LOCAL = 0"
definition PE_TYPE_REMOTE :: "8 word" where "PE_TYPE_REMOTE = 1"
definition HOSTNAME_LEN :: nat where "HOSTNAME_LEN = 256"

text \<open>\<open>host_map_t\<close> and \<open>locality_map_t\<close>.\<close>

record host_map_t =
  hm_hostname :: string
  hm_addr :: "32 word"

record locality_map_t =
  lm_type :: "8 word"
  lm_index :: c_int
  lm_host :: nat

text \<open>\<open>sizeof\<close> of \<open>long\<close> and of the two structures, with the padding of the x86-64 ABI.\<close>

definition sizeof_long :: size_t where "sizeof_long = 8"
definition sizeof_host_map :: size_t where "sizeof_host_map = 260"
definition sizeof_locality_map :: size_t where "sizeof_locality_map = 16"

record node_state =
  nd_region :: ptr
  nd_size :: size_t
  nd_p_sync :: ptr
  nd_nodes_at :: ptr
  nd_map_at :: ptr
  nd_nodes :: "host_map_t option list"
  nd_map :: "locality_map_t option list"

text \<open>\<open>region\<close> is what \<open>malloc(__size)\<close> returns; an \<open>int\<close> times a \<open>size_t\<close> is a \<open>size_t\<close>.\<close>

definition comm_node_init :: "ptr \<Rightarrow> c_int \<Rightarrow> c_int \<Rightarrow> c_int \<Rightarrow> c_int \<Rightarrow> node_state" where
  "comm_node_init region my_local_pe n_local_pes n_pes n_nodes =
     (let p_sync_size = scast n_local_pes * sizeof_long;
          nodes_size = scast n_nodes * sizeof_host_map;
          locality_map_size = scast n_pes * sizeof_locality_map;
          sz = p_sync_size + nodes_size + locality_map_size;
          head = region
      in \<lparr>nd_region = region, nd_size = sz, nd_p_sync = head, nd_nodes_at = head + p_sync_size,
          nd_map_at = head + p_sync_size + nodes_size,
          nd_nodes = replicate (nat (sint n_nodes)) None,
          nd_map = replicate (nat (sint n_pes)) None\<rparr>)"

text \<open>The region is freed: nothing in it can be read any more.\<close>

definition comm_node_finalize :: "node_state \<Rightarrow> node_state" where
  "comm_node_finalize nd = nd\<lparr>nd_nodes := [], nd_map := []\<rparr>"

text \<open>\<open>netutil_resolve_host\<close>: the first address \<open>gethostbyname\<close> gives, 0 for none.\<close>

definition netutil_resolve_host :: "(string \<Rightarrow> 32 word list option) \<Rightarrow> string \<Rightarrow> 32 word" where
  "netutil_resolve_host gethostbyname hostname =
     (case gethostbyname hostname of
        None \<Rightarrow> 0
      | Some addrs \<Rightarrow> (case addrs of [] \<Rightarrow> 0 | a # _ \<Rightarrow> a))"

text \<open>The inner loop, for the values \<open>js\<close> of \<open>j\<close>; \<open>row\<close> is \<open>pes[i]\<close>.\<close>

fun map_pes :: "8 word \<Rightarrow> nat \<Rightarrow> c_int list \<Rightarrow> nat list \<Rightarrow> c_int \<Rightarrow> node_state \<Rightarrow>
    (c_int \<times> node_state) option" where
  "map_pes ty i row [] index st = Some (index, st)"
| "map_pes ty i row (j # js) index st =
     (if j < length row \<and> 0 \<le> sint (row ! j) \<and> nat (sint (row ! j)) < length (nd_map st)
      then let (idx, index') = (if ty = PE_TYPE_LOCAL then (of_nat j, index) else (index, index + 1))
           in map_pes ty i row js index'
                (st\<lparr>nd_map := (nd_map st)[nat (sint (row ! j)) :=
                   Some \<lparr>lm_type = ty, lm_index = idx, lm_host = i\<rparr>]\<rparr>)
      else None)"

text \<open>The outer loop, for the values \<open>is\<close> of \<open>i\<close>. \<open>strcpy\<close> overruns the field for long names.\<close>

fun map_hosts :: "(string \<Rightarrow> 32 word list option) \<Rightarrow> string \<Rightarrow> string list \<Rightarrow> c_int list list \<Rightarrow>
    c_int list \<Rightarrow> nat list \<Rightarrow> c_int \<Rightarrow> node_state \<Rightarrow> node_state option" where
  "map_hosts gh hostname hosts pes n_pes [] index st = Some st"
| "map_hosts gh hostname hosts pes n_pes (i # is) index st =
     (if i < length hosts \<and> i < length (nd_nodes st) \<and> length (hosts ! i) < HOSTNAME_LEN \<and>
         i < length pes \<and> i < length n_pes
      then do {
        let st = st\<lparr>nd_nodes := (nd_nodes st)[i := Some
          \<lparr>hm_hostname = hosts ! i, hm_addr = netutil_resolve_host gh (hosts ! i)\<rparr>]\<rparr>;
        let ty = (if hostname = hosts ! i then PE_TYPE_LOCAL else PE_TYPE_REMOTE);
        (index, st) \<leftarrow> map_pes ty i (pes ! i) [0 ..< nat (sint (n_pes ! i))] index st;
        map_hosts gh hostname hosts pes n_pes is index st
      }
      else None)"

definition comm_node_map_locality :: "(string \<Rightarrow> 32 word list option) \<Rightarrow> string \<Rightarrow> string list \<Rightarrow>
    c_int list list \<Rightarrow> c_int \<Rightarrow> c_int list \<Rightarrow> node_state \<Rightarrow> node_state option" where
  "comm_node_map_locality gh hostname hosts pes n_hosts n_pes st =
     map_hosts gh hostname hosts pes n_pes [0 ..< nat (sint n_hosts)] 0 st"

text \<open>The entry of a PE; \<open>None\<close> when it is out of range or was never stored.\<close>

definition comm_node_map :: "node_state \<Rightarrow> c_int \<Rightarrow> locality_map_t option" where
  "comm_node_map st pe =
     (if 0 \<le> sint pe \<and> nat (sint pe) < length (nd_map st) then nd_map st ! nat (sint pe) else None)"

section \<open>Specification\<close>

text \<open>The entry of the PE number \<open>j\<close> of host number \<open>i\<close>, when \<open>r\<close> remote PEs come before.\<close>

definition entry :: "bool \<Rightarrow> nat \<Rightarrow> nat \<Rightarrow> nat \<Rightarrow> locality_map_t" where
  "entry here i r j = \<lparr>lm_type = (if here then PE_TYPE_LOCAL else PE_TYPE_REMOTE),
     lm_index = of_nat (if here then j else r + j), lm_host = i\<rparr>"

definition row_writes :: "bool \<Rightarrow> nat \<Rightarrow> nat \<Rightarrow> c_int list \<Rightarrow> (c_int \<times> locality_map_t) list" where
  "row_writes here i r row = map (\<lambda>j. (row ! j, entry here i r j)) [0 ..< length row]"

primrec host_writes :: "string \<Rightarrow> nat \<Rightarrow> nat \<Rightarrow> (string \<times> c_int list) list \<Rightarrow>
    (c_int \<times> locality_map_t) list" where
  "host_writes me i r [] = []"
| "host_writes me i r (x # xs) = row_writes (me = fst x) i r (snd x) @
     host_writes me (Suc i) (if me = fst x then r else r + length (snd x)) xs"

definition store_entries :: "(c_int \<times> locality_map_t) list \<Rightarrow> locality_map_t option list \<Rightarrow>
    locality_map_t option list" where
  "store_entries ws m = fold (\<lambda>w m. m[nat (sint (fst w)) := Some (snd w)]) ws m"

definition pes_in :: "nat \<Rightarrow> c_int list \<Rightarrow> bool" where
  "pes_in n ps \<longleftrightarrow> (\<forall>p \<in> set ps. 0 \<le> sint p \<and> sint p < int n)"

lemma types_differ [simp]: "PE_TYPE_LOCAL \<noteq> PE_TYPE_REMOTE" "PE_TYPE_REMOTE \<noteq> PE_TYPE_LOCAL"
  by (simp_all add: PE_TYPE_LOCAL_def PE_TYPE_REMOTE_def)

lemma length_store_entries [simp]: "length (store_entries ws m) = length m"
  by (induction ws arbitrary: m) (auto simp: store_entries_def)

lemma store_entries_append: "store_entries (xs @ ys) m = store_entries ys (store_entries xs m)"
  by (simp add: store_entries_def)

lemma store_entries_other:
  assumes "pes_in n (map fst ws)" and "0 \<le> sint pe" and "pe \<notin> fst ` set ws"
  shows "store_entries ws m ! nat (sint pe) = m ! nat (sint pe)"
  using assms
proof (induction ws arbitrary: m)
  case (Cons w ws)
  have "sint (fst w) \<noteq> sint pe" using Cons.prems(3) by (auto dest: signed_word_eqI)
  then have "nat (sint (fst w)) \<noteq> nat (sint pe)" using Cons.prems(1,2) by (auto simp: pes_in_def)
  with Cons show ?case by (simp add: store_entries_def pes_in_def)
qed (simp add: store_entries_def)

lemma store_entries_stored:
  assumes "pes_in (length m) (map fst ws)" and "distinct (map fst ws)" and "(pe, e) \<in> set ws"
  shows "store_entries ws m ! nat (sint pe) = Some e"
  using assms
proof (induction ws arbitrary: m)
  case (Cons w ws)
  then have b: "0 \<le> sint pe" "nat (sint pe) < length m" by (auto simp: pes_in_def)
  have p: "pes_in (length m) (map fst ws)" using Cons.prems(1) by (simp add: pes_in_def)
  show ?case
  proof (cases "w = (pe, e)")
    case True
    then have "pe \<notin> fst ` set ws" using Cons.prems(2) by auto
    from store_entries_other [OF p b(1) this, of "m[nat (sint pe) := Some e]"] True b
    show ?thesis by (simp add: store_entries_def)
  next
    case False
    with Cons.IH [of "m[nat (sint (fst w)) := Some (snd w)]"] Cons.prems p
    show ?thesis by (simp add: store_entries_def)
  qed
qed simp

section \<open>The loops store the specified entries\<close>

lemma map_pes_stores:
  assumes "pes_in (length (nd_map st)) row" and "j \<le> length row"
  shows "map_pes (if here then PE_TYPE_LOCAL else PE_TYPE_REMOTE) i row [j ..< length row]
      (of_nat (if here then r else r + j)) st =
    Some (of_nat (if here then r else r + length row),
      st\<lparr>nd_map := store_entries (map (\<lambda>j. (row ! j, entry here i r j)) [j ..< length row]) (nd_map st)\<rparr>)"
  using assms
proof (induction "length row - j" arbitrary: j st)
  case 0
  then show ?case by (simp add: store_entries_def)
next
  case (Suc k)
  then have j: "j < length row" by simp
  then have "0 \<le> sint (row ! j)" "nat (sint (row ! j)) < length (nd_map st)"
    using Suc.prems(1) nth_mem [OF j] by (auto simp: pes_in_def nat_less_iff)
  with j Suc.hyps(1) [of "Suc j" "st\<lparr>nd_map := (nd_map st)[nat (sint (row ! j)) :=
      Some (entry here i r j)]\<rparr>"] Suc.hyps(2) Suc.prems(1)
  show ?case by (auto simp: upt_conv_Cons entry_def store_entries_def algebra_simps)
qed

lemma map_hosts_stores:
  assumes "length pes = length hosts" and "map (nat \<circ> sint) n_pes = map length pes"
    and "\<forall>h \<in> set hosts. length h < HOSTNAME_LEN" and "pes_in (length (nd_map st)) (concat pes)"
    and "length hosts = length (nd_nodes st)" and "i \<le> length hosts"
  shows "\<exists>st'. map_hosts gh me hosts pes n_pes [i ..< length hosts] (of_nat r) st = Some st' \<and>
    nd_map st' = store_entries (host_writes me i r (drop i (zip hosts pes))) (nd_map st) \<and>
    (\<forall>k < length hosts. nd_nodes st' ! k = (if k < i then nd_nodes st ! k else Some
      \<lparr>hm_hostname = hosts ! k, hm_addr = netutil_resolve_host gh (hosts ! k)\<rparr>))"
  using assms
proof (induction "length hosts - i" arbitrary: i st r)
  case 0
  then show ?case by (simp add: store_entries_def)
next
  case (Suc k)
  then have i: "i < length hosts" "i < length pes" "i < length n_pes"
    using map_eq_imp_length_eq [OF Suc.prems(2)] by auto
  let ?here = "me = hosts ! i"
  let ?st = "st\<lparr>nd_nodes := (nd_nodes st)[i := Some
    \<lparr>hm_hostname = hosts ! i, hm_addr = netutil_resolve_host gh (hosts ! i)\<rparr>]\<rparr>"
  let ?st1 = "?st\<lparr>nd_map := store_entries (row_writes ?here i r (pes ! i)) (nd_map st)\<rparr>"
  have row: "nat (sint (n_pes ! i)) = length (pes ! i)"
    using arg_cong [OF Suc.prems(2), of "\<lambda>xs. xs ! i"] i by simp
  have "pes_in (length (nd_map ?st)) (pes ! i)" using Suc.prems(4) i(2) by (auto simp: pes_in_def)
  from map_pes_stores [OF this, of 0 ?here i r]
  have inner: "map_pes (if ?here then PE_TYPE_LOCAL else PE_TYPE_REMOTE) i (pes ! i)
      [0 ..< length (pes ! i)] (of_nat r) ?st =
    Some (of_nat (if ?here then r else r + length (pes ! i)), ?st1)"
    by (cases "me = hosts ! i") (simp_all add: row_writes_def)
  have hlen: "length (hosts ! i) < HOSTNAME_LEN" using Suc.prems(3) i by simp
  have d: "drop i (zip hosts pes) = (hosts ! i, pes ! i) # drop (Suc i) (zip hosts pes)"
    using i by (simp flip: Cons_nth_drop_Suc)
  have "k = length hosts - Suc i" using Suc.hyps(2) by simp
  from Suc.hyps(1) [OF this, of ?st1 "if ?here then r else r + length (pes ! i)"] Suc.prems i
  obtain st' where st': "map_hosts gh me hosts pes n_pes [Suc i ..< length hosts]
      (of_nat (if ?here then r else r + length (pes ! i))) ?st1 = Some st'"
    "nd_map st' = store_entries (host_writes me (Suc i) (if ?here then r else r + length (pes ! i))
      (drop (Suc i) (zip hosts pes))) (nd_map ?st1)"
    "\<forall>k < length hosts. nd_nodes st' ! k = (if k < Suc i then nd_nodes ?st1 ! k else Some
      \<lparr>hm_hostname = hosts ! k, hm_addr = netutil_resolve_host gh (hosts ! k)\<rparr>)"
    by auto
  have "map_hosts gh me hosts pes n_pes [i ..< length hosts] (of_nat r) st = Some st'"
    using i hlen Suc.prems(5) inner row st'(1) by (simp add: upt_conv_Cons Let_def)
  moreover have "nd_map st' = store_entries (host_writes me i r (drop i (zip hosts pes))) (nd_map st)"
    using st'(2) by (simp add: d store_entries_append)
  moreover have "\<forall>k < length hosts. nd_nodes st' ! k = (if k < i then nd_nodes st ! k else Some
      \<lparr>hm_hostname = hosts ! k, hm_addr = netutil_resolve_host gh (hosts ! k)\<rparr>)"
    using st'(3) Suc.prems(5) by (auto simp: less_Suc_eq nth_list_update)
  ultimately show ?case by blast
qed

section \<open>The types of the entries\<close>

text \<open>
  The entry of a PE comes from a position \<open>j\<close> in the list of a host: the host has been stored,
  the type is local exactly on the caller's own host, and there the index is \<open>j\<close>.
\<close>

definition entry_typed :: "(string \<Rightarrow> 32 word list option) \<Rightarrow> string \<Rightarrow> string list \<Rightarrow> c_int list list \<Rightarrow>
    host_map_t option list \<Rightarrow> c_int \<Rightarrow> locality_map_t \<Rightarrow> bool" where
  "entry_typed gh me hosts pes hs pe e \<longleftrightarrow> (let i = lm_host e in
     i < length hosts \<and> i < length pes \<and> i < length hs \<and>
     hs ! i = Some \<lparr>hm_hostname = hosts ! i, hm_addr = netutil_resolve_host gh (hosts ! i)\<rparr> \<and>
     lm_type e = (if me = hosts ! i then PE_TYPE_LOCAL else PE_TYPE_REMOTE) \<and>
     (\<exists>j < length (pes ! i). pes ! i ! j = pe \<and> (me = hosts ! i \<longrightarrow> lm_index e = of_nat j)))"

definition node_typed :: "(string \<Rightarrow> 32 word list option) \<Rightarrow> string \<Rightarrow> string list \<Rightarrow> c_int list list \<Rightarrow>
    node_state \<Rightarrow> bool" where
  "node_typed gh me hosts pes st \<longleftrightarrow>
     (\<forall>pe e. comm_node_map st pe = Some e \<longrightarrow> entry_typed gh me hosts pes (nd_nodes st) pe e)"

lemma node_typed_store:
  assumes "node_typed gh me hosts pes st" and "entry_typed gh me hosts pes (nd_nodes st) pe e" and "0 \<le> sint pe"
  shows "node_typed gh me hosts pes (st\<lparr>nd_map := (nd_map st)[nat (sint pe) := Some e]\<rparr>)"
  unfolding node_typed_def
proof (intro allI impI)
  fix q x assume x: "comm_node_map (st\<lparr>nd_map := (nd_map st)[nat (sint pe) := Some e]\<rparr>) q = Some x"
  show "entry_typed gh me hosts pes (nd_nodes (st\<lparr>nd_map := (nd_map st)[nat (sint pe) := Some e]\<rparr>)) q x"
  proof (cases "q = pe")
    case True
    with x assms(2) show ?thesis by (simp add: comm_node_map_def split: if_splits)
  next
    case False
    have "comm_node_map st q = Some x"
    proof -
      have q: "0 \<le> sint q" using x by (simp add: comm_node_map_def split: if_splits)
      have "sint q \<noteq> sint pe" using False by (auto dest: signed_word_eqI)
      with q assms(3) have "nat (sint pe) \<noteq> nat (sint q)" by simp
      with x show ?thesis by (simp add: comm_node_map_def split: if_splits)
    qed
    with assms(1) show ?thesis by (simp add: node_typed_def)
  qed
qed

lemma entry_typed_host:
  "entry_typed gh me hosts pes hs pe e \<Longrightarrow> entry_typed gh me hosts pes (hs[i := Some
    \<lparr>hm_hostname = hosts ! i, hm_addr = netutil_resolve_host gh (hosts ! i)\<rparr>]) pe e"
  by (cases "lm_host e = i") (simp_all add: entry_typed_def Let_def)

lemma node_typed_host:
  assumes "node_typed gh me hosts pes st"
  shows "node_typed gh me hosts pes (st\<lparr>nd_nodes := (nd_nodes st)[i := Some
    \<lparr>hm_hostname = hosts ! i, hm_addr = netutil_resolve_host gh (hosts ! i)\<rparr>]\<rparr>)"
proof -
  have "comm_node_map (st\<lparr>nd_nodes := xs\<rparr>) = comm_node_map st" for xs by (simp add: comm_node_map_def fun_eq_iff)
  with assms show ?thesis unfolding node_typed_def by (simp add: entry_typed_host)
qed

lemma map_pes_typed:
  assumes "map_pes (if me = hosts ! i then PE_TYPE_LOCAL else PE_TYPE_REMOTE) i (pes ! i) js index st = Some (index', st')"
    and "node_typed gh me hosts pes st" and "i < length hosts" "i < length pes" "i < length (nd_nodes st)"
    and "nd_nodes st ! i = Some \<lparr>hm_hostname = hosts ! i, hm_addr = netutil_resolve_host gh (hosts ! i)\<rparr>"
  shows "node_typed gh me hosts pes st'"
  using assms
proof (induction js arbitrary: index st)
  case (Cons j js)
  let ?ty = "if me = hosts ! i then PE_TYPE_LOCAL else PE_TYPE_REMOTE" and ?pe = "pes ! i ! j"
  let ?p = "if ?ty = PE_TYPE_LOCAL then (of_nat j, index) else (index, index + 1)"
  let ?e = "\<lparr>lm_type = ?ty, lm_index = fst ?p, lm_host = i\<rparr>"
  let ?st = "st\<lparr>nd_map := (nd_map st)[nat (sint ?pe) := Some ?e]\<rparr>"
  have ok: "j < length (pes ! i)" "0 \<le> sint ?pe"
    and rest: "map_pes ?ty i (pes ! i) js (snd ?p) ?st = Some (index', st')"
    using Cons.prems(1) by (simp_all add: split_beta split: if_splits)
  have "entry_typed gh me hosts pes (nd_nodes st) ?pe ?e" using Cons.prems(3-6) ok by (auto simp: entry_typed_def)
  hence "node_typed gh me hosts pes ?st" using ok(2) by (rule node_typed_store [OF Cons.prems(2)])
  with Cons.IH [OF rest] Cons.prems(3-6) show ?case by simp
qed simp

lemma map_pes_nodes: "map_pes ty i row js index st = Some (index', st') \<Longrightarrow> nd_nodes st' = nd_nodes st"
  by (induction ty i row js index st rule: map_pes.induct) (auto simp: split_beta split: if_splits)

lemma map_hosts_typed:
  assumes "map_hosts gh me hosts pes n_pes is index st = Some st'" and "node_typed gh me hosts pes st"
  shows "node_typed gh me hosts pes st'"
  using assms
proof (induction gh me hosts pes n_pes "is" index st rule: map_hosts.induct)
  case (2 gh me hosts pes n_pes i "is" index st)
  let ?st = "st\<lparr>nd_nodes := (nd_nodes st)[i := Some \<lparr>hm_hostname = hosts ! i, hm_addr = netutil_resolve_host gh (hosts ! i)\<rparr>]\<rparr>"
  let ?ty = "if me = hosts ! i then PE_TYPE_LOCAL else PE_TYPE_REMOTE"
  have ok: "i < length hosts \<and> i < length (nd_nodes st) \<and> length (hosts ! i) < HOSTNAME_LEN \<and> i < length pes \<and> i < length n_pes"
    using 2(2) by (auto split: if_splits)
  then obtain index' st1 where st1: "map_pes ?ty i (pes ! i) [0 ..< nat (sint (n_pes ! i))] index ?st = Some (index', st1)"
    "map_hosts gh me hosts pes n_pes is index' st1 = Some st'"
    using 2(2) by (auto simp: Let_def bind_eq_Some_conv)
  have "node_typed gh me hosts pes st1" by (rule map_pes_typed [OF st1(1) node_typed_host [OF 2(3)]]) (use ok in simp_all)
  thus ?case using 2(1) [OF ok refl refl st1(1) refl st1(2)] by blast
qed simp

section \<open>What the table then holds\<close>

text \<open>The remote PEs in the order of the hosts, and how many of them come before host \<open>i\<close>.\<close>

definition remote_pes :: "string \<Rightarrow> (string \<times> c_int list) list \<Rightarrow> c_int list" where
  "remote_pes me xs = concat (map snd (filter (\<lambda>x. me \<noteq> fst x) xs))"

lemma map_fst_row_writes: "map fst (row_writes here i r row) = row"
  by (simp add: row_writes_def comp_def map_nth)

lemma map_fst_host_writes: "map fst (host_writes me i r xs) = concat (map snd xs)"
  by (induction xs arbitrary: i r) (simp_all add: map_fst_row_writes)

lemma host_writes_nth:
  assumes "i < length xs" and "j < length (snd (xs ! i))"
  shows "(snd (xs ! i) ! j, entry (me = fst (xs ! i)) (k + i) (r + length (remote_pes me (take i xs))) j)
    \<in> set (host_writes me k r xs)"
  using assms
proof (induction xs arbitrary: i k r)
  case (Cons x xs)
  show ?case
  proof (cases i)
    case 0
    with Cons.prems show ?thesis by (auto simp: row_writes_def remote_pes_def)
  next
    case (Suc i')
    with Cons.prems Cons.IH [of i' "Suc k" "if me = fst x then r else r + length (snd x)"]
    show ?thesis by (auto simp: remote_pes_def add.assoc)
  qed
qed simp

lemma remote_writes:
  "map (\<lambda>w. (fst w, lm_index (snd w))) (filter (\<lambda>w. lm_type (snd w) = PE_TYPE_REMOTE) (host_writes me i r xs)) =
    zip (remote_pes me xs) (map of_nat [r ..< r + length (remote_pes me xs)])"
proof (induction xs arbitrary: i r)
  case (Cons x xs)
  show ?case
  proof (cases "me = fst x")
    case True
    then have "filter (\<lambda>w. lm_type (snd w) = PE_TYPE_REMOTE) (row_writes True i r (snd x)) = []"
      by (auto simp: row_writes_def entry_def filter_empty_conv)
    with True Cons.IH [of "Suc i" r] show ?thesis by (simp add: remote_pes_def)
  next
    case False
    then have "filter (\<lambda>w. lm_type (snd w) = PE_TYPE_REMOTE) (row_writes False i r (snd x)) =
        row_writes False i r (snd x)"
      by (auto simp: row_writes_def entry_def filter_id_conv)
    moreover have "map (\<lambda>w. (fst w, lm_index (snd w))) (row_writes False i r (snd x)) =
        zip (snd x) (map of_nat [r ..< r + length (snd x)])"
      by (rule nth_equalityI) (auto simp: row_writes_def entry_def)
    moreover have "[r ..< r + length (snd x) + n] =
        [r ..< r + length (snd x)] @ [r + length (snd x) ..< r + length (snd x) + n]" for n
      by (rule upt_add_eq_append) simp
    ultimately show ?thesis using False Cons.IH [of "Suc i" "r + length (snd x)"]
      by (simp add: remote_pes_def add.assoc [symmetric])
  qed
qed (simp add: remote_pes_def)

text \<open>The inputs on which the table is filled without leaving an array.\<close>

definition hosts_ok :: "node_state \<Rightarrow> string list \<Rightarrow> c_int list list \<Rightarrow> c_int \<Rightarrow> c_int list \<Rightarrow> bool" where
  "hosts_ok st hosts pes n_hosts n_pes \<longleftrightarrow>
     sint n_hosts = int (length hosts) \<and> length (nd_nodes st) = length hosts \<and>
     length pes = length hosts \<and> map (nat \<circ> sint) n_pes = map length pes \<and>
     (\<forall>h \<in> set hosts. length h < HOSTNAME_LEN) \<and> pes_in (length (nd_map st)) (concat pes) \<and>
     distinct (concat pes)"

lemma concat_zip_rows: "length xs = length ys \<Longrightarrow> concat (map snd (zip xs ys)) = concat ys"
  by simp

lemma map_locality_stores:
  assumes "hosts_ok st hosts pes n_hosts n_pes"
  obtains st' where "comm_node_map_locality gh me hosts pes n_hosts n_pes st = Some st'"
    "nd_map st' = store_entries (host_writes me 0 0 (zip hosts pes)) (nd_map st)"
    "\<And>pe e. (pe, e) \<in> set (host_writes me 0 0 (zip hosts pes)) \<Longrightarrow> comm_node_map st' pe = Some e"
    "\<And>k. k < length hosts \<Longrightarrow> nd_nodes st' ! k = Some
      \<lparr>hm_hostname = hosts ! k, hm_addr = netutil_resolve_host gh (hosts ! k)\<rparr>"
proof -
  note ok = assms [unfolded hosts_ok_def]
  let ?ws = "host_writes me 0 0 (zip hosts pes)"
  have "\<exists>st'. map_hosts gh me hosts pes n_pes [0 ..< length hosts] 0 st = Some st' \<and>
      nd_map st' = store_entries ?ws (nd_map st) \<and>
      (\<forall>k < length hosts. nd_nodes st' ! k = Some
        \<lparr>hm_hostname = hosts ! k, hm_addr = netutil_resolve_host gh (hosts ! k)\<rparr>)"
  proof -
    have "length pes = length hosts" "map (nat \<circ> sint) n_pes = map length pes"
      "\<forall>h \<in> set hosts. length h < HOSTNAME_LEN" "pes_in (length (nd_map st)) (concat pes)"
      "length hosts = length (nd_nodes st)" using ok by simp_all
    from map_hosts_stores [OF this, of 0 gh me 0] show ?thesis by simp
  qed
  then obtain st' where st': "map_hosts gh me hosts pes n_pes [0 ..< length hosts] 0 st = Some st'"
    "nd_map st' = store_entries ?ws (nd_map st)"
    "\<And>k. k < length hosts \<Longrightarrow> nd_nodes st' ! k = Some
      \<lparr>hm_hostname = hosts ! k, hm_addr = netutil_resolve_host gh (hosts ! k)\<rparr>" by blast
  have fst: "map fst ?ws = concat pes" using ok by (simp add: map_fst_host_writes)
  have "comm_node_map st' pe = Some e" if "(pe, e) \<in> set ?ws" for pe e
  proof -
    have "pe \<in> set (map fst ?ws)" using that by force
    then have "0 \<le> sint pe" "nat (sint pe) < length (nd_map st')"
      using ok st'(2) by (auto simp: fst pes_in_def nat_less_iff)
    moreover have "store_entries ?ws (nd_map st) ! nat (sint pe) = Some e"
      by (rule store_entries_stored) (use ok that in \<open>simp_all add: fst\<close>)
    ultimately show ?thesis using st'(2) by (simp add: comm_node_map_def)
  qed
  with st' ok show thesis by (intro that [of st']) (simp_all add: comm_node_map_locality_def)
qed

section \<open>Properties\<close>

lemma ex_all_below:
  "\<exists>x. A x \<and> (\<forall>i < n. B i x \<and> (\<forall>j < m i. C i j x)) \<Longrightarrow> i < n \<Longrightarrow> j < m i \<Longrightarrow>
    \<exists>x. A x \<and> B i x \<and> C i j x"
  by blast

text \<open>The input the properties are evaluated on: hosts a and b with PEs 0, 2 and 1, 3, seen from a.\<close>

definition demo_node :: node_state where
  "demo_node = comm_node_init 4096 0 2 4 2"

lemma demo_hosts: "hosts_ok demo_node [''a'', ''b''] [[0, 2], [1, 3]] 2 [2, 2]"
  by (simp add: hosts_ok_def demo_node_def comm_node_init_def Let_def HOSTNAME_LEN_def pes_in_def)

lemma demo_entry:
  "\<exists>st' e. comm_node_map_locality (\<lambda>_. None) ''a'' [''a'', ''b''] [[0, 2], [1, 3]] 2 [2, 2] demo_node = Some st' \<and>
    comm_node_map st' 2 = Some e"
  by (rule map_locality_stores [OF demo_hosts, of "\<lambda>_. None" "''a''"])
    (auto simp: row_writes_def entry_def upt_rec)

text \<open>
  Mapping the locality returns, and every PE of every host then has an entry with the
  host's position, the type local exactly on the caller's own host, and there its rank
  on the host as the index; every host has its name and resolved address.
\<close>

theorem map_locality_entries:
  assumes "hosts_ok st hosts pes n_hosts n_pes"
  shows "\<exists>st'. comm_node_map_locality gh me hosts pes n_hosts n_pes st = Some st' \<and>
    (\<forall>i < length hosts. nd_nodes st' ! i = Some
        \<lparr>hm_hostname = hosts ! i, hm_addr = netutil_resolve_host gh (hosts ! i)\<rparr> \<and>
      (\<forall>j < length (pes ! i). \<exists>e. comm_node_map st' (pes ! i ! j) = Some e \<and> lm_host e = i \<and>
        lm_type e = (if me = hosts ! i then PE_TYPE_LOCAL else PE_TYPE_REMOTE) \<and>
        (me = hosts ! i \<longrightarrow> lm_index e = of_nat j)))"
proof -
  obtain st' where st': "comm_node_map_locality gh me hosts pes n_hosts n_pes st = Some st'"
    "\<And>pe e. (pe, e) \<in> set (host_writes me 0 0 (zip hosts pes)) \<Longrightarrow> comm_node_map st' pe = Some e"
    "\<And>k. k < length hosts \<Longrightarrow> nd_nodes st' ! k = Some
      \<lparr>hm_hostname = hosts ! k, hm_addr = netutil_resolve_host gh (hosts ! k)\<rparr>"
    by (rule map_locality_stores [OF assms]) blast
  have "length pes = length hosts" using assms by (simp add: hosts_ok_def)
  then have "comm_node_map st' (pes ! i ! j) =
      Some (entry (me = hosts ! i) i (length (remote_pes me (take i (zip hosts pes)))) j)"
    if "i < length hosts" "j < length (pes ! i)" for i j
    using st'(2) host_writes_nth [of i "zip hosts pes" j me 0 0] that by simp
  with st'(1,3) show ?thesis by (auto simp: entry_def)
qed

theorem map_locality_entries_witness:
  "\<exists>st' e. comm_node_map_locality (\<lambda>_. None) ''a'' [''a'', ''b''] [[0, 2], [1, 3]] 2 [2, 2] demo_node = Some st' \<and>
    comm_node_map st' 2 = Some e \<and> lm_type e = PE_TYPE_LOCAL \<and> lm_index e = 1"
  using ex_all_below [OF map_locality_entries [OF demo_hosts, of "\<lambda>_. None" "''a''"], of 0 1] by auto

text \<open>
  C20: the table is well typed, whatever lists the runtime layer gives. When mapping the
  locality returns, every entry that \<open>comm_node_map\<close> then finds points to a host that has been
  stored, with its name and address, and that lists the PE; it is local exactly when that is
  the caller's own host, and then its index is the position of the PE in the host's list.
\<close>

theorem node_table_typed:
  assumes "comm_node_map_locality gh me hosts pes n_hosts n_pes (comm_node_init region my_local_pe n_local_pes n n_nodes) = Some st"
    and "comm_node_map st pe = Some e"
  shows "lm_host e < length (nd_nodes st) \<and> nd_nodes st ! lm_host e = Some
      \<lparr>hm_hostname = hosts ! lm_host e, hm_addr = netutil_resolve_host gh (hosts ! lm_host e)\<rparr> \<and>
    lm_type e = (if me = hosts ! lm_host e then PE_TYPE_LOCAL else PE_TYPE_REMOTE) \<and>
    (\<exists>j < length (pes ! lm_host e). pes ! lm_host e ! j = pe \<and>
      (lm_type e = PE_TYPE_LOCAL \<longrightarrow> lm_index e = of_nat j))"
proof -
  have "node_typed gh me hosts pes (comm_node_init region my_local_pe n_local_pes n n_nodes)"
    by (simp add: node_typed_def comm_node_init_def comm_node_map_def Let_def)
  hence "node_typed gh me hosts pes st" using map_hosts_typed assms(1) unfolding comm_node_map_locality_def by blast
  thus ?thesis using assms(2) by (auto simp: node_typed_def entry_typed_def Let_def split: if_splits)
qed

theorem node_table_typed_witness:
  "\<exists>st' e j. comm_node_map_locality (\<lambda>_. None) ''a'' [''a'', ''b''] [[0, 2], [1, 3]] 2 [2, 2] demo_node = Some st' \<and>
    comm_node_map st' 2 = Some e \<and> nd_nodes st' ! lm_host e \<noteq> None \<and>
    [[0, 2], [1, 3]] ! lm_host e ! j = (2 :: c_int) \<and> (lm_type e = PE_TYPE_LOCAL \<longrightarrow> lm_index e = of_nat j)"
proof -
  obtain st' e where st: "comm_node_map_locality (\<lambda>_. None) ''a'' [''a'', ''b''] [[0, 2], [1, 3]] 2 [2, 2] demo_node = Some st'"
    "comm_node_map st' 2 = Some e"
    using demo_entry by blast
  with node_table_typed [OF st(1) [unfolded demo_node_def] st(2)] show ?thesis by blast
qed

text \<open>
  C38: the remote PEs, taken in the order of the hosts, have the indices 0, 1, 2 and so on:
  no two share a socket, and every index is below the number of remote PEs, the length of
  the socket arrays.
\<close>

theorem map_locality_remote_index:
  assumes "hosts_ok st hosts pes n_hosts n_pes"
    and "comm_node_map_locality gh me hosts pes n_hosts n_pes st = Some st'"
  shows "map (\<lambda>pe. map_option lm_index (comm_node_map st' pe)) (remote_pes me (zip hosts pes)) =
    map (\<lambda>k. Some (of_nat k)) [0 ..< length (remote_pes me (zip hosts pes))]"
proof -
  let ?ws = "host_writes me 0 0 (zip hosts pes)" and ?r = "remote_pes me (zip hosts pes)"
  have st': "comm_node_map st' pe = Some e" if "(pe, e) \<in> set ?ws" for pe e
    by (rule map_locality_stores [OF assms(1), of gh me]) (use assms(2) that in simp)
  have "comm_node_map st' (?r ! k) \<noteq> None \<and> map_option lm_index (comm_node_map st' (?r ! k)) = Some (of_nat k)"
    if "k < length ?r" for k
  proof -
    have "(?r ! k, of_nat k) \<in> set (zip ?r (map of_nat [0 ..< 0 + length ?r]))"
      using that by (force simp: set_zip)
    then have "(?r ! k, of_nat k) \<in> set (map (\<lambda>w. (fst w, lm_index (snd w)))
        (filter (\<lambda>w. lm_type (snd w) = PE_TYPE_REMOTE) ?ws))"
      by (simp only: remote_writes)
    then obtain w where w: "w \<in> set ?ws" "fst w = ?r ! k" "lm_index (snd w) = of_nat k" by auto
    then have "comm_node_map st' (?r ! k) = Some (snd w)"
      using st' [of "fst w" "snd w"] by (simp flip: w(2))
    with w(3) show ?thesis by simp
  qed
  then show ?thesis by (intro nth_equalityI) auto
qed

theorem map_locality_remote_index_witness:
  "\<exists>st'. comm_node_map_locality (\<lambda>_. None) ''a'' [''a'', ''b''] [[0, 2], [1, 3]] 2 [2, 2] demo_node = Some st' \<and>
    map (\<lambda>pe. map_option lm_index (comm_node_map st' pe)) [1, 3] = [Some 0, Some 1]"
proof -
  obtain st' where st': "comm_node_map_locality (\<lambda>_. None) ''a'' [''a'', ''b''] [[0, 2], [1, 3]] 2 [2, 2] demo_node = Some st'"
    by (rule map_locality_stores [OF demo_hosts, of "\<lambda>_. None" "''a''"]) blast
  from map_locality_remote_index [OF demo_hosts st'] st' show ?thesis by (simp add: remote_pes_def)
qed

text \<open>
  A PE that no host lists keeps the contents its entry had before, so after
  \<open>comm_node_init\<close> the entry stays uninitialised.
\<close>

theorem map_locality_unlisted:
  assumes "hosts_ok st hosts pes n_hosts n_pes" and "pe \<notin> set (concat pes)"
    and "comm_node_map_locality gh me hosts pes n_hosts n_pes st = Some st'"
  shows "comm_node_map st' pe = comm_node_map st pe"
proof -
  let ?ws = "host_writes me 0 0 (zip hosts pes)"
  have m: "nd_map st' = store_entries ?ws (nd_map st)"
    by (rule map_locality_stores [OF assms(1), of gh me]) (use assms(3) in simp)
  have f: "map fst ?ws = concat pes" using assms(1) by (simp add: hosts_ok_def map_fst_host_writes)
  have "store_entries ?ws (nd_map st) ! nat (sint pe) = nd_map st ! nat (sint pe)" if "0 \<le> sint pe"
    by (rule store_entries_other [where n = "length (nd_map st)"])
      (use assms(1,2) that f in \<open>simp_all add: hosts_ok_def flip: set_map\<close>)
  with m show ?thesis by (simp add: comm_node_map_def)
qed

theorem map_locality_unlisted_witness:
  "\<exists>st'. comm_node_map_locality (\<lambda>_. None) ''a'' [''a'', ''b''] [[0, 2], [1, 3]] 2 [2, 2] demo_node = Some st' \<and>
    comm_node_map st' 4 = comm_node_map demo_node 4"
proof -
  obtain st' where st': "comm_node_map_locality (\<lambda>_. None) ''a'' [''a'', ''b''] [[0, 2], [1, 3]] 2 [2, 2] demo_node = Some st'"
    by (rule map_locality_stores [OF demo_hosts, of "\<lambda>_. None" "''a''"]) blast
  from map_locality_unlisted [OF demo_hosts _ st', of 4] st' show ?thesis by simp
qed

text \<open>
  The node's region is divided without overlap: the synchronisation array, the hosts and
  the locality map follow each other and end where the region does. As a host takes 260
  bytes, the locality map, whose entries hold a pointer, starts at an address that is not a
  multiple of 8 whenever the number of nodes is odd and the region is aligned.
\<close>

theorem node_region_layout:
  fixes region me n_local n_pes n_nodes
  defines "st \<equiv> comm_node_init region me n_local n_pes n_nodes"
  assumes "0 \<le> sint n_local" and "0 \<le> sint n_pes" and "0 \<le> sint n_nodes" and "unat region < 2 ^ 62"
  shows "unat (nd_p_sync st) = unat region \<and>
    unat (nd_nodes_at st) = unat (nd_p_sync st) + 8 * nat (sint n_local) \<and>
    unat (nd_map_at st) = unat (nd_nodes_at st) + 260 * nat (sint n_nodes) \<and>
    unat region + unat (nd_size st) = unat (nd_map_at st) + 16 * nat (sint n_pes) \<and>
    (unat region mod 8 = 0 \<and> odd (nat (sint n_nodes)) \<longrightarrow> unat (nd_map_at st) mod 8 = 4)"
proof -
  define l p n where d: "l = nat (sint n_local)" "p = nat (sint n_pes)" "n = nat (sint n_nodes)"
  have b: "l < 2 ^ 31" "p < 2 ^ 31" "n < 2 ^ 31"
    using assms(2-4) sint_lt [of n_local] sint_lt [of n_pes] sint_lt [of n_nodes] by (simp_all add: d nat_less_iff)
  have c0: "scast x = (of_nat (nat (sint x)) :: size_t)" if "0 \<le> sint x" for x :: c_int
    unfolding scast_eq using of_nat_nat [OF that, where 'a = "64 word"] by (rule sym)
  have c: "scast n_local = (of_nat l :: size_t)" "scast n_pes = (of_nat p :: size_t)"
    "scast n_nodes = (of_nat n :: size_t)" unfolding d by (rule c0 [OF assms(2)], rule c0 [OF assms(3)], rule c0 [OF assms(4)])
  have w: "unat (of_nat m :: size_t) = m" if "m < 2 ^ 62 + 2 ^ 62" for m
    using that by (intro unat_of_nat_exact) simp
  have small: "unat (region + of_nat m) = unat region + m" if "m < 2 ^ 62" for m
  proof -
    have m: "unat (of_nat m :: size_t) = m" by (rule w) (use that in simp)
    then have "unat region + unat (of_nat m :: size_t) < 2 ^ 64" using that assms(5) by simp
    from unat_add_exact [OF this] m show ?thesis by simp
  qed
  have e: "nd_p_sync st = region" "nd_nodes_at st = region + of_nat (8 * l)"
    "nd_map_at st = region + of_nat (8 * l + 260 * n)"
    "nd_size st = of_nat (8 * l + 260 * n + 16 * p)"
    by (simp_all add: st_def comm_node_init_def Let_def c sizeof_long_def
        sizeof_host_map_def sizeof_locality_map_def algebra_simps)
  have c1: "8 * l < 2 ^ 62" "8 * l + 260 * n < 2 ^ 62" "8 * l + 260 * n + 16 * p < 2 ^ 62 + 2 ^ 62"
    using b by simp_all
  have u: "unat (nd_nodes_at st) = unat region + 8 * l"
    "unat (nd_map_at st) = unat region + (8 * l + 260 * n)"
    "unat (nd_size st) = 8 * l + 260 * n + 16 * p"
    unfolding e by (rule small [OF c1(1)], rule small [OF c1(2)], rule w [OF c1(3)])
  have "unat (nd_map_at st) mod 8 = 4" if al: "unat region mod 8 = 0" and od: "odd n"
  proof -
    obtain k where "n = 2 * k + 1" using od by (auto elim: oddE)
    moreover obtain r where "unat region = 8 * r" using al by (auto simp: mod_eq_0_iff_dvd)
    ultimately have "unat (nd_map_at st) = 4 + 8 * (r + l + 65 * k + 32)" unfolding u(2) by simp
    then show ?thesis by (simp only: mod_mult_self2) simp
  qed
  with u e(1) show ?thesis unfolding d [symmetric] by simp
qed

theorem node_region_layout_witness:
  "unat (nd_map_at (comm_node_init 4096 0 2 3 3)) mod 8 = 4"
  using node_region_layout [of 2 3 3 4096 0] by simp

end
