(* ===== verification/Node_Memory.thy ===== *)
theory Node_Memory
  imports Prelude
begin

text \<open>
  The memory that the processes of one node copy between: the symmetric heaps, one for each
  local PE, which every process of the node maps at addresses of its own, and the private
  memory of each process. \<open>bases\<close> are the addresses at which a process has mapped the heaps,
  in the order of the local PEs. An address that lies in no mapping is private.
\<close>

section \<open>Loads and stores\<close>

text \<open>\<open>SYMMETRIC_HEAP_SIZE\<close> is \<open>2 << 25\<close>.\<close>

definition SYMMETRIC_HEAP_SIZE :: nat where
  "SYMMETRIC_HEAP_SIZE = 2 * 2 ^ 25"

record node_mem =
  nm_heap :: "nat \<Rightarrow> nat \<Rightarrow> byte"
  nm_priv :: "nat \<Rightarrow> ptr \<Rightarrow> byte option"

definition mapping_of :: "ptr option list \<Rightarrow> ptr \<Rightarrow> nat option" where
  "mapping_of bases a = find (\<lambda>i. case bases ! i of None \<Rightarrow> False
     | Some b \<Rightarrow> unat (a - b) < SYMMETRIC_HEAP_SIZE) [0 ..< length bases]"

definition offset_in :: "ptr option list \<Rightarrow> nat \<Rightarrow> ptr \<Rightarrow> nat" where
  "offset_in bases i a = (case bases ! i of None \<Rightarrow> 0 | Some b \<Rightarrow> unat (a - b))"

definition load :: "node_mem \<Rightarrow> nat \<Rightarrow> ptr option list \<Rightarrow> ptr \<Rightarrow> byte option" where
  "load nm me bases a = (case mapping_of bases a of
     Some i \<Rightarrow> Some (nm_heap nm i (offset_in bases i a))
   | None \<Rightarrow> nm_priv nm me a)"

definition store :: "node_mem \<Rightarrow> nat \<Rightarrow> ptr option list \<Rightarrow> ptr \<Rightarrow> byte \<Rightarrow> node_mem option" where
  "store nm me bases a x = (case mapping_of bases a of
     Some i \<Rightarrow> Some (nm\<lparr>nm_heap := (nm_heap nm)(i := (nm_heap nm i)(offset_in bases i a := x))\<rparr>)
   | None \<Rightarrow> if nm_priv nm me a = None then None
       else Some (nm\<lparr>nm_priv := (nm_priv nm)(me := (nm_priv nm me)(a \<mapsto> x))\<rparr>))"

primrec load_bytes :: "node_mem \<Rightarrow> nat \<Rightarrow> ptr option list \<Rightarrow> ptr \<Rightarrow> nat \<Rightarrow> byte list option" where
  "load_bytes nm me bases a 0 = Some []"
| "load_bytes nm me bases a (Suc n) = do {
     x \<leftarrow> load nm me bases a;
     xs \<leftarrow> load_bytes nm me bases (a + 1) n;
     Some (x # xs)
   }"

primrec store_bytes :: "node_mem \<Rightarrow> nat \<Rightarrow> ptr option list \<Rightarrow> ptr \<Rightarrow> byte list \<Rightarrow> node_mem option" where
  "store_bytes nm me bases a [] = Some nm"
| "store_bytes nm me bases a (x # xs) = do {
     nm \<leftarrow> store nm me bases a x;
     store_bytes nm me bases (a + 1) xs
   }"

text \<open>\<open>memcpy\<close>: undefined when an address is not valid or the areas overlap.\<close>

definition memcpy :: "node_mem \<Rightarrow> nat \<Rightarrow> ptr option list \<Rightarrow> ptr \<Rightarrow> ptr \<Rightarrow> nat \<Rightarrow> node_mem option" where
  "memcpy nm me bases dest src n =
     (if unat (dest - src) < n \<or> unat (src - dest) < n then None
      else do { xs \<leftarrow> load_bytes nm me bases src n; store_bytes nm me bases dest xs })"

section \<open>Mappings\<close>

text \<open>The heaps are mapped below the middle of the address space and do not overlap.\<close>

definition maps_ok :: "ptr option list \<Rightarrow> bool" where
  "maps_ok bases \<longleftrightarrow>
     (\<forall>i < length bases. \<forall>b. bases ! i = Some b \<longrightarrow> 0 < unat b \<and> unat b + SYMMETRIC_HEAP_SIZE < 2 ^ 63) \<and>
     (\<forall>i < length bases. \<forall>j < length bases. \<forall>b c. i \<noteq> j \<longrightarrow> bases ! i = Some b \<longrightarrow> bases ! j = Some c \<longrightarrow>
       unat b + SYMMETRIC_HEAP_SIZE \<le> unat c \<or> unat c + SYMMETRIC_HEAP_SIZE \<le> unat b)"

lemma unat_diff_below:
  fixes a b :: ptr
  assumes "unat (a - b) < n"
  shows "a = b + of_nat (unat (a - b))"
  by simp

lemma heap_address:
  assumes ok: "maps_ok bases" and i: "i < length bases" "bases ! i = Some b" and k: "k < SYMMETRIC_HEAP_SIZE"
  shows "unat (b + of_nat k) = unat b + k" and "mapping_of bases (b + of_nat k) = Some i"
    and "offset_in bases i (b + of_nat k) = k"
proof -
  have S: "SYMMETRIC_HEAP_SIZE < 2 ^ 63" by (simp add: SYMMETRIC_HEAP_SIZE_def)
  have addr: "unat (c + of_nat m) = unat c + m"
    if "j < length bases" "bases ! j = Some c" "m < SYMMETRIC_HEAP_SIZE" for j c m
  proof -
    have m: "unat (of_nat m :: ptr) = m" using that(3) S by (intro unat_of_nat_exact) simp
    moreover have "unat c + m < 2 ^ 64" using ok that unfolding maps_ok_def by force
    ultimately show ?thesis using unat_add_exact [of c "of_nat m"] by simp
  qed
  show a: "unat (b + of_nat k) = unat b + k" using i k by (rule addr)
  have self: "unat (b + of_nat k - b) = k" using k S by (simp add: unat_of_nat_exact)
  then show "offset_in bases i (b + of_nat k) = k" using i(2) by (simp add: offset_in_def)
  have other: "\<not> unat (b + of_nat k - c) < SYMMETRIC_HEAP_SIZE" if j: "j < length bases" "bases ! j = Some c" "j \<noteq> i" for j c
  proof
    assume d: "unat (b + of_nat k - c) < SYMMETRIC_HEAP_SIZE"
    let ?d = "unat (b + of_nat k - c)"
    have "unat (c + of_nat ?d) = unat c + ?d" using j d by (intro addr) auto
    moreover have "c + of_nat ?d = b + of_nat k" by simp
    ultimately have "unat c + ?d = unat b + k" using a by simp
    moreover have "unat b + SYMMETRIC_HEAP_SIZE \<le> unat c \<or> unat c + SYMMETRIC_HEAP_SIZE \<le> unat b"
      using ok i j unfolding maps_ok_def by blast
    ultimately show False using d k by linarith
  qed
  have "\<not> (case bases ! j of None \<Rightarrow> False | Some c \<Rightarrow> unat (b + of_nat k - c) < SYMMETRIC_HEAP_SIZE)"
    if "j < i" for j
    using other [of j] that i(1) by (cases "bases ! j") simp_all
  then show "mapping_of bases (b + of_nat k) = Some i"
    unfolding mapping_of_def find_Some_iff using i self k by (intro exI [of _ i]) simp
qed

text \<open>Addresses of private memory: they lie in no mapping.\<close>

definition priv_area :: "ptr option list \<Rightarrow> ptr \<Rightarrow> nat \<Rightarrow> bool" where
  "priv_area bases a n \<longleftrightarrow> (\<forall>k < n. mapping_of bases (a + of_nat k) = None)"

definition heap_bytes :: "node_mem \<Rightarrow> nat \<Rightarrow> nat \<Rightarrow> nat \<Rightarrow> byte list" where
  "heap_bytes nm i off n = map (nm_heap nm i) [off ..< off + n]"

text \<open>The node with the bytes \<open>xs\<close> stored at offset \<open>off\<close> of heap \<open>i\<close>.\<close>

definition put_heap :: "node_mem \<Rightarrow> nat \<Rightarrow> nat \<Rightarrow> byte list \<Rightarrow> node_mem" where
  "put_heap nm i off xs = nm\<lparr>nm_heap := (nm_heap nm)(i :=
     (\<lambda>k. if off \<le> k \<and> k < off + length xs then xs ! (k - off) else nm_heap nm i k))\<rparr>"

lemma put_heap_Nil [simp]: "put_heap nm i off [] = nm"
proof -
  have "(\<lambda>k. if off \<le> k \<and> k < off + length [] then [] ! (k - off) else nm_heap nm i k) = nm_heap nm i"
    by (rule ext) auto
  then show ?thesis by (simp add: put_heap_def)
qed

lemma put_heap_Cons:
  "put_heap (put_heap nm i off [x]) i (Suc off) xs = put_heap nm i off (x # xs)"
  by (auto simp: put_heap_def fun_eq_iff nth_Cons' not_less less_Suc_eq_le split: if_splits
      intro!: node_mem.equality arg_cong [where f = "(!) xs"]) 

lemma load_heap:
  assumes "maps_ok bases" and "i < length bases" and "bases ! i = Some b" and "k < SYMMETRIC_HEAP_SIZE"
  shows "load nm me bases (b + of_nat k) = Some (nm_heap nm i k)"
  using heap_address [OF assms] by (simp add: load_def)

lemma store_heap:
  assumes "maps_ok bases" and "i < length bases" and "bases ! i = Some b" and "k < SYMMETRIC_HEAP_SIZE"
  shows "store nm me bases (b + of_nat k) x = Some (put_heap nm i k [x])"
  using heap_address [OF assms] by (auto simp: store_def put_heap_def fun_eq_iff intro!: node_mem.equality)

lemma load_bytes_heap:
  assumes "maps_ok bases" and "i < length bases" and "bases ! i = Some b"
    and "off + n \<le> SYMMETRIC_HEAP_SIZE"
  shows "load_bytes nm me bases (b + of_nat off) n = Some (heap_bytes nm i off n)"
  using assms(4)
proof (induction n arbitrary: off)
  case (Suc n)
  from Suc.IH [of "Suc off"] Suc.prems load_heap [OF assms(1-3), of off nm me]
  moreover have "[off ..< off + Suc n] = off # [Suc off ..< Suc off + n]" by (simp add: upt_conv_Cons del: upt_Suc)
  ultimately show ?case by (simp add: heap_bytes_def add.assoc add.commute [of 1] del: upt_Suc)
qed (simp add: heap_bytes_def)

lemma store_bytes_heap:
  assumes "maps_ok bases" and "i < length bases" and "bases ! i = Some b"
    and "off + length xs \<le> SYMMETRIC_HEAP_SIZE"
  shows "store_bytes nm me bases (b + of_nat off) xs = Some (put_heap nm i off xs)"
  using assms(4)
proof (induction xs arbitrary: off nm)
  case (Cons x xs)
  from Cons.IH [of "Suc off" "put_heap nm i off [x]"] Cons.prems store_heap [OF assms(1-3), of off nm me x]
  show ?case by (simp add: add.assoc add.commute [of 1] put_heap_Cons)
qed simp

lemma heap_bytes_put_heap: "heap_bytes (put_heap nm i off xs) i off (length xs) = xs"
  by (rule nth_equalityI) (simp_all add: heap_bytes_def put_heap_def)

lemma put_heap_other:
  "j \<noteq> i \<Longrightarrow> nm_heap (put_heap nm i off xs) j = nm_heap nm j"
  "k < off \<or> off + length xs \<le> k \<Longrightarrow> nm_heap (put_heap nm i off xs) i k = nm_heap nm i k"
  "nm_priv (put_heap nm i off xs) = nm_priv nm"
  by (auto simp: put_heap_def)

lemma load_bytes_length: "load_bytes nm me bases a n = Some xs \<Longrightarrow> length xs = n"
  by (induction n arbitrary: a xs) (auto simp: bind_eq_Some_conv)

text \<open>What processes have in use of their private memory stays as it is.\<close>

definition priv_kept :: "node_mem \<Rightarrow> node_mem \<Rightarrow> bool" where
  "priv_kept nm nm' \<longleftrightarrow> (\<forall>r a. nm_priv nm r a \<noteq> None \<longrightarrow> nm_priv nm' r a = nm_priv nm r a)"

lemma priv_kept_same: "nm_priv nm' = nm_priv nm \<Longrightarrow> priv_kept nm nm'"
  by (simp add: priv_kept_def)

lemma priv_kept_refl [simp]: "priv_kept nm nm"
  by (simp add: priv_kept_def)

lemma priv_kept_put_heap [simp]: "priv_kept nm (put_heap nm i off xs)"
  by (simp add: priv_kept_def put_heap_def)

text \<open>The same for private memory.\<close>

lemma load_bytes_frame:
  "(\<And>k. k < n \<Longrightarrow> load nm' me bases (a + of_nat k) = load nm me bases (a + of_nat k)) \<Longrightarrow>
    load_bytes nm' me bases a n = load_bytes nm me bases a n"
proof (induction n arbitrary: a)
  case (Suc n)
  have "load nm' me bases a = load nm me bases a" using Suc.prems [of 0] by simp
  moreover have "load nm' me bases (a + 1 + of_nat k) = load nm me bases (a + 1 + of_nat k)" if "k < n" for k
    using Suc.prems [of "Suc k"] that by (simp add: add.assoc)
  ultimately show ?case using Suc.IH [of "a + 1"] by simp
qed simp

lemma priv_area_hd: "priv_area bases a (Suc n) \<Longrightarrow> mapping_of bases a = None"
  unfolding priv_area_def by (drule spec [of _ 0]) simp

lemma priv_area_tail: "priv_area bases a (Suc n) \<Longrightarrow> priv_area bases (a + 1) n"
  unfolding priv_area_def
proof (intro allI impI)
  fix k assume "\<forall>k < Suc n. mapping_of bases (a + of_nat k) = None" and "k < n"
  then show "mapping_of bases (a + 1 + of_nat k) = None"
    by (auto simp: add.assoc dest: spec [of _ "Suc k"])
qed

lemma store_bytes_priv:
  assumes "priv_area bases a (length xs)" and "\<forall>k < length xs. nm_priv nm me (a + of_nat k) \<noteq> None"
    and "length xs < 2 ^ 63"
  shows "\<exists>nm'. store_bytes nm me bases a xs = Some nm' \<and> load_bytes nm' me bases a (length xs) = Some xs \<and>
    nm_heap nm' = nm_heap nm \<and> (\<forall>r. r \<noteq> me \<longrightarrow> nm_priv nm' r = nm_priv nm r) \<and>
    (\<forall>p. (\<forall>k < length xs. p \<noteq> a + of_nat k) \<longrightarrow> nm_priv nm' me p = nm_priv nm me p)"
  using assms
proof (induction xs arbitrary: a nm)
  case (Cons x xs)
  have a: "mapping_of bases a = None" "nm_priv nm me a \<noteq> None"
    using priv_area_hd [of bases a "length xs"] Cons.prems(1) Cons.prems(2) [rule_format, of 0] by simp_all
  let ?nm = "nm\<lparr>nm_priv := (nm_priv nm)(me := (nm_priv nm me)(a \<mapsto> x))\<rparr>"
  have s: "store nm me bases a x = Some ?nm" using a by (simp add: store_def)
  have "\<forall>k < length xs. nm_priv ?nm me (a + 1 + of_nat k) \<noteq> None"
  proof (intro allI impI)
    fix k assume "k < length xs"
    then show "nm_priv ?nm me (a + 1 + of_nat k) \<noteq> None"
      using Cons.prems(2) [rule_format, of "Suc k"] by (simp add: add.assoc)
  qed
  moreover have "length xs < 2 ^ 63" using Cons.prems(3) by simp
  moreover have "priv_area bases (a + 1) (length xs)" using priv_area_tail Cons.prems(1) by simp
  ultimately obtain nm' where nm': "store_bytes ?nm me bases (a + 1) xs = Some nm'"
    "load_bytes nm' me bases (a + 1) (length xs) = Some xs" "nm_heap nm' = nm_heap ?nm"
    "\<forall>r. r \<noteq> me \<longrightarrow> nm_priv nm' r = nm_priv ?nm r"
    "\<forall>p. (\<forall>k < length xs. p \<noteq> a + 1 + of_nat k) \<longrightarrow> nm_priv nm' me p = nm_priv ?nm me p"
    using Cons.IH [of "a + 1" ?nm] by blast
  have out: "a \<noteq> a + 1 + of_nat k" if "k < length xs" for k
  proof
    assume "a = a + 1 + of_nat k"
    then have "(of_nat (Suc k) :: ptr) = 0" by (simp add: add.assoc)
    moreover have "unat (of_nat (Suc k) :: ptr) = Suc k"
      using that Cons.prems(3) by (intro unat_of_nat_exact) simp
    ultimately show False by simp
  qed
  then have "nm_priv nm' me a = Some x" using nm'(5) by simp
  then have "load nm' me bases a = Some x" using a(1) by (simp add: load_def)
  moreover have "nm_priv nm' me p = nm_priv nm me p" if "\<forall>k < length (x # xs). p \<noteq> a + of_nat k" for p
  proof -
    have "p \<noteq> a" using that [rule_format, of 0] by simp
    moreover have "p \<noteq> a + 1 + of_nat k" if "k < length xs" for k
      using \<open>\<forall>k < length (x # xs). p \<noteq> a + of_nat k\<close> [rule_format, of "Suc k"] that by (simp add: add.assoc)
    ultimately show ?thesis using nm'(5) by simp
  qed
  ultimately show ?case using s nm'(1-4) by simp
qed simp

text \<open>Private and mapped areas have no address in common, so copying between them is defined.\<close>

lemma no_overlap:
  assumes ok: "maps_ok bases" "i < length bases" "bases ! i = Some b" and off: "off + n \<le> SYMMETRIC_HEAP_SIZE"
    and priv: "priv_area bases p n"
  shows "\<not> unat (b + of_nat off - p) < n" and "\<not> unat (p - (b + of_nat off)) < n"
proof -
  show "\<not> unat (b + of_nat off - p) < n"
  proof
    assume d: "unat (b + of_nat off - p) < n"
    then have "mapping_of bases (p + of_nat (unat (b + of_nat off - p))) = None"
      by (rule priv [unfolded priv_area_def, rule_format])
    moreover have "mapping_of bases (b + of_nat off) = Some i"
      using heap_address(2) [OF ok, of off] off d by simp
    ultimately show False by simp
  qed
  show "\<not> unat (p - (b + of_nat off)) < n"
  proof
    assume d: "unat (p - (b + of_nat off)) < n"
    let ?d = "unat (p - (b + of_nat off))"
    have "p = b + of_nat (off + ?d)" by simp
    moreover have "mapping_of bases (b + of_nat (off + ?d)) = Some i"
      using heap_address(2) [OF ok, of "off + ?d"] off d by simp
    moreover have "mapping_of bases p = None" 
      using priv [unfolded priv_area_def, rule_format, of 0] d by simp
    ultimately show False by simp
  qed
qed

text \<open>A process with only its own mapping, at 4096, and 16 bytes of private memory from 64 on.\<close>

definition demo_nm :: node_mem where
  "demo_nm = \<lparr>nm_heap = (\<lambda>_ _. 0), nm_priv = (\<lambda>_ p. if 64 \<le> p \<and> p < 80 then Some (ucast p) else None)\<rparr>"

lemma demo_maps: "maps_ok [Some 4096]"
  by (simp add: maps_ok_def SYMMETRIC_HEAP_SIZE_def)

lemma demo_priv: "priv_area [Some 4096] 64 4"
  unfolding priv_area_def
proof (intro allI impI)
  fix k :: nat assume "k < 4"
  then have "k = 0 \<or> k = 1 \<or> k = 2 \<or> k = 3" by arith
  then show "mapping_of [Some 4096] (64 + of_nat k) = None"
    by (elim disjE) (simp_all add: mapping_of_def SYMMETRIC_HEAP_SIZE_def)
qed

end
