(* ===== verification/C_Memory.thy ===== *)
theory C_Memory
  imports Prelude
begin

text \<open>
  The C store that \<open>heap.c\<close> and \<open>hashmap.c\<close> work on: the \<open>block_t\<close> and
  \<open>hashmap_node_t\<close> objects obtained from \<open>malloc\<close>, at their addresses. Reading or
  writing through a pointer that is \<open>NULL\<close>, was never allocated or has been freed is
  undefined in C and \<open>None\<close> here.

  The C allocator is an input of the model: \<open>answers\<close> lists the answers \<open>malloc\<close> is going
  to give, each with the bytes that happen to lie at the returned address, because
  \<open>malloc\<close> does not clear memory. An answer that would break the contract of \<open>malloc\<close>
  (an address in use) and the end of the list both stand for the answer \<open>NULL\<close>, so every
  list is an allocator and freed addresses may be handed out again.
\<close>

section \<open>Objects\<close>

text \<open>\<open>struct block_t\<close> of \<open>memory/heap.h\<close>.\<close>

record block_t =
  b_ptr :: ptr
  b_size :: size_t
  b_next :: ptr

text \<open>\<open>struct hashmap_node_t\<close> of \<open>memory/hashmap.h\<close>.\<close>

record hashmap_node_t =
  n_value :: ptr
  n_next :: ptr

record cmem =
  blocks :: "ptr \<Rightarrow> block_t option"
  nodes :: "ptr \<Rightarrow> hashmap_node_t option"
  answers :: "(ptr \<times> block_t) list"

definition blk :: "cmem \<Rightarrow> ptr \<Rightarrow> block_t option" where
  "blk st p = (if p = NULL then None else blocks st p)"

definition node_at :: "cmem \<Rightarrow> ptr \<Rightarrow> hashmap_node_t option" where
  "node_at st p = (if p = NULL then None else nodes st p)"

definition put_block :: "cmem \<Rightarrow> ptr \<Rightarrow> block_t \<Rightarrow> cmem option" where
  "put_block st p b =
     (if blk st p = None then None else Some (st\<lparr>blocks := (blocks st)(p \<mapsto> b)\<rparr>))"

definition put_node :: "cmem \<Rightarrow> ptr \<Rightarrow> hashmap_node_t \<Rightarrow> cmem option" where
  "put_node st p n =
     (if node_at st p = None then None else Some (st\<lparr>nodes := (nodes st)(p \<mapsto> n)\<rparr>))"

text \<open>The next pointers, for \<open>linked\<close>.\<close>

definition bnext :: "cmem \<Rightarrow> ptr \<Rightarrow> ptr option" where
  "bnext st p = map_option b_next (blocks st p)"

definition nnext :: "cmem \<Rightarrow> ptr \<Rightarrow> ptr option" where
  "nnext st p = map_option n_next (nodes st p)"

section \<open>malloc and free\<close>

definition fresh :: "cmem \<Rightarrow> ptr \<Rightarrow> bool" where
  "fresh st p \<longleftrightarrow> user_ptr p \<and> blocks st p = None \<and> nodes st p = None"

text \<open>\<open>malloc(sizeof(struct block_t))\<close>: the fields of the new block are not initialised.\<close>

definition malloc_block :: "cmem \<Rightarrow> ptr \<times> cmem" where
  "malloc_block st =
     (case answers st of
        [] \<Rightarrow> (NULL, st)
      | (p, junk) # rest \<Rightarrow>
          if fresh st p
          then (p, st\<lparr>blocks := (blocks st)(p \<mapsto> junk), answers := rest\<rparr>)
          else (NULL, st\<lparr>answers := rest\<rparr>))"

text \<open>
  \<open>malloc(sizeof(struct hashmap_node_t))\<close>: both fields are stored before either is read,
  so their first contents do not matter.
\<close>

definition malloc_node :: "cmem \<Rightarrow> ptr \<times> cmem" where
  "malloc_node st =
     (case answers st of
        [] \<Rightarrow> (NULL, st)
      | (p, junk) # rest \<Rightarrow>
          if fresh st p
          then (p, st\<lparr>nodes := (nodes st)(p \<mapsto> \<lparr>n_value = NULL, n_next = NULL\<rparr>),
                     answers := rest\<rparr>)
          else (NULL, st\<lparr>answers := rest\<rparr>))"

definition free_block :: "cmem \<Rightarrow> ptr \<Rightarrow> cmem" where
  "free_block st p = st\<lparr>blocks := (blocks st)(p := None)\<rparr>"

definition free_node :: "cmem \<Rightarrow> ptr \<Rightarrow> cmem" where
  "free_node st p = st\<lparr>nodes := (nodes st)(p := None)\<rparr>"

text \<open>The next \<open>k\<close> requests are served: the answers are different addresses, none in use.\<close>

definition room :: "cmem \<Rightarrow> nat \<Rightarrow> bool" where
  "room st k \<longleftrightarrow>
     k \<le> length (answers st) \<and> distinct (map fst (take k (answers st))) \<and>
     list_all (\<lambda>x. fresh st (fst x)) (take k (answers st))"

section \<open>Reads after writes\<close>

lemma blk_NULL [store_simps]: "blk st NULL = None"
  by (simp add: blk_def)

lemma node_at_NULL [store_simps]: "node_at st NULL = None"
  by (simp add: node_at_def)

lemma blk_Some: "blk st p = Some b \<longleftrightarrow> p \<noteq> NULL \<and> blocks st p = Some b"
  by (simp add: blk_def)

lemma node_at_Some: "node_at st p = Some n \<longleftrightarrow> p \<noteq> NULL \<and> nodes st p = Some n"
  by (simp add: node_at_def)

lemma blk_cong: "blocks st = blocks st' \<Longrightarrow> blk st p = blk st' p"
  by (simp add: blk_def)

lemma bnext_cong: "blocks st = blocks st' \<Longrightarrow> bnext st = bnext st'"
  by (simp add: bnext_def fun_eq_iff)

lemma nnext_cong: "nodes st = nodes st' \<Longrightarrow> nnext st = nnext st'"
  by (simp add: nnext_def fun_eq_iff)

lemma bnext_Some: "bnext st p = Some q \<longleftrightarrow> (\<exists>b. blocks st p = Some b \<and> q = b_next b)"
  by (auto simp: bnext_def)

lemma nnext_Some: "nnext st p = Some q \<longleftrightarrow> (\<exists>n. nodes st p = Some n \<and> q = n_next n)"
  by (auto simp: nnext_def)

lemma bnext_update [store_simps]:
  "bnext (st\<lparr>blocks := (blocks st)(p \<mapsto> b)\<rparr>) = (bnext st)(p \<mapsto> b_next b)"
  by (simp add: bnext_def fun_eq_iff)

lemma nnext_update [store_simps]:
  "nnext (st\<lparr>nodes := (nodes st)(p \<mapsto> n)\<rparr>) = (nnext st)(p \<mapsto> n_next n)"
  by (simp add: nnext_def fun_eq_iff)

lemma free_block_simps [store_simps]:
  "blocks (free_block st p) = (blocks st)(p := None)"
  "nodes (free_block st p) = nodes st"
  "answers (free_block st p) = answers st"
  by (simp_all add: free_block_def)

lemma free_node_simps [store_simps]:
  "nodes (free_node st p) = (nodes st)(p := None)"
  "blocks (free_node st p) = blocks st"
  "answers (free_node st p) = answers st"
  by (simp_all add: free_node_def)

lemma room_mono:
  assumes r: "room st k" and j: "j \<le> k"
  shows "room st j"
proof -
  obtain rest where "take k (answers st) = take j (answers st) @ rest"
    using j append_take_drop_id [of j "take k (answers st)"] by (metis min.absorb1 take_take)
  with r j show ?thesis by (simp add: room_def)
qed

lemma room_SucD:
  assumes "room st (Suc k)"
  obtains p junk rest where "answers st = (p, junk) # rest" "fresh st p"
    "k \<le> length rest" "distinct (map fst (take k rest))" "p \<notin> fst ` set (take k rest)"
    "list_all (\<lambda>x. fresh st (fst x)) (take k rest)"
proof (cases "answers st")
  case Nil
  with assms show thesis by (simp add: room_def)
next
  case (Cons x rest)
  with assms that [of "fst x" "snd x" rest] show thesis by (auto simp: room_def)
qed

lemma malloc_block_room:
  assumes "room st (Suc k)"
  obtains p junk st' where "malloc_block st = (p, st')" "fresh st p" "room st' k"
    "blocks st' = (blocks st)(p \<mapsto> junk)" "nodes st' = nodes st"
    "answers st = (p, junk) # answers st'"
proof -
  obtain p junk rest where s: "answers st = (p, junk) # rest" "fresh st p"
    "k \<le> length rest" "distinct (map fst (take k rest))" "p \<notin> fst ` set (take k rest)"
    "list_all (\<lambda>x. fresh st (fst x)) (take k rest)"
    using assms by (rule room_SucD)
  let ?st = "st\<lparr>blocks := (blocks st)(p \<mapsto> junk), answers := rest\<rparr>"
  have "room ?st k" using s by (auto simp: room_def list_all_iff fresh_def)
  with s show thesis by (intro that [of p ?st junk]) (auto simp: malloc_block_def)
qed

lemma malloc_node_room:
  assumes "room st (Suc k)"
  obtains p st' where "malloc_node st = (p, st')" "fresh st p" "room st' k"
    "nodes st' = (nodes st)(p \<mapsto> \<lparr>n_value = NULL, n_next = NULL\<rparr>)" "blocks st' = blocks st"
    "answers st' = tl (answers st)"
proof -
  obtain p junk rest where s: "answers st = (p, junk) # rest" "fresh st p"
    "k \<le> length rest" "distinct (map fst (take k rest))" "p \<notin> fst ` set (take k rest)"
    "list_all (\<lambda>x. fresh st (fst x)) (take k rest)"
    using assms by (rule room_SucD)
  let ?st = "st\<lparr>nodes := (nodes st)(p \<mapsto> \<lparr>n_value = NULL, n_next = NULL\<rparr>), answers := rest\<rparr>"
  have "room ?st k" using s by (auto simp: room_def list_all_iff fresh_def)
  with s show thesis by (intro that [of p ?st]) (auto simp: malloc_node_def)
qed

text \<open>A store in which the same addresses are in use has the same room.\<close>

lemma room_cong:
  assumes "\<And>p. (blocks st' p = None) = (blocks st p = None)"
    and "\<And>p. (nodes st' p = None) = (nodes st p = None)" and "answers st' = answers st"
  shows "room st' k = room st k"
  using assms by (simp add: room_def fresh_def)

section \<open>A small store\<close>

text \<open>
  An empty store whose \<open>malloc\<close> answers with the addresses 64, 128, up to 768, and clear
  bytes: the input on which the properties are evaluated.
\<close>

definition demo_mem :: cmem where
  "demo_mem = \<lparr>blocks = Map.empty, nodes = Map.empty,
     answers = map (\<lambda>p. (p, \<lparr>b_ptr = NULL, b_size = 0, b_next = NULL\<rparr>))
       [64, 128, 192, 256, 320, 384, 448, 512, 576, 640, 704, 768]\<rparr>"

lemma answers_demo: "answers demo_mem = (64, \<lparr>b_ptr = NULL, b_size = 0, b_next = NULL\<rparr>) #
    (128, \<lparr>b_ptr = NULL, b_size = 0, b_next = NULL\<rparr>) #
    (192, \<lparr>b_ptr = NULL, b_size = 0, b_next = NULL\<rparr>) # drop 3 (answers demo_mem)"
  by (simp add: demo_mem_def)

lemma room_demo: "k \<le> 12 \<Longrightarrow> room demo_mem k"
proof -
  have "room demo_mem 12" by (simp add: room_def fresh_def demo_mem_def user_ptr_def)
  then show "k \<le> 12 \<Longrightarrow> room demo_mem k" by (rule room_mono)
qed

end
