(* ===== verification/Hashmap.thy ===== *)
theory Hashmap
  imports C_Memory
begin

text \<open>
  \<open>memory/hashmap.c\<close>: a hash table with separate chaining that maps the address of a
  heap block to the \<open>block_t\<close> before it. A chain node stores only that predecessor; the
  key is read back through it, as \<open>node->value->next->ptr\<close> in \<open>hashmap_get\<close> and
  \<open>hashmap_set\<close> and as \<open>node->value->ptr\<close> in \<open>hashmap_remove\<close>.

  First the operations on the C store, loop by loop; then \<open>hm_rep\<close>, which reads a table
  as a list of values per bucket, and for each operation the lemma that gives its effect
  on these lists. \<open>hashmap_t\<close> itself is passed by value: every table has one owner.
\<close>

section \<open>Definitions\<close>

text \<open>\<open>struct hashmap_t\<close>.\<close>

record hashmap_t =
  n_buckets :: c_int
  buckets :: "ptr list"

text \<open>\<open>HASH_FUNC(a,b)\<close> is \<open>(int)((long)a % b)\<close>, with C's truncating remainder.\<close>

definition HASH_FUNC :: "ptr \<Rightarrow> c_int \<Rightarrow> int" where
  "HASH_FUNC a b = sint a smod sint b"

text \<open>The array element \<open>buckets[HASH_FUNC(key, n_buckets)]\<close>, if there is one.\<close>

definition bucket_index :: "hashmap_t \<Rightarrow> ptr \<Rightarrow> nat option" where
  "bucket_index m key =
     (if sint (n_buckets m) = 0 then None
      else let i = HASH_FUNC key (n_buckets m) in
        if 0 \<le> i \<and> i < int (length (buckets m)) then Some (nat i) else None)"

definition hashmap_init :: "c_int \<Rightarrow> hashmap_t" where
  "hashmap_init n = \<lparr>n_buckets = n, buckets = replicate (nat (sint n)) NULL\<rparr>"

text \<open>The \<open>for\<close> loop of \<open>hashmap_get\<close>, started at the node \<open>node\<close>.\<close>

partial_function (option) hashmap_get_loop :: "cmem \<Rightarrow> ptr \<Rightarrow> ptr \<Rightarrow> ptr option" where
  "hashmap_get_loop st key node =
     (if node = NULL then Some NULL
      else do {
        n \<leftarrow> node_at st node;
        v \<leftarrow> blk st (n_value n);
        nx \<leftarrow> blk st (b_next v);
        if key = b_ptr nx then Some (n_value n)
        else hashmap_get_loop st key (n_next n)
      })"

definition hashmap_get :: "hashmap_t \<Rightarrow> cmem \<Rightarrow> ptr \<Rightarrow> ptr option" where
  "hashmap_get m st key = do {
     i \<leftarrow> bucket_index m key;
     hashmap_get_loop st key (buckets m ! i)
   }"

text \<open>
  The \<open>for\<close> loop of \<open>hashmap_set\<close>: the result tells whether a node was found and
  updated.
\<close>

partial_function (option) hashmap_set_loop ::
  "cmem \<Rightarrow> ptr \<Rightarrow> ptr \<Rightarrow> ptr \<Rightarrow> (bool \<times> cmem) option" where
  "hashmap_set_loop st key value node =
     (if node = NULL then Some (False, st)
      else do {
        n \<leftarrow> node_at st node;
        v \<leftarrow> blk st (n_value n);
        nx \<leftarrow> blk st (b_next v);
        if key = b_ptr nx then do {
          st' \<leftarrow> put_node st node (n\<lparr>n_value := value\<rparr>);
          Some (True, st')
        }
        else hashmap_set_loop st key value (n_next n)
      })"

definition hashmap_set :: "hashmap_t \<Rightarrow> cmem \<Rightarrow> ptr \<Rightarrow> ptr \<Rightarrow> (hashmap_t \<times> cmem) option" where
  "hashmap_set m st key value = do {
     i \<leftarrow> bucket_index m key;
     (found, st1) \<leftarrow> hashmap_set_loop st key value (buckets m ! i);
     if found then Some (m, st1)
     else do {
       let (node, st2) = malloc_node st1;
       st3 \<leftarrow> put_node st2 node \<lparr>n_value = value, n_next = buckets m ! i\<rparr>;
       Some (m\<lparr>buckets := (buckets m)[i := node]\<rparr>, st3)
     }
   }"

text \<open>
  \<open>hashmap_remove\<close> walks with a pointer to a pointer: the address of the bucket or of the
  \<open>next\<close> field of the node before.
\<close>

datatype slot = Bucket nat | NextOf ptr

fun read_slot :: "hashmap_t \<Rightarrow> cmem \<Rightarrow> slot \<Rightarrow> ptr option" where
  "read_slot m st (Bucket i) = (if i < length (buckets m) then Some (buckets m ! i) else None)"
| "read_slot m st (NextOf p) = map_option n_next (node_at st p)"

fun write_slot :: "hashmap_t \<Rightarrow> cmem \<Rightarrow> slot \<Rightarrow> ptr \<Rightarrow> (hashmap_t \<times> cmem) option" where
  "write_slot m st (Bucket i) q =
     (if i < length (buckets m) then Some (m\<lparr>buckets := (buckets m)[i := q]\<rparr>, st) else None)"
| "write_slot m st (NextOf p) q = do {
     n \<leftarrow> node_at st p;
     st' \<leftarrow> put_node st p (n\<lparr>n_next := q\<rparr>);
     Some (m, st')
   }"

partial_function (option) hashmap_remove_loop ::
  "hashmap_t \<Rightarrow> cmem \<Rightarrow> ptr \<Rightarrow> slot \<Rightarrow> (ptr \<times> hashmap_t \<times> cmem) option" where
  "hashmap_remove_loop m st key s = do {
     p \<leftarrow> read_slot m st s;
     if p = NULL then Some (NULL, m, st)
     else do {
       n \<leftarrow> node_at st p;
       v \<leftarrow> blk st (n_value n);
       if key = b_ptr v then do {
         (m', st') \<leftarrow> write_slot m st s (n_next n);
         Some (n_value n, m', free_node st' p)
       }
       else hashmap_remove_loop m st key (NextOf p)
     }
   }"

definition hashmap_remove :: "hashmap_t \<Rightarrow> cmem \<Rightarrow> ptr \<Rightarrow> (ptr \<times> hashmap_t \<times> cmem) option" where
  "hashmap_remove m st key = do {
     i \<leftarrow> bucket_index m key;
     if buckets m ! i = NULL then Some (NULL, m, st)
     else hashmap_remove_loop m st key (Bucket i)
   }"

text \<open>\<open>hashmap_free\<close> frees every chain; the table itself is a value of the model.\<close>

partial_function (option) hashmap_free_chain :: "cmem \<Rightarrow> ptr \<Rightarrow> cmem option" where
  "hashmap_free_chain st node =
     (if node = NULL then Some st
      else do {
        n \<leftarrow> node_at st node;
        hashmap_free_chain (free_node st node) (n_next n)
      })"

fun hashmap_free_buckets :: "cmem \<Rightarrow> ptr list \<Rightarrow> cmem option" where
  "hashmap_free_buckets st [] = Some st"
| "hashmap_free_buckets st (b # bs) = do {
     st' \<leftarrow> hashmap_free_chain st b;
     hashmap_free_buckets st' bs
   }"

definition hashmap_free :: "hashmap_t \<Rightarrow> cmem \<Rightarrow> cmem option" where
  "hashmap_free m st = hashmap_free_buckets st (buckets m)"

declare hashmap_get_loop.simps [code] hashmap_set_loop.simps [code]
  hashmap_remove_loop.simps [code] hashmap_free_chain.simps [code]

section \<open>The table as lists of values\<close>

text \<open>The key of a value in \<open>hashmap_get\<close> and \<open>hashmap_set\<close>: \<open>value->next->ptr\<close>.\<close>

definition key_of :: "cmem \<Rightarrow> ptr \<Rightarrow> ptr option" where
  "key_of st v = do { b \<leftarrow> blk st v; nx \<leftarrow> blk st (b_next b); Some (b_ptr nx) }"

lemma key_of_cong:
  assumes "blocks st' = blocks st"
  shows "key_of st' = key_of st"
proof -
  from assms have "blk st' = blk st" by (intro ext) (simp add: blk_def)
  then show ?thesis unfolding key_of_def by (simp only:)
qed

definition val :: "cmem \<Rightarrow> ptr \<Rightarrow> ptr" where
  "val st c = (case nodes st c of None \<Rightarrow> NULL | Some n \<Rightarrow> n_value n)"

definition hash_slot :: "hashmap_t \<Rightarrow> ptr \<Rightarrow> nat" where
  "hash_slot m key = nat (HASH_FUNC key (n_buckets m))"

definition hm_chains :: "hashmap_t \<Rightarrow> cmem \<Rightarrow> ptr list list \<Rightarrow> bool" where
  "hm_chains m st css \<longleftrightarrow>
     0 < sint (n_buckets m) \<and> int (length (buckets m)) = sint (n_buckets m) \<and>
     list_all2 (linked (nnext st)) (buckets m) css \<and> distinct (concat css)"

definition hm_rep :: "hashmap_t \<Rightarrow> cmem \<Rightarrow> ptr list list \<Rightarrow> bool" where
  "hm_rep m st vss \<longleftrightarrow> (\<exists>css. hm_chains m st css \<and> vss = map (map (val st)) css)"

primrec replace_first :: "('a \<Rightarrow> bool) \<Rightarrow> 'a \<Rightarrow> 'a list \<Rightarrow> 'a list" where
  "replace_first P v [] = []"
| "replace_first P v (x # xs) = (if P x then v # xs else x # replace_first P v xs)"

primrec remove_first :: "('a \<Rightarrow> bool) \<Rightarrow> 'a list \<Rightarrow> 'a list" where
  "remove_first P [] = []"
| "remove_first P (x # xs) = (if P x then xs else x # remove_first P xs)"

text \<open>What \<open>hashmap_set\<close> does to the values of the key's bucket.\<close>

definition bucket_put :: "('a \<Rightarrow> bool) \<Rightarrow> 'a \<Rightarrow> 'a list \<Rightarrow> 'a list" where
  "bucket_put P v vs = (if find P vs = None then v # vs else replace_first P v vs)"

definition first_or_NULL :: "ptr option \<Rightarrow> ptr" where
  "first_or_NULL x = (case x of None \<Rightarrow> NULL | Some v \<Rightarrow> v)"

lemma set_replace_first: "set (replace_first P v xs) \<subseteq> insert v (set xs)"
  by (induction xs) auto

lemma set_bucket_put: "set (bucket_put P v xs) \<subseteq> insert v (set xs)"
  using set_replace_first [of P v xs] by (auto simp: bucket_put_def)

lemma set_remove_first: "set (remove_first P xs) \<subseteq> set xs"
  by (induction xs) auto

lemma remove_first_absent: "find P xs = None \<Longrightarrow> remove_first P xs = xs"
  by (induction xs) (auto split: if_splits)

lemma find_bucket_put: "P v \<Longrightarrow> find P (bucket_put P v xs) = Some v"
  by (induction xs) (auto simp: bucket_put_def)

lemma find_replace_first_other:
  "(\<And>x. P x \<Longrightarrow> \<not> Q x) \<Longrightarrow> \<not> Q v \<Longrightarrow> find Q (replace_first P v xs) = find Q xs"
  by (induction xs) auto

lemma find_bucket_put_other:
  "(\<And>x. P x \<Longrightarrow> \<not> Q x) \<Longrightarrow> \<not> Q v \<Longrightarrow> find Q (bucket_put P v xs) = find Q xs"
  by (auto simp: bucket_put_def find_replace_first_other)

lemma map_fun_upd_replace_first:
  "distinct cs \<Longrightarrow> find (\<lambda>c. P (f c)) cs = Some c \<Longrightarrow>
   map (f(c := v)) cs = replace_first P v (map f cs)"
proof (induction cs)
  case (Cons x xs)
  show ?case
  proof (cases "P (f x)")
    case True
    with Cons.prems show ?thesis by auto
  next
    case False
    with Cons.prems have "find (\<lambda>c. P (f c)) xs = Some c" by simp
    then have "c \<in> set xs" by (auto simp: find_Some_iff)
    with Cons False show ?thesis by auto
  qed
qed simp

lemma map_remove1_remove_first:
  "distinct cs \<Longrightarrow> find (\<lambda>c. P (f c)) cs = Some c \<Longrightarrow>
   map f (remove1 c cs) = remove_first P (map f cs)"
proof (induction cs)
  case (Cons x xs)
  show ?case
  proof (cases "P (f x)")
    case True
    with Cons.prems show ?thesis by auto
  next
    case False
    with Cons.prems have "find (\<lambda>c. P (f c)) xs = Some c" by simp
    then have "c \<in> set xs" by (auto simp: find_Some_iff)
    with Cons False show ?thesis by auto
  qed
qed simp

section \<open>The hash function\<close>

text \<open>A user-space address hashes into the table: the index is in bounds.\<close>

lemma HASH_FUNC_bounds:
  assumes "user_ptr key" and "0 < sint n"
  shows "0 \<le> HASH_FUNC key n" and "HASH_FUNC key n < sint n"
  using assms by (auto simp: HASH_FUNC_def user_ptr_def smod_int_alt_def)

lemma bucket_index_in_table:
  assumes "hm_chains m st css" and "user_ptr key"
  shows "bucket_index m key = Some (hash_slot m key)" and "hash_slot m key < length (buckets m)"
    and "length css = length (buckets m)"
proof -
  have n: "0 < sint (n_buckets m)" "int (length (buckets m)) = sint (n_buckets m)"
    using assms(1) by (auto simp: hm_chains_def)
  with HASH_FUNC_bounds [OF assms(2) n(1)]
  show "bucket_index m key = Some (hash_slot m key)" "hash_slot m key < length (buckets m)"
    by (auto simp: bucket_index_def hash_slot_def Let_def)
  show "length css = length (buckets m)"
    using assms(1) by (auto simp: hm_chains_def dest: list_all2_lengthD)
qed

lemma hm_chains_bucket:
  assumes "hm_chains m st css" and "i < length (buckets m)"
  shows "linked (nnext st) (buckets m ! i) (css ! i)"
  using assms by (auto simp: hm_chains_def list_all2_conv_all_nth)

section \<open>Lookup\<close>

lemma key_of_Some:
  "key_of st v \<noteq> None \<Longrightarrow>
   \<exists>b nx. blk st v = Some b \<and> blk st (b_next b) = Some nx \<and> key_of st v = Some (b_ptr nx)"
  by (auto simp: key_of_def split: Option.bind_splits)

lemma linked_node:
  "linked (nnext st) p (c # cs) \<Longrightarrow>
   \<exists>n. p = c \<and> c \<noteq> NULL \<and> node_at st c = Some n \<and> nodes st c = Some n \<and>
       val st c = n_value n \<and> linked (nnext st) (n_next n) cs"
  by (auto simp: nnext_Some node_at_def val_def split: option.splits)

lemma hashmap_get_loop_find:
  assumes "linked (nnext st) p cs" and "\<forall>c \<in> set cs. key_of st (val st c) \<noteq> None"
  shows "hashmap_get_loop st key p =
    Some (first_or_NULL (find (\<lambda>v. key_of st v = Some key) (map (val st) cs)))"
  using assms
proof (induction cs arbitrary: p)
  case Nil
  then show ?case by (simp add: hashmap_get_loop.simps first_or_NULL_def)
next
  case (Cons c cs)
  from linked_node [OF Cons.prems(1)] obtain n where n: "p = c" "c \<noteq> NULL"
    "node_at st c = Some n" "val st c = n_value n" "linked (nnext st) (n_next n) cs" by blast
  from key_of_Some [of st "val st c"] Cons.prems(2) obtain b nx where
    "blk st (val st c) = Some b" "blk st (b_next b) = Some nx" "key_of st (val st c) = Some (b_ptr nx)"
    by auto
  with n Cons.IH [OF n(5)] Cons.prems(2) show ?case
    by (subst hashmap_get_loop.simps) (simp add: first_or_NULL_def)
qed

lemma hashmap_get_rep:
  assumes rep: "hm_rep m st vss" and key: "user_ptr key"
    and vals: "\<forall>v \<in> set (vss ! hash_slot m key). key_of st v \<noteq> None"
  shows "hashmap_get m st key =
    Some (first_or_NULL (find (\<lambda>v. key_of st v = Some key) (vss ! hash_slot m key)))"
proof -
  from rep obtain css where css: "hm_chains m st css" "vss = map (map (val st)) css"
    by (auto simp: hm_rep_def)
  note b = bucket_index_in_table [OF css(1) key]
  have "vss ! hash_slot m key = map (val st) (css ! hash_slot m key)"
    using b css(2) by simp
  with hashmap_get_loop_find [OF hm_chains_bucket [OF css(1) b(2)], of key] vals b(1)
  show ?thesis by (simp add: hashmap_get_def)
qed

section \<open>Insertion\<close>

lemma hashmap_set_loop_find:
  assumes "linked (nnext st) p cs" and "\<forall>c \<in> set cs. key_of st (val st c) \<noteq> None"
  shows "hashmap_set_loop st key v p =
    (case find (\<lambda>c. key_of st (val st c) = Some key) cs of
       None \<Rightarrow> Some (False, st)
     | Some c \<Rightarrow> Some (True, st\<lparr>nodes := (nodes st)(c \<mapsto> (the (nodes st c))\<lparr>n_value := v\<rparr>)\<rparr>))"
  using assms
proof (induction cs arbitrary: p)
  case Nil
  then show ?case by (simp add: hashmap_set_loop.simps)
next
  case (Cons c cs)
  from linked_node [OF Cons.prems(1)] obtain n where n: "p = c" "c \<noteq> NULL" "nodes st c = Some n"
    "node_at st c = Some n" "val st c = n_value n" "linked (nnext st) (n_next n) cs" by blast
  from key_of_Some [of st "val st c"] Cons.prems(2) obtain b nx where
    "blk st (val st c) = Some b" "blk st (b_next b) = Some nx" "key_of st (val st c) = Some (b_ptr nx)"
    by auto
  with n Cons.IH [OF n(6)] Cons.prems(2) show ?case
    by (subst hashmap_set_loop.simps) (simp add: put_node_def)
qed

text \<open>Storing a value in a node that stays where it is keeps every chain.\<close>

lemma nnext_set_value:
  "nodes st c = Some n \<Longrightarrow>
   nnext (st\<lparr>nodes := (nodes st)(c \<mapsto> n\<lparr>n_value := v\<rparr>)\<rparr>) = nnext st"
  by (auto simp: nnext_def fun_eq_iff)

lemma val_set_value:
  "val (st\<lparr>nodes := (nodes st)(c \<mapsto> n\<lparr>n_value := v\<rparr>)\<rparr>) = (val st)(c := v)"
  by (auto simp: val_def fun_eq_iff)

lemma distinct_concat_bucket:
  assumes "distinct (concat css)" and "i < length css"
  shows "distinct (css ! i)"
    and "\<And>j c. j < length css \<Longrightarrow> j \<noteq> i \<Longrightarrow> c \<in> set (css ! i) \<Longrightarrow> c \<notin> set (css ! j)"
proof -
  have s: "concat css = concat (take i css) @ css ! i @ concat (drop (Suc i) css)"
    using assms(2) by (subst id_take_nth_drop [of i css]) auto
  with assms(1) show "distinct (css ! i)" by simp
  fix j c
  assume j: "j < length css" "j \<noteq> i" and c: "c \<in> set (css ! i)"
  have "css ! j \<in> set (take i css) \<or> css ! j \<in> set (drop (Suc i) css)"
  proof (cases "j < i")
    case True
    with assms(2) have "take i css ! j = css ! j" "j < length (take i css)" by auto
    then show ?thesis by (metis nth_mem)
  next
    case False
    with j have "drop (Suc i) css ! (j - Suc i) = css ! j" "j - Suc i < length (drop (Suc i) css)"
      by auto
    then show ?thesis by (metis nth_mem)
  qed
  with c assms(1) s show "c \<notin> set (css ! j)" by fastforce
qed

lemma concat_update_eq:
  "i < length css \<Longrightarrow> concat (css[i := cs]) = concat (take i css) @ cs @ concat (drop (Suc i) css)"
  by (simp add: upd_conv_take_nth_drop)

lemma concat_nth_eq:
  "i < length css \<Longrightarrow> concat css = concat (take i css) @ css ! i @ concat (drop (Suc i) css)"
  using concat_update_eq [of i css "css ! i"] by simp

text \<open>Changing one bucket of the value lists.\<close>

lemma map_map_update_bucket:
  assumes "i < length css" and "\<And>j c. j < length css \<Longrightarrow> j \<noteq> i \<Longrightarrow> c \<in> set (css ! j) \<Longrightarrow> f' c = f c"
  shows "map (map f') (css[i := cs]) = (map (map f) css)[i := map f' cs]"
  by (rule nth_equalityI) (use assms in \<open>auto simp: nth_list_update\<close>)

text \<open>An existing node is updated in place.\<close>

lemma hm_rep_update:
  assumes css: "hm_chains m st css" and i: "i < length (buckets m)"
    and c: "find (\<lambda>c. P (val st c)) (css ! i) = Some c"
  shows "hm_rep m (st\<lparr>nodes := (nodes st)(c \<mapsto> (the (nodes st c))\<lparr>n_value := v\<rparr>)\<rparr>)
    ((map (map (val st)) css)[i := replace_first P v (map (val st) (css ! i))])" (is "hm_rep m ?st _")
proof -
  have d: "distinct (concat css)" and l: "length css = length (buckets m)"
    using css by (auto simp: hm_chains_def dest: list_all2_lengthD)
  have ci: "c \<in> set (css ! i)" using c by (auto simp: find_Some_iff)
  with linked_in_dom [OF hm_chains_bucket [OF css i]] have "nodes st c \<noteq> None"
    by (auto simp: nnext_def)
  then obtain n where n: "nodes st c = Some n" by blast
  note nn = nnext_set_value [OF n, of v] and vv = val_set_value [where st = st and c = c and n = n and v = v]
  have "hm_chains m ?st css" using css n nn by (simp add: hm_chains_def)
  moreover have other: "val ?st x = val st x" if "j < length css" "j \<noteq> i" "x \<in> set (css ! j)" for j x
  proof -
    have "x \<noteq> c" using distinct_concat_bucket(2) [OF d _ that(1,2) ci] that(3) i l by auto
    with n vv show ?thesis by simp
  qed
  moreover have "map (map (val ?st)) css = (map (map (val st)) css)[i := map (val ?st) (css ! i)]"
    using map_map_update_bucket [of i css "val ?st" "val st" "css ! i"] other i l by simp
  moreover have "map (val ?st) (css ! i) = replace_first P v (map (val st) (css ! i))"
    using map_fun_upd_replace_first [where f = "val st" and P = P and v = v,
        OF distinct_concat_bucket(1) [OF d, of i] c] i l n vv by simp
  ultimately show ?thesis unfolding hm_rep_def by metis
qed

text \<open>A new node goes to the front of its bucket.\<close>

lemma hm_rep_insert:
  assumes css: "hm_chains m st css" and i: "i < length (buckets m)"
    and nd: "nd \<noteq> NULL" "nodes st nd = None"
    and st': "nodes st' = (nodes st)(nd \<mapsto> \<lparr>n_value = v, n_next = buckets m ! i\<rparr>)"
  shows "hm_rep (m\<lparr>buckets := (buckets m)[i := nd]\<rparr>) st'
    ((map (map (val st)) css)[i := v # map (val st) (css ! i)])"
proof -
  have d: "distinct (concat css)" and l: "length css = length (buckets m)"
    using css by (auto simp: hm_chains_def dest: list_all2_lengthD)
  have ch: "linked (nnext st) (buckets m ! j) (css ! j)" if "j < length css" for j
    using hm_chains_bucket [OF css] that l by simp
  have notin: "nd \<notin> set (css ! j)" if "j < length css" for j
    using linked_in_dom [OF ch [OF that], of nd] nd(2) by (auto simp: nnext_def)
  have nx: "nnext st' = (nnext st)(nd \<mapsto> buckets m ! i)"
    using st' by (auto simp: nnext_def fun_eq_iff)
  have ch': "linked (nnext st') (buckets m ! j) (css ! j)" if "j < length css" for j
    using ch [OF that] notin [OF that] nx by (simp add: linked_frame)
  have vs: "val st' c = (if c = nd then v else val st c)" for c
    using st' by (simp add: val_def)
  let ?css = "css[i := nd # css ! i]"
  have "list_all2 (linked (nnext st')) ((buckets m)[i := nd]) ?css"
    using ch' nx nd(1) i l by (auto simp: list_all2_conv_all_nth nth_list_update)
  moreover have "nd \<notin> set (concat css)" using notin by simp (metis in_set_conv_nth)
  then have "distinct (concat ?css)"
    using d i l by (simp add: concat_update_eq concat_nth_eq [of i css])
  ultimately have "hm_chains (m\<lparr>buckets := (buckets m)[i := nd]\<rparr>) st' ?css"
    using css by (simp add: hm_chains_def)
  moreover have "map (map (val st')) ?css = (map (map (val st)) css)[i := map (val st') (nd # css ! i)]"
    using vs notin i l by (intro map_map_update_bucket) auto
  moreover have "map (val st') (nd # css ! i) = v # map (val st) (css ! i)"
    using vs notin [of i] i l by auto
  ultimately show ?thesis unfolding hm_rep_def by metis
qed

lemma hashmap_set_rep:
  assumes rep: "hm_rep m st vss" and key: "user_ptr key" and room: "room st (Suc k)"
    and vals: "\<forall>v \<in> set (vss ! hash_slot m key). key_of st v \<noteq> None"
  obtains m' st' where "hashmap_set m st key v = Some (m', st')"
    "hm_rep m' st' (vss[hash_slot m key :=
       bucket_put (\<lambda>v. key_of st v = Some key) v (vss ! hash_slot m key)])"
    "n_buckets m' = n_buckets m" "blocks st' = blocks st" "room st' k"
proof -
  let ?i = "hash_slot m key" and ?P = "\<lambda>v. key_of st v = Some key"
  from rep obtain css where css: "hm_chains m st css" "vss = map (map (val st)) css"
    by (auto simp: hm_rep_def)
  note b = bucket_index_in_table [OF css(1) key]
  have vi: "vss ! ?i = map (val st) (css ! ?i)" using b css(2) by simp
  note ch = hm_chains_bucket [OF css(1) b(2)]
  have loop: "hashmap_set_loop st key v (buckets m ! ?i) =
    (case find (\<lambda>c. ?P (val st c)) (css ! ?i) of None \<Rightarrow> Some (False, st)
     | Some c \<Rightarrow> Some (True, st\<lparr>nodes := (nodes st)(c \<mapsto> (the (nodes st c))\<lparr>n_value := v\<rparr>)\<rparr>))"
    using hashmap_set_loop_find [OF ch, of key v] vals vi by simp
  have fv: "find ?P (vss ! ?i) = map_option (val st) (find (\<lambda>c. ?P (val st c)) (css ! ?i))"
    using vi by (simp add: find_map_eq)
  show thesis
  proof (cases "find (\<lambda>c. ?P (val st c)) (css ! ?i)")
    case (Some c)
    let ?st = "st\<lparr>nodes := (nodes st)(c \<mapsto> (the (nodes st c))\<lparr>n_value := v\<rparr>)\<rparr>"
    have "nodes st c \<noteq> None"
      using linked_in_dom [OF ch, of c] Some by (auto simp: find_Some_iff nnext_def)
    then have "room ?st k" using room_mono [OF room, of k] by (subst room_cong) auto
    with that [of m ?st] hm_rep_update [OF css(1) b(2), where P = ?P, OF Some] loop b(1) fv css(2) vi Some
    show thesis by (simp add: hashmap_set_def bucket_put_def)
  next
    case None
    obtain nd st2 where nd: "malloc_node st = (nd, st2)" "fresh st nd" "room st2 k"
      "nodes st2 = (nodes st)(nd \<mapsto> \<lparr>n_value = NULL, n_next = NULL\<rparr>)" "blocks st2 = blocks st"
      using room by (rule malloc_node_room)
    let ?st = "st2\<lparr>nodes := (nodes st2)(nd \<mapsto> \<lparr>n_value = v, n_next = buckets m ! ?i\<rparr>)\<rparr>"
    have f: "nd \<noteq> NULL" "nodes st nd = None" using nd(2) by (auto simp: fresh_def)
    have "put_node st2 nd \<lparr>n_value = v, n_next = buckets m ! ?i\<rparr> = Some ?st"
      using f nd(4) by (simp add: put_node_def node_at_def)
    moreover have "room ?st k" using nd(3,4) by (subst room_cong) auto
    moreover have "nodes ?st = (nodes st)(nd \<mapsto> \<lparr>n_value = v, n_next = buckets m ! ?i\<rparr>)"
      using nd(4) by simp
    from hm_rep_insert [OF css(1) b(2) f this]
    have "hm_rep (m\<lparr>buckets := (buckets m)[?i := nd]\<rparr>) ?st (vss[?i := v # vss ! ?i])"
      using css(2) vi by simp
    ultimately show thesis
      using that [of "m\<lparr>buckets := (buckets m)[?i := nd]\<rparr>" ?st] loop b(1) fv None nd(1,5)
      by (simp add: hashmap_set_def bucket_put_def)
  qed
qed

section \<open>Removal\<close>

text \<open>
  The slot the loop stands at, after the cells \<open>pre\<close> of bucket \<open>i\<close>: the bucket itself, or
  the \<open>next\<close> field of the last cell passed.
\<close>

definition slot_after :: "nat \<Rightarrow> ptr list \<Rightarrow> slot" where
  "slot_after i pre = (if pre = [] then Bucket i else NextOf (last pre))"

lemma lseg_linked_last:
  "lseg nx p (us @ [u]) r \<Longrightarrow> nx u = Some r \<and> u \<noteq> NULL"
  by (induction us arbitrary: p) (auto split: option.splits)

lemma read_slot_after:
  assumes "lseg (nnext st) (buckets m ! i) pre r" and "i < length (buckets m)"
  shows "read_slot m st (slot_after i pre) = Some r"
proof (cases pre rule: rev_cases)
  case Nil
  with assms show ?thesis by (simp add: slot_after_def)
next
  case (snoc us u)
  with lseg_linked_last [of "nnext st" "buckets m ! i" us u r] assms
  show ?thesis by (auto simp: slot_after_def node_at_def nnext_Some)
qed

text \<open>Redirecting the slot past the cell \<open>c\<close> and freeing \<open>c\<close>.\<close>

lemma unlink_slot:
  assumes ch: "linked (nnext st) (buckets m ! i) (pre @ c # cs)" and i: "i < length (buckets m)"
    and n: "nodes st c = Some n"
  obtains m' st' where "write_slot m st (slot_after i pre) (n_next n) = Some (m', st')"
    "linked (nnext (free_node st' c)) (buckets m' ! i) (pre @ cs)"
    "\<And>j. j \<noteq> i \<Longrightarrow> buckets m' ! j = buckets m ! j" "length (buckets m') = length (buckets m)"
    "n_buckets m' = n_buckets m" "blocks st' = blocks st" "answers st' = answers st"
    "\<And>x. val st' x = val st x" "\<And>x. (nodes st' x = None) = (nodes st x = None)"
    "\<And>x. x \<notin> set pre \<Longrightarrow> nodes st' x = nodes st x"
proof (cases pre rule: rev_cases)
  case Nil
  let ?m = "m\<lparr>buckets := (buckets m)[i := n_next n]\<rparr>"
  from ch Nil n have l: "linked (nnext st) (n_next n) cs" "c \<notin> set cs"
    using linked_distinct [OF ch] by (auto simp: nnext_def)
  have "nnext (free_node st c) = (nnext st)(c := None)"
    by (auto simp: nnext_def fun_eq_iff free_node_simps)
  with l Nil i have "linked (nnext (free_node st c)) (buckets ?m ! i) (pre @ cs)"
    by (simp add: linked_frame)
  with that [of ?m st] Nil i show thesis by (simp add: slot_after_def)
next
  case (snoc us u)
  from ch obtain r where "lseg (nnext st) (buckets m ! i) (us @ [u]) r"
    unfolding linked_append snoc by blast
  from lseg_linked_last [OF this] obtain k where k: "u \<noteq> NULL" "nodes st u = Some k"
    by (auto simp: nnext_Some)
  let ?st = "st\<lparr>nodes := (nodes st)(u \<mapsto> k\<lparr>n_next := n_next n\<rparr>)\<rparr>"
  have d: "distinct (us @ u # c # cs)" using linked_distinct [OF ch] snoc by simp
  have "linked (nnext ?st) (buckets m ! i) (us @ u # cs)"
    using linked_unlink [of "nnext st" "buckets m ! i" us u c cs "n_next n"] ch snoc n
    by (simp add: nnext_update nnext_Some)
  moreover have "nnext (free_node ?st c) = (nnext ?st)(c := None)"
    by (auto simp: nnext_def fun_eq_iff free_node_simps)
  ultimately have "linked (nnext (free_node ?st c)) (buckets m ! i) (us @ u # cs)"
    using d linked_frame [of c "us @ u # cs" "nnext ?st" None "buckets m ! i"] by auto
  moreover have "write_slot m st (slot_after i pre) (n_next n) = Some (m, ?st)"
    using snoc k by (simp add: slot_after_def node_at_def put_node_def)
  moreover have "val ?st x = val st x" for x using k by (simp add: val_def)
  ultimately show thesis using that [of m ?st] snoc k by simp
qed

text \<open>The key that \<open>hashmap_remove\<close> compares: \<open>value->ptr\<close>.\<close>

definition start_of :: "cmem \<Rightarrow> ptr \<Rightarrow> ptr option" where
  "start_of st v = map_option b_ptr (blk st v)"

lemma start_of_cong:
  assumes "blocks st' = blocks st"
  shows "start_of st' = start_of st"
proof -
  from assms have "blk st' = blk st" by (intro ext) (simp add: blk_def)
  then show ?thesis by (simp add: start_of_def fun_eq_iff)
qed

lemma hashmap_remove_loop_None:
  assumes "linked (nnext st) (buckets m ! i) (pre @ cs)" and "i < length (buckets m)"
    and "\<forall>c \<in> set cs. start_of st (val st c) \<noteq> None"
    and "find (\<lambda>c. start_of st (val st c) = Some key) cs = None"
  shows "hashmap_remove_loop m st key (slot_after i pre) = Some (NULL, m, st)"
  using assms
proof (induction cs arbitrary: pre)
  case Nil
  then obtain r where "lseg (nnext st) (buckets m ! i) pre r" "r = NULL"
    unfolding linked_append by auto
  with read_slot_after Nil.prems(2) show ?case by (subst hashmap_remove_loop.simps) simp
next
  case (Cons c cs)
  from Cons.prems(1) obtain r where r: "lseg (nnext st) (buckets m ! i) pre r"
    "linked (nnext st) r (c # cs)" by (auto simp: linked_append simp del: linked.simps)
  from linked_node [OF r(2)] obtain n where n: "r = c" "c \<noteq> NULL" "node_at st c = Some n"
    "val st c = n_value n" by blast
  have "slot_after i (pre @ [c]) = NextOf c" by (simp add: slot_after_def)
  with Cons.IH [of "pre @ [c]"] Cons.prems r(1) n read_slot_after [OF r(1) Cons.prems(2)]
  show ?case by (subst hashmap_remove_loop.simps) (auto simp: start_of_def split: if_splits)
qed

lemma hashmap_remove_loop_Some:
  assumes "linked (nnext st) (buckets m ! i) (pre @ cs)" and "i < length (buckets m)"
    and "\<forall>c \<in> set cs. start_of st (val st c) \<noteq> None"
    and "find (\<lambda>c. start_of st (val st c) = Some key) cs = Some c"
  shows "\<exists>us vs n m' st'. cs = us @ c # vs \<and> nodes st c = Some n \<and>
    write_slot m st (slot_after i (pre @ us)) (n_next n) = Some (m', st') \<and>
    hashmap_remove_loop m st key (slot_after i pre) = Some (val st c, m', free_node st' c)"
  using assms
proof (induction cs arbitrary: pre)
  case Nil
  then show ?case by simp
next
  case (Cons x cs)
  from Cons.prems(1) obtain r where r: "lseg (nnext st) (buckets m ! i) pre r"
    "linked (nnext st) r (x # cs)" by (auto simp: linked_append simp del: linked.simps)
  from linked_node [OF r(2)] obtain n where n: "r = x" "x \<noteq> NULL" "node_at st x = Some n"
    "nodes st x = Some n" "val st x = n_value n" by blast
  from Cons.prems(3) obtain b where b: "blk st (n_value n) = Some b"
    using n(5) by (auto simp: start_of_def)
  note rd = read_slot_after [OF r(1) Cons.prems(2)]
  show ?case
  proof (cases "start_of st (val st x) = Some key")
    case True
    with Cons.prems(4) have c: "c = x" by simp
    obtain m' st' where w: "write_slot m st (slot_after i pre) (n_next n) = Some (m', st')"
      using unlink_slot [OF Cons.prems(1,2) n(4)] by metis
    from c n w rd b True show ?thesis
      by (intro exI [of _ "[]"] exI [of _ cs] exI [of _ n] exI [of _ m'] exI [of _ st'])
        (simp add: hashmap_remove_loop.simps [of m st key] start_of_def)
  next
    case False
    with Cons.prems(4) have f: "find (\<lambda>c. start_of st (val st c) = Some key) cs = Some c" by simp
    have s: "slot_after i (pre @ [x]) = NextOf x" by (simp add: slot_after_def)
    obtain us vs n' m' st' where IH: "cs = us @ c # vs" "nodes st c = Some n'"
      "write_slot m st (slot_after i ((pre @ [x]) @ us)) (n_next n') = Some (m', st')"
      "hashmap_remove_loop m st key (slot_after i (pre @ [x])) = Some (val st c, m', free_node st' c)"
      using Cons.IH [of "pre @ [x]"] Cons.prems(1-3) f by auto
    from IH s n rd b False show ?thesis
      by (intro exI [of _ "x # us"] exI [of _ vs] exI [of _ n'] exI [of _ m'] exI [of _ st'])
        (simp add: hashmap_remove_loop.simps [of m st key "slot_after i pre"] start_of_def)
  qed
qed

lemma hm_rep_unlink:
  assumes css: "hm_chains m st css" and i: "i < length (buckets m)"
    and s: "css ! i = us @ c # vs" and f: "find (\<lambda>c. P (val st c)) (css ! i) = Some c"
    and ch: "linked (nnext (free_node st' c)) (buckets m' ! i) (us @ vs)"
    and m': "\<And>j. j \<noteq> i \<Longrightarrow> buckets m' ! j = buckets m ! j" "length (buckets m') = length (buckets m)"
      "n_buckets m' = n_buckets m"
    and st': "\<And>x. val st' x = val st x" "\<And>x. x \<notin> set us \<Longrightarrow> nodes st' x = nodes st x"
  shows "hm_rep m' (free_node st' c)
    ((map (map (val st)) css)[i := remove_first P (map (val st) (css ! i))])" (is "hm_rep m' ?st _")
proof -
  have d: "distinct (concat css)" and l: "length css = length (buckets m)"
    using css by (auto simp: hm_chains_def dest: list_all2_lengthD)
  let ?css = "css[i := us @ vs]"
  have other: "x \<notin> set us" "x \<noteq> c" if "j < length css" "j \<noteq> i" "x \<in> set (css ! j)" for j x
    using distinct_concat_bucket(2) [OF d _ that(1,2), of x] that(3) i l s by auto
  have ch': "linked (nnext ?st) (buckets m' ! j) (?css ! j)" if j: "j < length css" for j
  proof (cases "j = i")
    case True
    with ch j show ?thesis by simp
  next
    case False
    have "linked (nnext ?st) (buckets m ! j) (css ! j) = linked (nnext st) (buckets m ! j) (css ! j)"
      using other [OF j False] st'(2) by (intro linked_cong) (auto simp: nnext_def free_node_simps)
    with hm_chains_bucket [OF css, of j] j l False m'(1) show ?thesis by simp
  qed
  have "distinct (concat ?css)" using d i l s by (auto simp: concat_update_eq concat_nth_eq [of i css])
  with ch' m' css l have "hm_chains m' ?st ?css"
    by (auto simp: hm_chains_def list_all2_conv_all_nth)
  moreover have v: "val ?st x = val st x" if "x \<noteq> c" for x
    using st'(1) [of x] that by (simp add: val_def free_node_simps)
  have "map (map (val ?st)) ?css = (map (map (val st)) css)[i := map (val ?st) (us @ vs)]"
    using v other i l by (intro map_map_update_bucket) auto
  moreover have "map (val ?st) (us @ vs) = remove_first P (map (val st) (css ! i))"
  proof -
    have dc: "distinct (css ! i)" using distinct_concat_bucket(1) [OF d] i l by simp
    then have "map (val ?st) (us @ vs) = map (val st) (remove1 c (css ! i))"
      using s by (simp add: remove1_append) (metis v)
    with map_remove1_remove_first [where f = "val st" and P = P, OF dc f] show ?thesis by simp
  qed
  ultimately show ?thesis unfolding hm_rep_def by metis
qed

lemma hashmap_remove_rep:
  assumes rep: "hm_rep m st vss" and key: "user_ptr key"
    and vals: "\<forall>v \<in> set (vss ! hash_slot m key). start_of st v \<noteq> None"
  obtains m' st' where
    "hashmap_remove m st key =
       Some (first_or_NULL (find (\<lambda>v. start_of st v = Some key) (vss ! hash_slot m key)), m', st')"
    "hm_rep m' st' (vss[hash_slot m key :=
       remove_first (\<lambda>v. start_of st v = Some key) (vss ! hash_slot m key)])"
    "n_buckets m' = n_buckets m" "blocks st' = blocks st" "answers st' = answers st"
proof -
  let ?i = "hash_slot m key" and ?P = "\<lambda>v. start_of st v = Some key"
  from rep obtain css where css: "hm_chains m st css" "vss = map (map (val st)) css"
    by (auto simp: hm_rep_def)
  note b = bucket_index_in_table [OF css(1) key]
  have vi: "vss ! ?i = map (val st) (css ! ?i)" using b css(2) by simp
  note ch = hm_chains_bucket [OF css(1) b(2)]
  have fv: "find ?P (vss ! ?i) = map_option (val st) (find (\<lambda>c. ?P (val st c)) (css ! ?i))"
    using vi by (simp add: find_map_eq)
  have vals': "\<forall>c \<in> set (css ! ?i). start_of st (val st c) \<noteq> None" using vals vi by auto
  have start: "slot_after ?i [] = Bucket ?i" by (simp add: slot_after_def)
  show thesis
  proof (cases "find (\<lambda>c. ?P (val st c)) (css ! ?i)")
    case None
    then have "remove_first ?P (vss ! ?i) = vss ! ?i"
      using fv remove_first_absent [of ?P "vss ! ?i"] by simp
    moreover have "hashmap_remove m st key = Some (NULL, m, st)"
      using hashmap_remove_loop_None [of st m ?i "[]" "css ! ?i" key] ch b vals' None start
      by (simp add: hashmap_remove_def)
    ultimately show thesis using that [of m st] rep fv None by (simp add: first_or_NULL_def)
  next
    case (Some c)
    from hashmap_remove_loop_Some [of st m ?i "[]" "css ! ?i" key c] ch b(2) vals' Some start
    obtain us vs n m0 st0 where s: "css ! ?i = us @ c # vs" "nodes st c = Some n"
      "write_slot m st (slot_after ?i us) (n_next n) = Some (m0, st0)"
      "hashmap_remove_loop m st key (Bucket ?i) = Some (val st c, m0, free_node st0 c)" by auto
    obtain m' st' where u: "write_slot m st (slot_after ?i us) (n_next n) = Some (m', st')"
      "linked (nnext (free_node st' c)) (buckets m' ! ?i) (us @ vs)"
      "\<And>j. j \<noteq> ?i \<Longrightarrow> buckets m' ! j = buckets m ! j" "length (buckets m') = length (buckets m)"
      "n_buckets m' = n_buckets m" "blocks st' = blocks st" "answers st' = answers st"
      "\<And>x. val st' x = val st x" "\<And>x. (nodes st' x = None) = (nodes st x = None)"
      "\<And>x. x \<notin> set us \<Longrightarrow> nodes st' x = nodes st x"
      using unlink_slot [of st m ?i us c vs n] ch s(1,2) b(2) by metis
    have "m0 = m'" "st0 = st'" using s(3) u(1) by auto
    have "buckets m ! ?i \<noteq> NULL" using ch s(1) by (cases us) auto
    with s(4) b(1) fv Some have r: "hashmap_remove m st key =
        Some (first_or_NULL (find ?P (vss ! ?i)), m', free_node st' c)"
      by (simp add: hashmap_remove_def first_or_NULL_def \<open>m0 = m'\<close> \<open>st0 = st'\<close>)
    have "hm_rep m' (free_node st' c) (vss[?i := remove_first ?P (vss ! ?i)])"
      using hm_rep_unlink [OF css(1) b(2) s(1), where P = ?P, OF Some u(2-5) u(8,10)] css(2) vi by simp
    with that [OF r] u(5-7) show thesis by (simp add: free_node_simps)
  qed
qed

section \<open>Creation and destruction\<close>

lemma hm_rep_init: "0 < sint n \<Longrightarrow> hm_rep (hashmap_init n) st (replicate (nat (sint n)) [])"
  unfolding hm_rep_def
  by (rule exI [of _ "replicate (nat (sint n)) []"])
    (auto simp: hm_chains_def hashmap_init_def list_all2_conv_all_nth)

lemma hash_slot_cong: "n_buckets m' = n_buckets m \<Longrightarrow> hash_slot m' = hash_slot m"
  by (simp add: hash_slot_def fun_eq_iff)

lemma hash_slot_in_rep: "hm_rep m st vss \<Longrightarrow> user_ptr key \<Longrightarrow> hash_slot m key < length vss"
  using bucket_index_in_table by (auto simp: hm_rep_def)

text \<open>Freeing a chain frees its cells and nothing else.\<close>

lemma hashmap_free_chain_frees:
  assumes "linked (nnext st) p cs"
  shows "hashmap_free_chain st p = Some (fold (\<lambda>c st. free_node st c) cs st)"
  using assms
proof (induction cs arbitrary: p st)
  case Nil
  then show ?case by (simp add: hashmap_free_chain.simps)
next
  case (Cons c cs)
  from linked_node [OF Cons.prems] obtain n where n: "p = c" "c \<noteq> NULL" "node_at st c = Some n"
    "linked (nnext st) (n_next n) cs" by blast
  have "nnext (free_node st c) = (nnext st)(c := None)"
    by (auto simp: nnext_def fun_eq_iff free_node_simps)
  with n(4) linked_distinct [OF Cons.prems] linked_frame [of c cs "nnext st" None "n_next n"]
  have "linked (nnext (free_node st c)) (n_next n) cs" by simp
  from Cons.IH [OF this] n show ?case by (subst hashmap_free_chain.simps) simp
qed

lemma nodes_fold_free:
  "nodes (fold (\<lambda>c st. free_node st c) cs st) p = (if p \<in> set cs then None else nodes st p)"
  by (induction cs arbitrary: st) (auto simp: free_node_simps)

lemma blocks_fold_free [simp]:
  "blocks (fold (\<lambda>c st. free_node st c) cs st) = blocks st"
  "answers (fold (\<lambda>c st. free_node st c) cs st) = answers st"
  by (induction cs arbitrary: st) (simp_all add: free_node_simps)

lemma hashmap_free_buckets_frees:
  assumes "list_all2 (linked (nnext st)) bs css" and "distinct (concat css)"
  shows "hashmap_free_buckets st bs = Some (fold (\<lambda>c st. free_node st c) (concat css) st)"
  using assms
proof (induction css arbitrary: bs st rule: list.induct)
  case Nil
  then show ?case by simp
next
  case (Cons cs css)
  from Cons.prems(1) obtain b bs' where b: "bs = b # bs'" "linked (nnext st) b cs"
    "list_all2 (linked (nnext st)) bs' css" by (auto simp: list_all2_Cons2)
  let ?st = "fold (\<lambda>c st. free_node st c) cs st"
  have "linked (nnext ?st) q ds = linked (nnext st) q ds" if "ds \<in> set css" for q ds
    using that Cons.prems(2) by (intro linked_cong) (auto simp: nnext_def nodes_fold_free)
  then have "list_all2 (linked (nnext ?st)) bs' css"
    using b(3) by (auto simp: list_all2_conv_all_nth)
  with Cons.IH [of ?st bs'] Cons.prems(2) b hashmap_free_chain_frees [OF b(2)] show ?case by simp
qed

section \<open>Properties\<close>

text \<open>
  The table that the properties are evaluated on: no entry, and two blocks, at 64 and at
  128, of which the first starts at 4096 and links to the second, which starts at 4112.
\<close>

definition demo_table :: cmem where
  "demo_table = demo_mem\<lparr>
     blocks := [64 \<mapsto> \<lparr>b_ptr = 4096, b_size = 16, b_next = 128\<rparr>,
                128 \<mapsto> \<lparr>b_ptr = 4112, b_size = 16, b_next = NULL\<rparr>],
     answers := drop 2 (answers demo_mem)\<rparr>"

lemma demo_table: "hm_rep (hashmap_init 8) demo_table (replicate 8 [])"
    "key_of demo_table 64 = Some 4112" "start_of demo_table 64 = Some 4096" "room demo_table 1"
    "user_ptr 4112" "hash_slot (hashmap_init 8) 4112 < 8"
    "(replicate 8 [])[hash_slot (hashmap_init 8) 4112 := []] = replicate 8 ([] :: ptr list)"
proof -
  show r: "hm_rep (hashmap_init 8) demo_table (replicate 8 [])"
    using hm_rep_init [of 8 demo_table] by simp
  show u: "user_ptr 4112" by (simp add: user_ptr_def)
  show h: "hash_slot (hashmap_init 8) 4112 < 8" using hash_slot_in_rep [OF r u] by simp
  then show "(replicate 8 [])[hash_slot (hashmap_init 8) 4112 := []] = replicate 8 ([] :: ptr list)"
    by (simp add: list_update_same_conv)
qed (simp_all add: key_of_def start_of_def blk_def demo_table_def demo_mem_def room_def fresh_def user_ptr_def)

text \<open>
  C30: after storing a block under an address, looking that address up gives the block exactly
  when the block behind it starts there. (\<open>heap_malloc\<close>, at heap.c:91, stores the new block
  under the address of the descriptor behind it, not under the start of that block, so it is
  not found there.) Every key but the one given and the start of the block behind still gives
  what it gave before, whether it shares the bucket or not.
\<close>

theorem hashmap_set_then_get:
  assumes rep: "hm_rep m st vss" and key: "user_ptr key" and room: "room st 1"
    and vals: "\<forall>v \<in> set (vss ! hash_slot m key). key_of st v \<noteq> None"
    and v: "key_of st v = Some own"
  shows "\<exists>m' st'. hashmap_set m st key v = Some (m', st') \<and>
    (hashmap_get m' st' key = Some v \<longleftrightarrow> own = key) \<and>
    (\<forall>key'. user_ptr key' \<and> key' \<noteq> key \<and> key' \<noteq> own \<and>
        (\<forall>v \<in> set (vss ! hash_slot m key'). key_of st v \<noteq> None) \<longrightarrow>
      hashmap_get m' st' key' = hashmap_get m st key')"
proof -
  let ?P = "\<lambda>v. key_of st v = Some key"
  let ?vss = "vss[hash_slot m key := bucket_put ?P v (vss ! hash_slot m key)]"
  obtain m' st' where s: "hashmap_set m st key v = Some (m', st')" "hm_rep m' st' ?vss"
    "n_buckets m' = n_buckets m" "blocks st' = blocks st"
    using hashmap_set_rep [OF rep key room [unfolded One_nat_def] vals, of v] by blast
  note k = key_of_cong [OF s(4)]
  note h = hash_slot_cong [OF s(3)] and len = hash_slot_in_rep [OF rep]
  have bp: "\<forall>x \<in> set (bucket_put ?P v vs). key_of st x \<noteq> None"
    if "\<forall>x \<in> set vs. key_of st x \<noteq> None" for vs
    using that set_bucket_put [of ?P v vs] v by auto
  have get: "hashmap_get m' st' key = Some (first_or_NULL (find ?P (bucket_put ?P v (vss ! hash_slot m key))))"
    using hashmap_get_rep [OF s(2) key] bp [OF vals] len [OF key] by (simp add: h k)
  have "v \<noteq> NULL" using v by (auto simp: key_of_def blk_def)
  hence "hashmap_get m' st' key = Some v \<longleftrightarrow> own = key"
    using v by (cases "own = key")
      (auto simp: get find_bucket_put first_or_NULL_def find_Some_iff split: option.splits)
  moreover have "hashmap_get m' st' key' = hashmap_get m st key'"
    if k': "user_ptr key'" "key' \<noteq> key" "key' \<noteq> own" "\<forall>v \<in> set (vss ! hash_slot m key'). key_of st v \<noteq> None" for key'
  proof -
    have "find (\<lambda>v. key_of st v = Some key') (?vss ! hash_slot m key') =
        find (\<lambda>v. key_of st v = Some key') (vss ! hash_slot m key')"
      using k'(2,3) v len [OF key]
      by (cases "hash_slot m key' = hash_slot m key") (auto intro!: find_bucket_put_other)
    moreover have "\<forall>x \<in> set (?vss ! hash_slot m key'). key_of st x \<noteq> None"
      using k'(4) bp len [OF key] by (cases "hash_slot m key' = hash_slot m key") auto
    ultimately show ?thesis
      using hashmap_get_rep [OF s(2) k'(1)] hashmap_get_rep [OF rep k'(1,4)] by (simp add: h k)
  qed
  ultimately show ?thesis using s(1) by blast
qed

theorem hashmap_set_then_get_witness:
  "(\<exists>m' st'. hashmap_set (hashmap_init 8) demo_table 4112 64 = Some (m', st') \<and>
    hashmap_get m' st' 4112 = Some 64) \<and>
   (\<exists>m' st'. hashmap_set (hashmap_init 8) demo_table 8192 64 = Some (m', st') \<and>
    hashmap_get m' st' 8192 \<noteq> Some 64)"
proof
  show "\<exists>m' st'. hashmap_set (hashmap_init 8) demo_table 4112 64 = Some (m', st') \<and> hashmap_get m' st' 4112 = Some 64"
    using hashmap_set_then_get [OF demo_table(1), of 4112 64 4112] demo_table by auto
  have u: "user_ptr 8192" by (simp add: user_ptr_def)
  have "hash_slot (hashmap_init 8) 8192 < 8" using hash_slot_in_rep [OF demo_table(1) u] by simp
  thus "\<exists>m' st'. hashmap_set (hashmap_init 8) demo_table 8192 64 = Some (m', st') \<and> hashmap_get m' st' 8192 \<noteq> Some 64"
    using hashmap_set_then_get [OF demo_table(1) u, of 64 4112] demo_table(2,4) by auto
qed

text \<open>
  C31: \<open>hashmap_remove\<close> takes out the first block of the key's bucket whose \<^emph>\<open>own\<close> start
  address is the key, returns it, and leaves the rest of the table as it is; without such
  a block it returns \<open>NULL\<close> and the table keeps every entry.
\<close>

theorem hashmap_remove_takes_first:
  assumes "hm_rep m st vss" and "user_ptr key"
    and "\<forall>v \<in> set (vss ! hash_slot m key). start_of st v \<noteq> None"
  shows "\<exists>m' st'. hashmap_remove m st key =
      Some (first_or_NULL (find (\<lambda>v. start_of st v = Some key) (vss ! hash_slot m key)), m', st') \<and>
    hm_rep m' st' (vss[hash_slot m key :=
      remove_first (\<lambda>v. start_of st v = Some key) (vss ! hash_slot m key)]) \<and>
    blocks st' = blocks st"
  using hashmap_remove_rep [OF assms] by metis

theorem hashmap_remove_takes_first_witness:
  "\<exists>m' st'. hashmap_remove (hashmap_init 8) demo_table 4112 = Some (NULL, m', st') \<and>
    hm_rep m' st' (replicate 8 [])"
  using hashmap_remove_takes_first [OF demo_table(1), of 4112] demo_table(5-7)
  by (auto simp: first_or_NULL_def)

text \<open>
  A key just stored under a block that does not start at the key can be looked up but
  not removed: \<open>hashmap_remove\<close> compares another field than \<open>hashmap_get\<close> and
  \<open>hashmap_set\<close> do. In the heap every stored block ends where its key begins, so this is
  the normal case there.
\<close>

theorem hashmap_remove_misses_stored_key:
  assumes rep: "hm_rep m st vss" and key: "user_ptr key" and room: "room st 1"
    and empty: "vss ! hash_slot m key = []"
    and v: "key_of st v = Some key" "start_of st v = Some a" "a \<noteq> key"
  shows "\<exists>m' st'. hashmap_set m st key v = Some (m', st') \<and>
    hashmap_get m' st' key = Some v \<and> hashmap_remove m' st' key = Some (NULL, m', st')"
proof -
  let ?i = "hash_slot m key"
  have vals: "\<forall>v \<in> set (vss ! ?i). key_of st v \<noteq> None" using empty by simp
  obtain m' st' where s: "hashmap_set m st key v = Some (m', st')"
    "hm_rep m' st' (vss[?i := bucket_put (\<lambda>v. key_of st v = Some key) v (vss ! ?i)])"
    "n_buckets m' = n_buckets m" "blocks st' = blocks st"
    using hashmap_set_rep [OF rep key room [unfolded One_nat_def] vals, of v] by blast
  then have rep': "hm_rep m' st' (vss[?i := [v]])" using empty by (simp add: bucket_put_def)
  have h: "hash_slot m' key = ?i" using hash_slot_cong [OF s(3)] by simp
  then obtain css where css: "hm_chains m' st' css" "vss[?i := [v]] = map (map (val st')) css"
    using rep' by (auto simp: hm_rep_def)
  have st: "start_of st' v = Some a" using v(2) start_of_cong [OF s(4)] by simp
  note b = bucket_index_in_table [OF css(1) key] and len = hash_slot_in_rep [OF rep key]
  have "map (val st') (css ! ?i) = [v]"
    using arg_cong [where f = "\<lambda>l. l ! ?i", OF css(2)] b(2,3) h len by simp
  then have vals': "\<forall>c \<in> set (css ! ?i). start_of st' (val st' c) \<noteq> None"
    and none: "find (\<lambda>c. start_of st' (val st' c) = Some key) (css ! ?i) = None"
    using st v(3) by (auto simp: find_None_iff map_eq_Cons_conv)
  have "hashmap_remove m' st' key = Some (NULL, m', st')"
    using hashmap_remove_loop_None [of st' m' ?i "[]" "css ! ?i" key]
      hm_chains_bucket [OF css(1), of ?i] b vals' none h
    by (simp add: hashmap_remove_def slot_after_def)
  moreover have "hashmap_get m' st' key = Some v"
    using hashmap_get_rep [OF rep' key] len v(1) h
    by (simp add: key_of_cong [OF s(4)] first_or_NULL_def)
  ultimately show ?thesis using s(1) by blast
qed

theorem hashmap_remove_misses_stored_key_witness:
  "\<exists>m' st'. hashmap_set (hashmap_init 8) demo_table 4112 64 = Some (m', st') \<and>
    hashmap_get m' st' 4112 = Some 64 \<and> hashmap_remove m' st' 4112 = Some (NULL, m', st')"
  using hashmap_remove_misses_stored_key [OF demo_table(1), of 4112 64 4096] demo_table by simp

text \<open>
  \<open>hashmap_free\<close> returns, frees every node of every bucket exactly once, and touches no
  other object.
\<close>

theorem hashmap_free_frees_all:
  assumes "hm_chains m st css"
  shows "\<exists>st'. hashmap_free m st = Some st' \<and> blocks st' = blocks st \<and>
    (\<forall>p. nodes st' p = (if \<exists>cs \<in> set css. p \<in> set cs then None else nodes st p))"
  using assms hashmap_free_buckets_frees [of st "buckets m" css]
  by (simp add: hm_chains_def hashmap_free_def nodes_fold_free)

theorem hashmap_free_frees_all_witness:
  "\<exists>st'. hashmap_free \<lparr>n_buckets = 1, buckets = [64]\<rparr>
      (demo_mem\<lparr>nodes := [64 \<mapsto> \<lparr>n_value = 1, n_next = NULL\<rparr>]\<rparr>) = Some st' \<and> nodes st' 64 = None"
  using hashmap_free_frees_all [of "\<lparr>n_buckets = 1, buckets = [64]\<rparr>"
      "demo_mem\<lparr>nodes := [64 \<mapsto> \<lparr>n_value = 1, n_next = NULL\<rparr>]\<rparr>" "[[64]]"]
  by (auto simp: hm_chains_def nnext_def)

section \<open>The interface the heap uses\<close>

text \<open>
  What \<open>heap_malloc\<close> needs of the index of its blocks: storing an entry works as long as
  every block the index holds can be asked for its key, adds at most this block to the
  index, and changes no block; changing blocks does not change the index.
\<close>

locale block_index =
  fixes put :: "'m \<Rightarrow> cmem \<Rightarrow> ptr \<Rightarrow> ptr \<Rightarrow> ('m \<times> cmem) option"
    and holds :: "'m \<Rightarrow> cmem \<Rightarrow> ptr set \<Rightarrow> bool"
  assumes put_holds: "holds m st V \<Longrightarrow> \<forall>v \<in> V. key_of st v \<noteq> None \<Longrightarrow> user_ptr key \<Longrightarrow>
      room st (Suc k) \<Longrightarrow> \<exists>m' st'. put m st key v = Some (m', st') \<and>
        holds m' st' (insert v V) \<and> blocks st' = blocks st \<and> room st' k"
    and holds_frame: "nodes st' = nodes st \<Longrightarrow> holds m st V \<Longrightarrow> holds m st' V"
    and holds_mono: "holds m st V \<Longrightarrow> V \<subseteq> W \<Longrightarrow> holds m st W"
begin

lemma put_when:
  assumes "holds m st V" and "\<forall>v \<in> V. key_of st v \<noteq> None" and "c \<longrightarrow> user_ptr key"
    and "room st (Suc k)"
  shows "\<exists>m' st'. (if c then put m st key v else Some (m, st)) = Some (m', st') \<and>
    holds m' st' (if c then insert v V else V) \<and> blocks st' = blocks st \<and> room st' k"
  using assms put_holds [of m st V key k v] room_mono [of st "Suc k" k] by auto

end

definition hm_holds :: "hashmap_t \<Rightarrow> cmem \<Rightarrow> ptr set \<Rightarrow> bool" where
  "hm_holds m st V \<longleftrightarrow> (\<exists>vss. hm_rep m st vss \<and> (\<forall>vs \<in> set vss. set vs \<subseteq> V))"

lemma hm_rep_frame:
  assumes "nodes st' = nodes st"
  shows "hm_rep m st' vss = hm_rep m st vss"
proof -
  have "val st' = val st" using assms by (intro ext) (simp add: val_def)
  moreover have "nnext st' = nnext st" using assms by (rule nnext_cong)
  ultimately show ?thesis by (simp only: hm_rep_def hm_chains_def)
qed

lemma hashmap_set_holds:
  assumes "hm_holds m st V" and V: "\<forall>v \<in> V. key_of st v \<noteq> None" and key: "user_ptr key"
    and room: "room st (Suc k)"
  shows "\<exists>m' st'. hashmap_set m st key v = Some (m', st') \<and>
    hm_holds m' st' (insert v V) \<and> blocks st' = blocks st \<and> room st' k"
proof -
  from assms(1) obtain vss where vss: "hm_rep m st vss" "\<forall>vs \<in> set vss. set vs \<subseteq> V"
    by (auto simp: hm_holds_def)
  let ?i = "hash_slot m key" and ?P = "\<lambda>v. key_of st v = Some key"
  have sub: "set (vss ! ?i) \<subseteq> V" using vss hash_slot_in_rep [OF vss(1) key] by simp
  with V have "\<forall>v \<in> set (vss ! ?i). key_of st v \<noteq> None" by auto
  from hashmap_set_rep [OF vss(1) key room this, of v] obtain m' st' where s:
    "hashmap_set m st key v = Some (m', st')"
    "hm_rep m' st' (vss[?i := bucket_put ?P v (vss ! ?i)])" "blocks st' = blocks st" "room st' k"
    by blast
  have "\<forall>vs \<in> set (vss[?i := bucket_put ?P v (vss ! ?i)]). set vs \<subseteq> insert v V"
    using vss(2) sub set_bucket_put [of ?P v "vss ! ?i"]
    by (auto dest!: set_update_subset_insert [THEN subsetD])
  with s show ?thesis by (auto simp: hm_holds_def)
qed

interpretation index: block_index hashmap_set hm_holds
  proof unfold_locales
  show "hm_holds m st W" if "hm_holds m st V" "V \<subseteq> W" for m st V W
    using that by (auto simp: hm_holds_def)
  show "hm_holds m st' V" if "nodes st' = nodes st" "hm_holds m st V" for st' st m V
    using that(2) hm_rep_frame [OF that(1)] by (simp add: hm_holds_def)
qed (rule hashmap_set_holds)

end
