(* ===== verification/Next_Fit.thy ===== *)
theory Next_Fit
  imports Prelude
begin

text \<open>
  The specification of the allocator in \<open>memory/heap.c\<close>: next-fit placement over a list
  of allocated intervals, with offsets from the start of the region as natural numbers
  and no pointers. \<open>Heap_Block\<close> proves that the code implements it; here are the
  properties that follow from the specification alone.

  The list starts with the dummy block \<open>(0, 0)\<close> that \<open>heap_init\<close> makes, is sorted by
  offset, and \<open>nf_cur\<close> is the position of the block allocated last, where the next
  search starts.
\<close>

section \<open>Definitions\<close>

record nf_state =
  nf_size :: nat
  nf_lay :: "(nat \<times> nat) list"
  nf_cur :: nat

definition nf_end :: "nat \<times> nat \<Rightarrow> nat" where
  "nf_end x = fst x + snd x"

definition nf_init :: "nat \<Rightarrow> nf_state" where
  "nf_init n = \<lparr>nf_size = n, nf_lay = [(0, 0)], nf_cur = 0\<rparr>"

text \<open>The free space right after block number \<open>i\<close>.\<close>

definition nf_gap :: "nf_state \<Rightarrow> nat \<Rightarrow> nat" where
  "nf_gap a i =
     (if Suc i < length (nf_lay a) then fst (nf_lay a ! Suc i) else nf_size a)
     - nf_end (nf_lay a ! i)"

text \<open>The order of the search: from the current block to the end, then from the start.\<close>

definition nf_order :: "nf_state \<Rightarrow> nat list" where
  "nf_order a = [nf_cur a ..< length (nf_lay a)] @ [0 ..< nf_cur a]"

definition nf_pick :: "nf_state \<Rightarrow> nat \<Rightarrow> nat option" where
  "nf_pick a n = find (\<lambda>i. n \<le> nf_gap a i) (nf_order a)"

definition nf_insert :: "nf_state \<Rightarrow> nat \<Rightarrow> nat \<Rightarrow> nf_state" where
  "nf_insert a i n =
     a\<lparr>nf_lay := take (Suc i) (nf_lay a) @ (nf_end (nf_lay a ! i), n) # drop (Suc i) (nf_lay a),
       nf_cur := Suc i\<rparr>"

definition nf_malloc :: "nf_state \<Rightarrow> nat \<Rightarrow> nat option \<times> nf_state" where
  "nf_malloc a n =
     (case nf_pick a n of
        None \<Rightarrow> (None, a)
      | Some i \<Rightarrow> (Some (nf_end (nf_lay a ! i)), nf_insert a i n))"

text \<open>
  Dropping the block after number \<open>i\<close>; the next search starts at the block that follows
  it, or at the dummy block.
\<close>

definition nf_remove :: "nf_state \<Rightarrow> nat \<Rightarrow> nf_state" where
  "nf_remove a i =
     a\<lparr>nf_lay := take (Suc i) (nf_lay a) @ drop (Suc (Suc i)) (nf_lay a),
       nf_cur := (if Suc (Suc i) < length (nf_lay a) then Suc i else 0)\<rparr>"

text \<open>A run of allocations, and what it returns.\<close>

fun nf_run :: "nf_state \<Rightarrow> nat list \<Rightarrow> nat option list" where
  "nf_run a [] = []"
| "nf_run a (n # ns) = (let (r, a') = nf_malloc a n in r # nf_run a' ns)"

section \<open>Layouts\<close>

text \<open>\<open>fits lo sz xs\<close>: the intervals are in order, apart, and inside \<open>[lo, sz]\<close>.\<close>

fun fits :: "nat \<Rightarrow> nat \<Rightarrow> (nat \<times> nat) list \<Rightarrow> bool" where
  "fits lo sz [] \<longleftrightarrow> lo \<le> sz"
| "fits lo sz (x # xs) \<longleftrightarrow> lo \<le> fst x \<and> fits (nf_end x) sz xs"

definition nf_ok :: "nf_state \<Rightarrow> bool" where
  "nf_ok a \<longleftrightarrow> nf_lay a \<noteq> [] \<and> hd (nf_lay a) = (0, 0) \<and> nf_cur a < length (nf_lay a) \<and>
     fits 0 (nf_size a) (nf_lay a)"

lemma nf_ok_init: "nf_ok (nf_init n)"
  by (simp add: nf_ok_def nf_init_def nf_end_def)

lemma fits_le: "fits lo sz xs \<Longrightarrow> lo \<le> sz"
proof (induction xs arbitrary: lo)
  case (Cons x xs)
  then have "lo \<le> fst x" "nf_end x \<le> sz" by auto
  then show ?case by (simp add: nf_end_def)
qed simp

lemma fits_append:
  "fits lo sz (xs @ ys) \<longleftrightarrow> fits lo (case ys of [] \<Rightarrow> sz | y # _ \<Rightarrow> fst y) xs \<and>
     (case ys of [] \<Rightarrow> True | y # ys' \<Rightarrow> fits (nf_end y) sz ys')"
  by (induction xs arbitrary: lo) (auto split: list.splits)

lemma fits_nth_end:
  "fits lo sz xs \<Longrightarrow> i < length xs \<Longrightarrow>
   nf_end (xs ! i) \<le> (if Suc i < length xs then fst (xs ! Suc i) else sz)"
proof (induction xs arbitrary: lo i)
  case (Cons x xs)
  show ?case
  proof (cases i)
    case 0
    with Cons.prems show ?thesis by (cases xs) (auto simp: nf_end_def)
  next
    case (Suc j)
    with Cons.prems Cons.IH [of "nf_end x" j] show ?thesis by (simp split: if_splits)
  qed
qed simp

lemma fits_bound: "fits lo sz xs \<Longrightarrow> x \<in> set xs \<Longrightarrow> lo \<le> fst x \<and> nf_end x \<le> sz"
proof (induction xs arbitrary: lo)
  case (Cons y ys)
  then have y: "lo \<le> fst y" "fits (nf_end y) sz ys" by auto
  show ?case
  proof (cases "x = y")
    case True
    with y fits_le [OF y(2)] show ?thesis by simp
  next
    case False
    with Cons.prems Cons.IH [OF y(2)] y(1) show ?thesis by (auto simp: nf_end_def)
  qed
qed simp

lemma fits_sorted: "fits lo sz xs \<Longrightarrow> sorted_wrt (\<lambda>x y. nf_end x \<le> fst y) xs"
proof (induction xs arbitrary: lo)
  case (Cons x xs)
  then show ?case using fits_bound [of "nf_end x" sz xs] by auto
qed simp

text \<open>Two different blocks have no byte in common.\<close>

definition apart :: "nat \<times> nat \<Rightarrow> nat \<times> nat \<Rightarrow> bool" where
  "apart x y \<longleftrightarrow> nf_end x \<le> fst y \<or> nf_end y \<le> fst x"

lemma nf_ok_apart:
  assumes "nf_ok a" and "i < length (nf_lay a)" and "j < length (nf_lay a)" and "i \<noteq> j"
  shows "apart (nf_lay a ! i) (nf_lay a ! j)"
proof -
  have s: "sorted_wrt (\<lambda>x y. nf_end x \<le> fst y) (nf_lay a)"
    using assms(1) fits_sorted by (auto simp: nf_ok_def)
  show ?thesis
    using sorted_wrt_nth_less [OF s, of i j] sorted_wrt_nth_less [OF s, of j i] assms(2-4)
    by (cases i j rule: linorder_cases) (auto simp: apart_def)
qed

section \<open>Placement\<close>

lemma set_nf_order: "nf_cur a < length (nf_lay a) \<Longrightarrow> set (nf_order a) = {..< length (nf_lay a)}"
  by (auto simp: nf_order_def)

lemma nf_pick_Some:
  assumes "nf_ok a" and "nf_pick a n = Some i"
  shows "i < length (nf_lay a)" and "n \<le> nf_gap a i"
  using assms find_SomeD [of _ "nf_order a" i] set_nf_order [of a]
  by (auto simp: nf_pick_def nf_ok_def)

lemma nf_pick_None:
  assumes "nf_ok a"
  shows "nf_pick a n = None \<longleftrightarrow> (\<forall>i < length (nf_lay a). nf_gap a i < n)"
  using assms set_nf_order [of a] by (auto simp: nf_pick_def nf_ok_def find_None_iff not_le)

lemma nf_insert_fits:
  assumes ok: "nf_ok a" and i: "i < length (nf_lay a)" and n: "n \<le> nf_gap a i"
  shows "nf_ok (nf_insert a i n)"
proof -
  let ?xs = "nf_lay a"
  have s: "?xs = take i ?xs @ ?xs ! i # drop (Suc i) ?xs" using i by (simp add: id_take_nth_drop)
  have t: "take (Suc i) ?xs = take i ?xs @ [?xs ! i]" using i by (simp add: take_Suc_conv_app_nth)
  have f: "fits 0 (nf_size a) (take i ?xs @ ?xs ! i # drop (Suc i) ?xs)"
    using ok s by (simp add: nf_ok_def)
  have e: "nf_end (?xs ! i) \<le> (if Suc i < length ?xs then fst (?xs ! Suc i) else nf_size a)"
    using ok i fits_nth_end [of 0 "nf_size a" ?xs i] by (simp add: nf_ok_def)
  have "fits (nf_end (?xs ! i)) (nf_size a) ((nf_end (?xs ! i), n) # drop (Suc i) ?xs)"
  proof (cases "Suc i < length ?xs")
    case True
    then have d: "drop (Suc i) ?xs = ?xs ! Suc i # drop (Suc (Suc i)) ?xs"
      by (simp add: Cons_nth_drop_Suc)
    with f have "fits (nf_end (?xs ! Suc i)) (nf_size a) (drop (Suc (Suc i)) ?xs)"
      by (auto simp: fits_append)
    with d True n e show ?thesis by (simp add: nf_gap_def nf_end_def)
  next
    case False
    with n e show ?thesis by (simp add: nf_gap_def nf_end_def)
  qed
  with f have "fits 0 (nf_size a) (take i ?xs @ ?xs ! i # (nf_end (?xs ! i), n) # drop (Suc i) ?xs)"
    by (simp add: fits_append)
  then have "fits 0 (nf_size a) (nf_lay (nf_insert a i n))" using t by (simp add: nf_insert_def)
  moreover have "hd (nf_lay (nf_insert a i n)) = hd ?xs"
    using i by (cases ?xs) (auto simp: nf_insert_def)
  ultimately show ?thesis using ok i by (auto simp: nf_ok_def nf_insert_def)
qed

lemma nf_malloc_ok: "nf_ok a \<Longrightarrow> nf_ok (snd (nf_malloc a n))"
  using nf_pick_Some [of a n] nf_insert_fits [of a _ n]
  by (auto simp: nf_malloc_def split: option.splits)

lemma nf_malloc_size: "nf_size (snd (nf_malloc a n)) = nf_size a"
  by (auto simp: nf_malloc_def nf_insert_def split: option.splits)

text \<open>
  A block that was placed lies inside the region and apart from every block that was
  there; the others stay where they are.
\<close>

lemma nf_malloc_Some:
  assumes ok: "nf_ok a" and m: "nf_malloc a n = (Some off, a')"
  shows "off + n \<le> nf_size a" and "\<And>x. x \<in> set (nf_lay a) \<Longrightarrow> apart (off, n) x"
    and "set (nf_lay a') = insert (off, n) (set (nf_lay a))"
proof -
  from m obtain i where i: "nf_pick a n = Some i" "off = nf_end (nf_lay a ! i)" "a' = nf_insert a i n"
    by (auto simp: nf_malloc_def split: option.splits)
  note p = nf_pick_Some [OF ok i(1)]
  have ok': "nf_ok a'" using nf_insert_fits [OF ok p] i(3) by simp
  let ?xs = "nf_lay a"
  have lay: "nf_lay a' = take (Suc i) ?xs @ (off, n) # drop (Suc i) ?xs"
    using i(2,3) by (simp add: nf_insert_def)
  have "set ?xs = set (take (Suc i) ?xs) \<union> set (drop (Suc i) ?xs)"
    by (metis append_take_drop_id set_append)
  then show s: "set (nf_lay a') = insert (off, n) (set ?xs)" unfolding lay by auto
  have "fits 0 (nf_size a') (nf_lay a')" using ok' by (simp add: nf_ok_def)
  from fits_bound [OF this, of "(off, n)"] s i(3)
  show "off + n \<le> nf_size a" by (auto simp: nf_end_def nf_insert_def)
  have "sorted_wrt (\<lambda>x y. nf_end x \<le> fst y) (nf_lay a')"
    using ok' fits_sorted by (auto simp: nf_ok_def)
  then show "apart (off, n) x" if "x \<in> set ?xs" for x
    using that \<open>set ?xs = _\<close> unfolding lay by (auto simp: sorted_wrt_append apart_def)
qed

lemma nf_malloc_None:
  assumes "nf_ok a"
  shows "fst (nf_malloc a n) = None \<longleftrightarrow> (\<forall>i < length (nf_lay a). nf_gap a i < n)"
  unfolding nf_pick_None [OF assms, symmetric]
  by (auto simp: nf_malloc_def split: option.splits)

lemma fits_drop_one:
  "fits lo sz (xs @ y # ys) \<Longrightarrow> fits lo sz (xs @ ys)"
proof (induction xs arbitrary: lo)
  case Nil
  then have y: "lo \<le> nf_end y" "fits (nf_end y) sz ys" by (auto simp: nf_end_def)
  then show ?case using fits_le [OF y(2)] by (cases ys) auto
qed simp

lemma nf_remove_ok:
  assumes ok: "nf_ok a" and i: "Suc i < length (nf_lay a)"
  shows "nf_ok (nf_remove a i)"
proof -
  let ?xs = "nf_lay a"
  have "?xs = take (Suc i) ?xs @ ?xs ! Suc i # drop (Suc (Suc i)) ?xs"
    using i by (rule id_take_nth_drop)
  with ok have "fits 0 (nf_size a) (take (Suc i) ?xs @ ?xs ! Suc i # drop (Suc (Suc i)) ?xs)"
    by (simp add: nf_ok_def)
  then have "fits 0 (nf_size a) (nf_lay (nf_remove a i))"
    by (auto simp: nf_remove_def dest: fits_drop_one)
  moreover have "hd (nf_lay (nf_remove a i)) = hd ?xs" "nf_lay (nf_remove a i) \<noteq> []"
    using i by (cases ?xs; simp add: nf_remove_def)+
  ultimately show ?thesis using ok i by (auto simp: nf_ok_def nf_remove_def)
qed

section \<open>Runs of allocations\<close>

text \<open>The placed blocks of a run are apart from what was there and from each other.\<close>

text \<open>The state after a run of allocations.\<close>

definition nf_after :: "nf_state \<Rightarrow> nat list \<Rightarrow> nf_state" where
  "nf_after a ns = fold (\<lambda>n a. snd (nf_malloc a n)) ns a"

lemma nf_after_append: "nf_after a (ms @ ns) = nf_after (nf_after a ms) ns"
  by (simp add: nf_after_def)

lemma nf_run_append: "nf_run a (ms @ ns) = nf_run a ms @ nf_run (nf_after a ms) ns"
  by (induction ms arbitrary: a) (simp_all add: nf_after_def split_beta Let_def)

lemma nf_run_length [simp]: "length (nf_run a ns) = length ns"
  by (induction ns arbitrary: a) (auto split: prod.splits)

lemma nf_run_apart_old:
  assumes "nf_ok a" and "i < length ns" and "nf_run a ns ! i = Some off" and "x \<in> set (nf_lay a)"
  shows "apart (off, ns ! i) x \<and> off + ns ! i \<le> nf_size a"
  using assms
proof (induction ns arbitrary: a i)
  case (Cons n ns)
  obtain r a' where m: "nf_malloc a n = (r, a')" by fastforce
  have ok': "nf_ok a'" "nf_size a' = nf_size a"
    using nf_malloc_ok [OF Cons.prems(1), of n] nf_malloc_size [of a n] m by auto
  show ?case
  proof (cases i)
    case 0
    with Cons.prems m nf_malloc_Some [of a n off a'] show ?thesis by simp
  next
    case (Suc j)
    have "set (nf_lay a) \<subseteq> set (nf_lay a')"
      using m nf_malloc_Some(3) [OF Cons.prems(1), of n] by (cases r) (auto simp: nf_malloc_def split: option.splits)
    with Suc Cons.IH [OF ok'(1), of j] Cons.prems m ok'(2) show ?thesis by auto
  qed
qed simp

lemma nf_run_apart:
  assumes "nf_ok a" and "i < j" and "j < length ns"
    and "nf_run a ns ! i = Some off" and "nf_run a ns ! j = Some off'"
  shows "apart (off, ns ! i) (off', ns ! j)"
  using assms
proof (induction ns arbitrary: a i j)
  case (Cons n ns)
  obtain r a' where m: "nf_malloc a n = (r, a')" by fastforce
  have ok': "nf_ok a'" using nf_malloc_ok [OF Cons.prems(1), of n] m by simp
  obtain j' where j: "j = Suc j'" using Cons.prems(2) by (cases j) auto
  show ?case
  proof (cases i)
    case 0
    with Cons.prems m have r: "nf_malloc a n = (Some off, a')" by simp
    then have "(off, n) \<in> set (nf_lay a')" using nf_malloc_Some(3) [OF Cons.prems(1) r] by simp
    with nf_run_apart_old [OF ok', of j' ns off' "(off, n)"] Cons.prems(3,5) m j 0
    show ?thesis by (auto simp: apart_def)
  next
    case (Suc i')
    with Cons.IH [OF ok', of i' j'] Cons.prems m j show ?thesis by simp
  qed
qed simp

section \<open>The allocator interface\<close>

text \<open>The address for an offset, \<open>NULL\<close> for a refusal.\<close>

definition place :: "ptr \<Rightarrow> nat option \<Rightarrow> ptr" where
  "place b x = (case x of None \<Rightarrow> NULL | Some off \<Rightarrow> b + of_nat off)"

fun alloc_run :: "('s \<Rightarrow> size_t \<Rightarrow> (ptr \<times> 's) option) \<Rightarrow> 's \<Rightarrow> size_t list \<Rightarrow> (ptr list \<times> 's) option" where
  "alloc_run f s [] = Some ([], s)"
| "alloc_run f s (n # ns) = do {
     (r, s1) \<leftarrow> f s n;
     (rs, s2) \<leftarrow> alloc_run f s1 ns;
     Some (r # rs, s2)
   }"

text \<open>
  What the layers above the heap rely on. \<open>rep k s a\<close> says that the state \<open>s\<close> represents
  the next-fit state \<open>a\<close> and that the C allocator can serve \<open>k\<close> more requests; one
  allocation on the heap makes at most three.
\<close>

locale next_fit_heap =
  fixes alloc :: "'s \<Rightarrow> size_t \<Rightarrow> (ptr \<times> 's) option"
    and base :: "'s \<Rightarrow> ptr"
    and rep :: "nat \<Rightarrow> 's \<Rightarrow> nf_state \<Rightarrow> bool"
  assumes alloc_refines: "rep (k + 3) s a \<Longrightarrow> \<exists>s'. alloc s n =
        Some (place (base s) (fst (nf_malloc a (unat n))), s') \<and>
      rep k s' (snd (nf_malloc a (unat n))) \<and> base s' = base s"
    and rep_region: "rep k s a \<Longrightarrow>
      nf_ok a \<and> 0 < unat (base s) \<and> unat (base s) + nf_size a < 2 ^ 63"
begin

lemma place_address:
  assumes "rep k s a" and "off \<le> nf_size a"
  shows "unat (place (base s) (Some off)) = unat (base s) + off"
    and "place (base s) (Some off) \<noteq> NULL"
proof -
  note r = rep_region [OF assms(1)]
  show u: "unat (place (base s) (Some off)) = unat (base s) + off"
    using r assms(2) by (simp add: place_def unat_add_exact unat_of_nat_exact)
  with r show "place (base s) (Some off) \<noteq> NULL" by (auto dest: arg_cong [where f = unat])
qed

lemma alloc_NULL_iff:
  assumes "rep (k + 3) s a" and "alloc s n = Some (r, s')"
  shows "r = NULL \<longleftrightarrow> (\<forall>i < length (nf_lay a). nf_gap a i < unat n)"
proof -
  have ok: "nf_ok a" using rep_region [OF assms(1)] by simp
  have r: "r = place (base s) (fst (nf_malloc a (unat n)))" using alloc_refines [OF assms(1), of n] assms(2) by auto
  show ?thesis
  proof (cases "fst (nf_malloc a (unat n))")
    case None
    with r nf_malloc_None [OF ok] show ?thesis by (simp add: place_def)
  next
    case (Some off)
    then have "off + unat n \<le> nf_size a" using nf_malloc_Some(1) [OF ok, of "unat n" off] by (cases "nf_malloc a (unat n)") auto
    with place_address(2) [OF assms(1), of off] r Some have "r \<noteq> NULL" by simp
    with Some nf_malloc_None [OF ok, of "unat n"] show ?thesis by simp
  qed
qed

lemma alloc_run_refines:
  assumes "rep (3 * length ns) s a"
  shows "\<exists>s'. alloc_run alloc s ns = Some (map (place (base s)) (nf_run a (map unat ns)), s')"
  using assms
proof (induction ns arbitrary: s a)
  case (Cons n ns)
  then have "rep (3 * length ns + 3) s a" by (simp add: add.commute)
  from alloc_refines [OF this, of n] obtain s1 where s1: "alloc s n =
      Some (place (base s) (fst (nf_malloc a (unat n))), s1)"
    "rep (3 * length ns) s1 (snd (nf_malloc a (unat n)))" "base s1 = base s" by blast
  from Cons.IH [OF s1(2)] s1(1,3) show ?case by (auto split: prod.splits)
qed simp

text \<open>Two heaps in the same next-fit state place every block at the same offset.\<close>

lemma alloc_run_symmetric:
  assumes "rep (3 * length ns) s a" and "rep (3 * length ns) t a"
  shows "\<exists>offs s' t'. alloc_run alloc s ns = Some (map (place (base s)) offs, s') \<and>
    alloc_run alloc t ns = Some (map (place (base t)) offs, t')"
  using alloc_run_refines [OF assms(1)] alloc_run_refines [OF assms(2)] by blast

lemma alloc_run_disjoint:
  assumes rep: "rep (3 * length ns) s a" and run: "alloc_run alloc s ns = Some (rs, s')"
    and ij: "i < j" "j < length ns" and ok: "rs ! i \<noteq> NULL" "rs ! j \<noteq> NULL"
  shows "unat (rs ! i) + unat (ns ! i) \<le> unat (rs ! j) \<or> unat (rs ! j) + unat (ns ! j) \<le> unat (rs ! i)"
    and "unat (base s) \<le> unat (rs ! i) \<and> unat (rs ! i) + unat (ns ! i) \<le> unat (base s) + nf_size a"
proof -
  note r = rep_region [OF rep]
  have rs: "rs ! k = place (base s) (nf_run a (map unat ns) ! k)" if "k < length ns" for k
    using alloc_run_refines [OF rep] run that by auto
  obtain off off' where o: "nf_run a (map unat ns) ! i = Some off" "nf_run a (map unat ns) ! j = Some off'"
    using ok rs ij by (auto simp: place_def split: option.splits)
  from r have "nf_lay a \<noteq> []" by (simp add: nf_ok_def)
  then obtain x where "x \<in> set (nf_lay a)" by (cases "nf_lay a") auto
  then have b: "off + unat (ns ! i) \<le> nf_size a" "off' + unat (ns ! j) \<le> nf_size a"
    using nf_run_apart_old [of a i "map unat ns" off x] nf_run_apart_old [of a j "map unat ns" off' x]
      r o ij by simp_all
  then have u: "unat (rs ! i) = unat (base s) + off" "unat (rs ! j) = unat (base s) + off'"
    using place_address(1) [OF rep] rs ij o by simp_all
  have "apart (off, unat (ns ! i)) (off', unat (ns ! j))"
    using nf_run_apart [of a i j "map unat ns" off off'] r o ij by simp
  with u show "unat (rs ! i) + unat (ns ! i) \<le> unat (rs ! j) \<or> unat (rs ! j) + unat (ns ! j) \<le> unat (rs ! i)"
    by (auto simp: apart_def nf_end_def)
  show "unat (base s) \<le> unat (rs ! i) \<and> unat (rs ! i) + unat (ns ! i) \<le> unat (base s) + nf_size a"
    using u b by simp
qed

end

end
