(* ===== verification/Heap_Block.thy ===== *)
theory Heap_Block
  imports Hashmap Next_Fit
begin

text \<open>
  \<open>memory/heap.c\<close>: the allocator of the symmetric heap. The allocated blocks form a
  singly linked list in address order that starts at \<open>tail\<close>, a dummy block of size 0 at
  the start of the region; \<open>head\<close> is the block allocated last and \<open>block_map\<close> the hash
  table of \<open>Hashmap\<close>.

  The theory defines the operations over the C store and proves that \<open>heap_malloc\<close>
  implements the next-fit specification of \<open>Next_Fit\<close>, on every state in which the block
  list is well formed and the hash table holds only blocks that have a successor.
\<close>

section \<open>Definitions\<close>

text \<open>\<open>struct heap_t\<close>.\<close>

record heap_t =
  h_ptr :: ptr
  h_head :: ptr
  h_tail :: ptr
  h_block_map :: hashmap_t
  h_size :: size_t

definition NUM_BUCKETS :: c_int where
  "NUM_BUCKETS = 1023"

definition upd_block :: "cmem \<Rightarrow> ptr \<Rightarrow> (block_t \<Rightarrow> block_t) \<Rightarrow> cmem option" where
  "upd_block st p f = do { b \<leftarrow> blk st p; put_block st p (f b) }"

definition BLOCK_END :: "block_t \<Rightarrow> ptr" where
  "BLOCK_END a = b_ptr a + b_size a"

text \<open>\<open>BLOCK_GAP(a,b)\<close>, where \<open>BLOCK_END(b)\<close> is taken of the heap.\<close>

definition BLOCK_GAP :: "cmem \<Rightarrow> ptr \<Rightarrow> heap_t \<Rightarrow> size_t option" where
  "BLOCK_GAP st a h = do {
     b \<leftarrow> blk st a;
     if b_next b = NULL then Some (h_ptr h + h_size h - BLOCK_END b)
     else do { nx \<leftarrow> blk st (b_next b); Some (b_ptr nx - BLOCK_END b) }
   }"

definition NEXT_BLOCK :: "cmem \<Rightarrow> ptr \<Rightarrow> heap_t \<Rightarrow> ptr option" where
  "NEXT_BLOCK st a h = do {
     b \<leftarrow> blk st a;
     Some (if b_next b = NULL then h_tail h else b_next b)
   }"

text \<open>The dummy block's \<open>next\<close> is not assigned: it keeps the bytes found at its address.\<close>

definition heap_init :: "ptr \<Rightarrow> size_t \<Rightarrow> cmem \<Rightarrow> (heap_t \<times> cmem) option" where
  "heap_init region sz st = do {
     let (t, st1) = malloc_block st;
     st2 \<leftarrow> upd_block st1 t (\<lambda>b. b\<lparr>b_ptr := region, b_size := 0\<rparr>);
     Some (\<lparr>h_ptr = region, h_head = t, h_tail = t,
            h_block_map = hashmap_init NUM_BUCKETS, h_size = sz\<rparr>, st2)
   }"

text \<open>\<open>heap_finalize\<close> follows the list from \<open>head\<close> and frees each block.\<close>

partial_function (option) heap_finalize_loop :: "cmem \<Rightarrow> ptr \<Rightarrow> cmem option" where
  "heap_finalize_loop st block =
     (if block = NULL then Some st
      else do {
        b \<leftarrow> blk st block;
        heap_finalize_loop (free_block st block) (b_next b)
      })"

definition heap_finalize :: "heap_t \<Rightarrow> cmem \<Rightarrow> cmem option" where
  "heap_finalize h st = heap_finalize_loop st (h_head h)"

text \<open>
  The search loop of \<open>heap_malloc\<close>: the block to insert after, or \<open>NULL\<close> when the walk
  came back to \<open>heap->head\<close>.
\<close>

partial_function (option) heap_search :: "heap_t \<Rightarrow> cmem \<Rightarrow> size_t \<Rightarrow> ptr \<Rightarrow> ptr option" where
  "heap_search h st bytes head = do {
     gap \<leftarrow> BLOCK_GAP st head h;
     if gap < bytes then do {
       head' \<leftarrow> NEXT_BLOCK st head h;
       if head' = h_head h then Some NULL else heap_search h st bytes head'
     }
     else Some head
   }"

declare heap_finalize_loop.simps [code] heap_search.simps [code]

definition heap_malloc :: "heap_t \<Rightarrow> cmem \<Rightarrow> size_t \<Rightarrow> (ptr \<times> heap_t \<times> cmem) option" where
  "heap_malloc h st bytes = do {
     let (block, st1) = malloc_block st;
     st2 \<leftarrow> upd_block st1 block (\<lambda>b. b\<lparr>b_size := bytes\<rparr>);
     head \<leftarrow> heap_search h st2 bytes (h_head h);
     if head = NULL then Some (NULL, h, st2)
     else do {
       hb \<leftarrow> blk st2 head;
       (m1, st3) \<leftarrow> (if b_next hb \<noteq> NULL
                     then hashmap_set (h_block_map h) st2 (b_next hb) block
                     else Some (h_block_map h, st2));
       hb \<leftarrow> blk st3 head;
       st4 \<leftarrow> upd_block st3 block (\<lambda>b. b\<lparr>b_ptr := BLOCK_END hb, b_next := b_next hb\<rparr>);
       st5 \<leftarrow> upd_block st4 head (\<lambda>b. b\<lparr>b_next := block\<rparr>);
       new \<leftarrow> blk st5 block;
       (m2, st6) \<leftarrow> hashmap_set m1 st5 (b_ptr new) head;
       new \<leftarrow> blk st6 block;
       Some (b_ptr new, h\<lparr>h_block_map := m2, h_head := block\<rparr>, st6)
     }
   }"

definition heap_free :: "heap_t \<Rightarrow> cmem \<Rightarrow> ptr \<Rightarrow> (heap_t \<times> cmem) option" where
  "heap_free h st p = do {
     (block, m, st1) \<leftarrow> hashmap_remove (h_block_map h) st p;
     if block = NULL then Some (h\<lparr>h_block_map := m\<rparr>, st1)
     else do {
       b \<leftarrow> blk st1 block;
       let freed = b_next b;
       f \<leftarrow> blk st1 freed;
       st2 \<leftarrow> upd_block st1 block (\<lambda>b. b\<lparr>b_next := b_next f\<rparr>);
       f \<leftarrow> blk st2 freed;
       Some (h\<lparr>h_block_map := m, h_head := (if b_next f = NULL then h_tail h else b_next f)\<rparr>,
             free_block st2 freed)
     }
   }"

definition heap_offset :: "heap_t \<Rightarrow> ptr \<Rightarrow> size_t" where
  "heap_offset h p = p - h_ptr h"

section \<open>The block list represents a next-fit state\<close>

definition blk_rep :: "cmem \<Rightarrow> ptr \<Rightarrow> ptr \<Rightarrow> nat \<times> nat \<Rightarrow> bool" where
  "blk_rep st base p x \<longleftrightarrow>
     (\<exists>b. blocks st p = Some b \<and> b_ptr b = base + of_nat (fst x) \<and> b_size b = of_nat (snd x))"

definition heap_inv :: "heap_t \<Rightarrow> cmem \<Rightarrow> ptr list \<Rightarrow> nf_state \<Rightarrow> bool" where
  "heap_inv h st ps a \<longleftrightarrow>
     linked (bnext st) (h_tail h) ps \<and> list_all2 (blk_rep st (h_ptr h)) ps (nf_lay a) \<and>
     h_head h = ps ! nf_cur a \<and> h_size h = of_nat (nf_size a) \<and> nf_ok a \<and>
     (\<forall>p \<in> set ps. user_ptr p) \<and>
     0 < unat (h_ptr h) \<and> unat (h_ptr h) + nf_size a < 2 ^ 63"

text \<open>The blocks of the list that have a successor: those the hash table may hold.\<close>

definition linkers :: "cmem \<Rightarrow> ptr list \<Rightarrow> ptr set" where
  "linkers st ps = {p \<in> set ps. bnext st p \<noteq> Some NULL}"

lemma heap_inv_length: "heap_inv h st ps a \<Longrightarrow> length ps = length (nf_lay a)"
  by (auto simp: heap_inv_def dest: list_all2_lengthD)

lemma heap_inv_frame:
  assumes "\<And>p. p \<in> set ps \<Longrightarrow> blocks st' p = blocks st p"
  shows "heap_inv h st' ps a = heap_inv h st ps a"
proof -
  have "linked (bnext st') (h_tail h) ps = linked (bnext st) (h_tail h) ps"
    using assms by (intro linked_cong) (simp add: bnext_def)
  moreover have "list_all2 (blk_rep st' (h_ptr h)) ps xs = list_all2 (blk_rep st (h_ptr h)) ps xs" for xs
    using assms by (auto simp: list_all2_conv_all_nth blk_rep_def)
  ultimately show ?thesis by (simp add: heap_inv_def)
qed

lemma linkers_frame:
  "(\<And>p. p \<in> set ps \<Longrightarrow> blocks st' p = blocks st p) \<Longrightarrow> linkers st' ps = linkers st ps"
  by (auto simp: linkers_def bnext_def)

text \<open>Every block of the list with a successor can be asked for its key.\<close>

lemma linkers_key:
  assumes "linked (bnext st) t ps" and "p \<in> linkers st ps"
  shows "key_of st p \<noteq> None"
proof -
  obtain i where i: "i < length ps" "ps ! i = p"
    using assms(2) by (auto simp: linkers_def in_set_conv_nth)
  note n = linked_nth [OF assms(1) i(1)]
  with assms(2) i have s: "Suc i < length ps" by (auto simp: linkers_def split: if_splits)
  obtain b where b: "blocks st p = Some b" "b_next b = ps ! Suc i"
    using n i s by (auto simp: bnext_Some)
  have "blocks st (ps ! Suc i) \<noteq> None"
    using linked_in_dom [OF assms(1), of "ps ! Suc i"] s by (auto simp: bnext_def)
  moreover have "p \<noteq> NULL" "ps ! Suc i \<noteq> NULL"
    using linked_not_NULL [OF assms(1)] i s by (metis nth_mem)+
  ultimately show ?thesis using b by (auto simp: key_of_def blk_def)
qed

section \<open>The search\<close>

text \<open>A block of the list, its address range and the gap after it, as numbers.\<close>

lemma heap_inv_nth:
  assumes inv: "heap_inv h st ps a" and i: "i < length ps"
  obtains b where "blocks st (ps ! i) = Some b" "blk st (ps ! i) = Some b"
    "b_ptr b = h_ptr h + of_nat (fst (nf_lay a ! i))"
    "BLOCK_END b = h_ptr h + of_nat (nf_end (nf_lay a ! i))"
    "b_next b = (if Suc i < length ps then ps ! Suc i else NULL)"
    "nf_end (nf_lay a ! i) \<le> nf_size a"
proof -
  from inv i have "blk_rep st (h_ptr h) (ps ! i) (nf_lay a ! i)"
    by (auto simp: heap_inv_def list_all2_conv_all_nth)
  then obtain b where b: "blocks st (ps ! i) = Some b"
    "b_ptr b = h_ptr h + of_nat (fst (nf_lay a ! i))" "b_size b = of_nat (snd (nf_lay a ! i))"
    by (auto simp: blk_rep_def)
  have l: "linked (bnext st) (h_tail h) ps" using inv by (simp add: heap_inv_def)
  from linked_nth [OF l i] b(1) have n: "b_next b = (if Suc i < length ps then ps ! Suc i else NULL)"
    by (auto simp: bnext_def)
  have "ps ! i \<noteq> NULL" using linked_not_NULL [OF l] i by (metis nth_mem)
  moreover have "nf_end (nf_lay a ! i) \<le> nf_size a"
    using inv i heap_inv_length [OF inv] fits_bound [of 0 "nf_size a" "nf_lay a" "nf_lay a ! i"]
    by (auto simp: heap_inv_def nf_ok_def)
  ultimately show thesis
    using that [of b] b n by (simp add: blk_def BLOCK_END_def nf_end_def)
qed

lemma BLOCK_GAP_nth:
  assumes inv: "heap_inv h st ps a" and i: "i < length ps"
  shows "\<exists>g. BLOCK_GAP st (ps ! i) h = Some g \<and> unat g = nf_gap a i"
proof -
  obtain b where b: "blk st (ps ! i) = Some b"
    "BLOCK_END b = h_ptr h + of_nat (nf_end (nf_lay a ! i))"
    "b_next b = (if Suc i < length ps then ps ! Suc i else NULL)"
    "nf_end (nf_lay a ! i) \<le> nf_size a" by (rule heap_inv_nth [OF inv i])
  let ?e = "nf_end (nf_lay a ! i)"
  have len: "length ps = length (nf_lay a)" using heap_inv_length [OF inv] .
  have sz: "nf_size a < 2 ^ 63" and hs: "h_size h = of_nat (nf_size a)"
    using inv by (auto simp: heap_inv_def)
  have e: "?e \<le> (if Suc i < length ps then fst (nf_lay a ! Suc i) else nf_size a)"
    using fits_nth_end [of 0 "nf_size a" "nf_lay a" i] inv i len by (simp add: heap_inv_def nf_ok_def)
  have w: "unat (of_nat x - of_nat ?e :: size_t) = x - ?e" if "?e \<le> x" "x \<le> nf_size a" for x
  proof -
    have "(of_nat x - of_nat ?e :: size_t) = of_nat (x - ?e)" using that by (simp add: of_nat_diff)
    moreover have "unat (of_nat (x - ?e) :: size_t) = x - ?e"
      using that sz by (intro unat_of_nat_exact) simp
    ultimately show ?thesis by (simp only:)
  qed
  show ?thesis
  proof (cases "Suc i < length ps")
    case True
    obtain c where c: "blk st (ps ! Suc i) = Some c"
      "b_ptr c = h_ptr h + of_nat (fst (nf_lay a ! Suc i))"
      "nf_end (nf_lay a ! Suc i) \<le> nf_size a" by (rule heap_inv_nth [OF inv True])
    have "ps ! Suc i \<noteq> NULL" using c(1) by (auto simp: blk_NULL)
    with b c True w [of "fst (nf_lay a ! Suc i)"] e len show ?thesis
      by (simp add: BLOCK_GAP_def nf_gap_def nf_end_def)
  next
    case False
    with b w [of "nf_size a"] hs len show ?thesis by (simp add: BLOCK_GAP_def nf_gap_def)
  qed
qed

lemma NEXT_BLOCK_nth:
  assumes inv: "heap_inv h st ps a" and i: "i < length ps"
  shows "NEXT_BLOCK st (ps ! i) h = Some (if Suc i < length ps then ps ! Suc i else ps ! 0)"
proof -
  obtain b where b: "blk st (ps ! i) = Some b"
    "b_next b = (if Suc i < length ps then ps ! Suc i else NULL)" by (rule heap_inv_nth [OF inv i])
  have l: "linked (bnext st) (h_tail h) ps" using inv by (simp add: heap_inv_def)
  have "h_tail h = ps ! 0" using linked_hd [OF l] i by (cases ps) auto
  moreover have "ps ! Suc i \<noteq> NULL" if "Suc i < length ps"
    using linked_not_NULL [OF l] that by (metis nth_mem)
  ultimately show ?thesis using b by (auto simp: NEXT_BLOCK_def)
qed

text \<open>A walk that visits \<open>x # xs\<close> and would then be back at \<open>h\<close>.\<close>

primrec round_trip :: "(ptr \<Rightarrow> ptr option) \<Rightarrow> ptr \<Rightarrow> ptr \<Rightarrow> ptr list \<Rightarrow> bool" where
  "round_trip nx h x [] \<longleftrightarrow> nx x = Some h"
| "round_trip nx h x (y # ys) \<longleftrightarrow> nx x = Some y \<and> y \<noteq> h \<and> round_trip nx h y ys"

lemma heap_search_round_trip:
  assumes "round_trip (\<lambda>x. NEXT_BLOCK st x h) (h_head h) x xs"
    and "\<And>y. y \<in> set (x # xs) \<Longrightarrow> BLOCK_GAP st y h = Some (g y)"
  shows "heap_search h st n x = Some (first_or_NULL (find (\<lambda>y. n \<le> g y) (x # xs)))"
  using assms
proof (induction xs arbitrary: x)
  case Nil
  then show ?case
    by (subst heap_search.simps) (auto simp: first_or_NULL_def not_le)
next
  case (Cons y ys)
  then show ?case
    by (subst heap_search.simps) (auto simp: first_or_NULL_def not_le)
qed

lemma round_trip_upto:
  assumes inv: "heap_inv h st ps a" and "i < nf_cur a"
  shows "round_trip (\<lambda>x. NEXT_BLOCK st x h) (h_head h) (ps ! i) (map ((!) ps) [Suc i ..< nf_cur a])"
  using assms(2)
proof (induction "nf_cur a - i" arbitrary: i)
  case (Suc k)
  have c: "nf_cur a < length ps" "h_head h = ps ! nf_cur a" "distinct ps"
    using inv heap_inv_length [OF inv] linked_distinct by (auto simp: heap_inv_def nf_ok_def)
  note nx = NEXT_BLOCK_nth [OF inv, of i]
  show ?case
  proof (cases "Suc i = nf_cur a")
    case True
    with nx c Suc.prems show ?thesis by simp
  next
    case False
    with Suc.prems have "Suc i < nf_cur a" by simp
    moreover have "ps ! Suc i \<noteq> ps ! nf_cur a" using c False Suc.prems by (simp add: nth_eq_iff_index_eq)
    ultimately show ?thesis using Suc.hyps nx c by (simp add: upt_conv_Cons)
  qed
qed simp

lemma round_trip_from:
  assumes inv: "heap_inv h st ps a" and "nf_cur a \<le> i" and "i < length ps"
  shows "round_trip (\<lambda>x. NEXT_BLOCK st x h) (h_head h) (ps ! i)
    (map ((!) ps) ([Suc i ..< length ps] @ [0 ..< nf_cur a]))"
  using assms(2,3)
proof (induction "length ps - i" arbitrary: i)
  case (Suc k)
  have c: "nf_cur a < length ps" "h_head h = ps ! nf_cur a" "distinct ps"
    using inv heap_inv_length [OF inv] linked_distinct by (auto simp: heap_inv_def nf_ok_def)
  note nx = NEXT_BLOCK_nth [OF inv Suc.prems(2)]
  show ?case
  proof (cases "Suc i < length ps")
    case True
    moreover have "ps ! Suc i \<noteq> ps ! nf_cur a"
      using c True Suc.prems(1) by (simp add: nth_eq_iff_index_eq)
    ultimately show ?thesis using Suc nx c by (simp add: upt_conv_Cons)
  next
    case False
    show ?thesis
    proof (cases "nf_cur a = 0")
      case True
      with False nx c show ?thesis by simp
    next
      case c0: False
      then have "ps ! 0 \<noteq> ps ! nf_cur a" using c nth_eq_iff_index_eq [of ps 0 "nf_cur a"] by (cases ps) auto
      with False nx c c0 round_trip_upto [OF inv, of 0] show ?thesis by (simp add: upt_conv_Cons)
    qed
  qed
qed simp

text \<open>The search returns, and finds the block that the specification picks.\<close>

lemma heap_search_picks:
  assumes inv: "heap_inv h st ps a"
  shows "heap_search h st n (h_head h) =
    Some (case nf_pick a (unat n) of None \<Rightarrow> NULL | Some i \<Rightarrow> ps ! i)"
proof -
  have c: "nf_cur a < length ps" "h_head h = ps ! nf_cur a" and len: "length (nf_lay a) = length ps"
    using inv heap_inv_length [OF inv] by (auto simp: heap_inv_def nf_ok_def)
  define rest where "rest = [Suc (nf_cur a) ..< length ps] @ [0 ..< nf_cur a]"
  have order: "nf_order a = nf_cur a # rest"
    using c(1) len by (simp add: nf_order_def rest_def upt_conv_Cons)
  define g where "g p = the (BLOCK_GAP st p h)" for p
  have g: "BLOCK_GAP st (ps ! i) h = Some (g (ps ! i))" "unat (g (ps ! i)) = nf_gap a i"
    if "i < length ps" for i
    using BLOCK_GAP_nth [OF inv that] by (auto simp: g_def)
  have inb: "i < length ps" if "i \<in> set (nf_order a)" for i
    using that set_nf_order [of a] c(1) len by auto
  have "heap_search h st n (ps ! nf_cur a) =
      Some (first_or_NULL (find (\<lambda>y. n \<le> g y) (ps ! nf_cur a # map ((!) ps) rest)))"
  proof (rule heap_search_round_trip)
    show "round_trip (\<lambda>x. NEXT_BLOCK st x h) (h_head h) (ps ! nf_cur a) (map ((!) ps) rest)"
      using round_trip_from [OF inv order_refl c(1)] by (simp add: rest_def)
    show "BLOCK_GAP st y h = Some (g y)" if "y \<in> set (ps ! nf_cur a # map ((!) ps) rest)" for y
      using that g(1) inb order by auto
  qed
  also have "ps ! nf_cur a # map ((!) ps) rest = map ((!) ps) (nf_order a)" by (simp add: order)
  also have "find (\<lambda>y. n \<le> g y) (map ((!) ps) (nf_order a)) =
      map_option ((!) ps) (find (\<lambda>i. n \<le> g (ps ! i)) (nf_order a))" by (rule find_map_eq)
  also have "find (\<lambda>i. n \<le> g (ps ! i)) (nf_order a) = nf_pick a (unat n)"
    unfolding nf_pick_def by (rule find_cong) (simp add: word_le_nat_alt g(2) inb)
  finally show ?thesis using c(2) by (auto simp: first_or_NULL_def split: option.splits)
qed

section \<open>Allocation\<close>

lemma upd_block_Some:
  "blk st p = Some b \<Longrightarrow> upd_block st p f = Some (st\<lparr>blocks := (blocks st)(p \<mapsto> f b)\<rparr>)"
  by (simp add: upd_block_def put_block_def)

text \<open>The state of the heap as the clients see it.\<close>

definition heap_rep :: "nat \<Rightarrow> heap_t \<times> cmem \<Rightarrow> nf_state \<Rightarrow> bool" where
  "heap_rep k s a \<longleftrightarrow> (\<exists>ps. heap_inv (fst s) (snd s) ps a \<and>
     hm_holds (h_block_map (fst s)) (snd s) (linkers (snd s) ps) \<and> room (snd s) k)"

lemma heap_rep_mono: "heap_rep k s a \<Longrightarrow> j \<le> k \<Longrightarrow> heap_rep j s a"
  by (auto simp: heap_rep_def intro: room_mono)

text \<open>Linking the new block in: the pointer surgery, on the list and on the layout.\<close>

lemma heap_inv_insert:
  assumes inv: "heap_inv h st ps a" and i: "i < length ps" and n: "n \<le> nf_gap a i"
    and p: "user_ptr p" "p \<notin> set ps" and hb: "blocks st (ps ! i) = Some hb"
    and new: "b_ptr b = BLOCK_END hb" "b_size b = of_nat n" "b_next b = b_next hb"
    and st': "blocks st' = (blocks st)(p \<mapsto> b, ps ! i \<mapsto> hb\<lparr>b_next := p\<rparr>)"
    and h': "h_ptr h' = h_ptr h" "h_tail h' = h_tail h" "h_head h' = p" "h_size h' = h_size h"
  shows "heap_inv h' st' (take (Suc i) ps @ p # drop (Suc i) ps) (nf_insert a i n)"
    (is "heap_inv h' st' ?ps ?a")
proof -
  let ?x = "(nf_end (nf_lay a ! i), n)"
  have len: "length (nf_lay a) = length ps" using heap_inv_length [OF inv] by simp
  have l: "linked (bnext st) (h_tail h) ps" and ok: "nf_ok a" using inv by (auto simp: heap_inv_def)
  have s: "ps = take i ps @ ps ! i # drop (Suc i) ps" using i by (simp add: id_take_nth_drop)
  have ps': "?ps = take i ps @ ps ! i # p # drop (Suc i) ps" using i by (simp add: take_Suc_conv_app_nth)
  have nb: "bnext st' = (bnext st)(p \<mapsto> b_next hb, ps ! i \<mapsto> p)"
    using st' new(3) by (auto simp: bnext_def fun_eq_iff)
  have "linked (bnext st) (h_tail h) (take i ps @ ps ! i # drop (Suc i) ps)"
    and "p \<notin> set (take i ps @ ps ! i # drop (Suc i) ps)" using l p(2) s by metis+
  then have "linked (bnext st') (h_tail h) ?ps"
    unfolding ps' nb by (rule linked_insert_after) (use p hb in \<open>simp_all add: bnext_def\<close>)
  moreover have old: "blk_rep st' (h_ptr h) q x" if "q \<in> set ps" "blk_rep st (h_ptr h) q x" for q x
    using that p(2) hb st' by (auto simp: blk_rep_def)
  have "list_all2 (blk_rep st' (h_ptr h)) ps (nf_lay a)"
    using inv old by (auto simp: heap_inv_def list_all2_conv_all_nth)
  then have "list_all2 (blk_rep st' (h_ptr h)) (take (Suc i) ps) (take (Suc i) (nf_lay a))"
    and "list_all2 (blk_rep st' (h_ptr h)) (drop (Suc i) ps) (drop (Suc i) (nf_lay a))"
    by (rule list_all2_takeI, rule list_all2_dropI)
  moreover obtain hb' where "blocks st (ps ! i) = Some hb'"
    "BLOCK_END hb' = h_ptr h + of_nat (nf_end (nf_lay a ! i))" by (rule heap_inv_nth [OF inv i])
  with hb have "BLOCK_END hb = h_ptr h + of_nat (nf_end (nf_lay a ! i))" by simp
  then have "blk_rep st' (h_ptr h) p ?x"
    using st' new p(2) i by (auto simp: blk_rep_def)
  ultimately have "list_all2 (blk_rep st' (h_ptr h)) ?ps (nf_lay ?a)"
    by (simp add: nf_insert_def list_all2_appendI)
  moreover have "nf_ok ?a" using nf_insert_fits [OF ok _ n] i len by simp
  moreover have "?ps ! Suc i = p" using i by (simp add: nth_append)
  moreover have "\<forall>q \<in> set ?ps. user_ptr q"
    using inv p(1) by (auto simp: heap_inv_def dest: in_set_takeD in_set_dropD)
  ultimately show ?thesis
    using inv h' \<open>linked (bnext st') (h_tail h) ?ps\<close> by (simp add: heap_inv_def nf_insert_def)
qed

lemma linkers_insert:
  assumes l: "linked (bnext st) t ps" and i: "i < length ps" and p: "p \<noteq> NULL" "p \<notin> set ps"
    and hb: "blocks st (ps ! i) = Some hb" and new: "b_next b = b_next hb"
    and st': "blocks st' = (blocks st)(p \<mapsto> b, ps ! i \<mapsto> hb\<lparr>b_next := p\<rparr>)"
  shows "insert (ps ! i) (if b_next hb \<noteq> NULL then insert p (linkers st ps) else linkers st ps)
    \<subseteq> linkers st' (take (Suc i) ps @ p # drop (Suc i) ps)"
proof -
  have t: "x \<in> set (take (Suc i) ps) \<or> x \<in> set (drop (Suc i) ps)" if "x \<in> set ps" for x
    using that by (metis Un_iff append_take_drop_id set_append)
  have "ps ! i \<in> set ps" using i by simp
  with p hb new st' show ?thesis by (auto simp: linkers_def bnext_def dest: t)
qed

text \<open>When the search finds no gap, the heap is as before (and the new \<open>block_t\<close> is lost).\<close>

text \<open>The first steps of \<open>heap_malloc\<close>: a new \<open>block_t\<close>, not yet in the list.\<close>

lemma heap_malloc_new:
  assumes inv: "heap_inv h st ps a" and holds: "hm_holds (h_block_map h) st (linkers st ps)"
    and room: "room st (k + 3)"
  obtains p st1 b st2 where "malloc_block st = (p, st1)"
    "upd_block st1 p (\<lambda>b. b\<lparr>b_size := n\<rparr>) = Some st2" "user_ptr p" "p \<notin> set ps"
    "blocks st2 = (blocks st)(p \<mapsto> b)" "b_size b = n"
    "heap_inv h st2 ps a" "hm_holds (h_block_map h) st2 (linkers st2 ps)" "room st2 (k + 2)"
proof -
  from room have "room st (Suc (k + 2))" by (simp add: eval_nat_numeral)
  then obtain p junk st1 where m: "malloc_block st = (p, st1)" "fresh st p" "room st1 (k + 2)"
    "blocks st1 = (blocks st)(p \<mapsto> junk)" "nodes st1 = nodes st"
    using malloc_block_room by blast
  let ?b = "junk\<lparr>b_size := n\<rparr>"
  let ?st = "st1\<lparr>blocks := (blocks st1)(p \<mapsto> ?b)\<rparr>"
  have p: "user_ptr p" "p \<noteq> NULL" "blocks st p = None" using m(2) by (auto simp: fresh_def)
  have u: "upd_block st1 p (\<lambda>b. b\<lparr>b_size := n\<rparr>) = Some ?st"
    using m(4) p by (subst upd_block_Some [of _ _ junk]) (simp_all add: blk_def)
  have l: "linked (bnext st) (h_tail h) ps" using inv by (simp add: heap_inv_def)
  have ps: "p \<notin> set ps" using linked_in_dom [OF l, of p] p(3) by (auto simp: bnext_def)
  have eq: "blocks ?st q = blocks st q" if "q \<in> set ps" for q using that ps m(4) by auto
  have "room ?st (k + 2)" using m(3,4) by (subst room_cong) auto
  moreover have "hm_holds (h_block_map h) ?st (linkers ?st ps)"
    using index.holds_frame [of ?st st] holds m(5) linkers_frame [OF eq] by simp
  ultimately show thesis
    using that [OF m(1) u p(1) ps, of ?b] m(4) heap_inv_frame [OF eq] inv by simp
qed

lemma heap_malloc_full:
  assumes inv: "heap_inv h st ps a" and holds: "hm_holds (h_block_map h) st (linkers st ps)"
    and room: "room st (k + 3)" and full: "nf_pick a (unat n) = None"
  shows "\<exists>st'. heap_malloc h st n = Some (NULL, h, st') \<and> heap_rep k (h, st') a"
proof -
  obtain p st1 b st2 where s: "malloc_block st = (p, st1)"
    "upd_block st1 p (\<lambda>b. b\<lparr>b_size := n\<rparr>) = Some st2" "user_ptr p" "p \<notin> set ps"
    "blocks st2 = (blocks st)(p \<mapsto> b)" "b_size b = n"
    "heap_inv h st2 ps a" "hm_holds (h_block_map h) st2 (linkers st2 ps)" "room st2 (k + 2)"
    by (rule heap_malloc_new [OF inv holds room])
  have "heap_search h st2 n (h_head h) = Some NULL" using heap_search_picks [OF s(7)] full by simp
  then have "heap_malloc h st n = Some (NULL, h, st2)" using s(1,2) by (simp add: heap_malloc_def)
  moreover have "room st2 k" using room_mono [OF s(9)] by simp
  ultimately show ?thesis using s(7,8) by (auto simp: heap_rep_def)
qed

text \<open>When it finds one, the block is linked in there and entered into the hash table.\<close>

lemma heap_malloc_fits:
  assumes inv: "heap_inv h st ps a" and holds: "hm_holds (h_block_map h) st (linkers st ps)"
    and room: "room st (k + 3)" and pick: "nf_pick a (unat n) = Some i"
  shows "\<exists>h' st'. heap_malloc h st n = Some (h_ptr h + of_nat (nf_end (nf_lay a ! i)), h', st') \<and>
    heap_rep k (h', st') (nf_insert a i (unat n)) \<and> h_ptr h' = h_ptr h"
proof -
  obtain p st1 b st2 where s: "malloc_block st = (p, st1)"
    "upd_block st1 p (\<lambda>b. b\<lparr>b_size := n\<rparr>) = Some st2" "user_ptr p" "p \<notin> set ps"
    "blocks st2 = (blocks st)(p \<mapsto> b)" "b_size b = n"
    "heap_inv h st2 ps a" "hm_holds (h_block_map h) st2 (linkers st2 ps)" "room st2 (k + 2)"
    by (rule heap_malloc_new [OF inv holds room])
  have ok: "nf_ok a" and l: "linked (bnext st2) (h_tail h) ps" using s(7) by (auto simp: heap_inv_def)
  note pk = nf_pick_Some [OF ok pick]
  then have i: "i < length ps" using heap_inv_length [OF inv] by simp
  let ?hd = "ps ! i" and ?stop = "h_ptr h + of_nat (nf_end (nf_lay a ! i))"
  obtain hb where hb: "blocks st2 ?hd = Some hb" "blk st2 ?hd = Some hb" "BLOCK_END hb = ?stop"
    "b_next hb = (if Suc i < length ps then ps ! Suc i else NULL)" "nf_end (nf_lay a ! i) \<le> nf_size a"
    by (rule heap_inv_nth [OF s(7) i])
  have hdp: "?hd \<in> set ps" "?hd \<noteq> NULL" "?hd \<noteq> p"
    using i s(4) linked_not_NULL [OF l] by (auto simp: set_conv_nth)
  have search: "heap_search h st2 n (h_head h) = Some ?hd"
    using heap_search_picks [OF s(7)] pick by simp
  have keys: "\<forall>v \<in> linkers st2 ps. key_of st2 v \<noteq> None" using linkers_key [OF l] by blast
  have nx: "b_next hb \<noteq> NULL \<longrightarrow> user_ptr (b_next hb)" using hb(4) s(7) by (auto simp: heap_inv_def)
  have "room st2 (Suc (k + 1))" using s(9) by simp
  from index.put_when [OF s(8) keys nx this, of p] obtain m1 st3 where
    t3: "(if b_next hb \<noteq> NULL then hashmap_set (h_block_map h) st2 (b_next hb) p
          else Some (h_block_map h, st2)) = Some (m1, st3)"
    "hm_holds m1 st3 (if b_next hb \<noteq> NULL then insert p (linkers st2 ps) else linkers st2 ps)"
    "blocks st3 = blocks st2" "room st3 (Suc k)" by auto
  define nb where "nb = b\<lparr>b_ptr := ?stop, b_next := b_next hb\<rparr>"
  let ?st4 = "st3\<lparr>blocks := (blocks st3)(p \<mapsto> nb)\<rparr>"
  let ?st5 = "?st4\<lparr>blocks := (blocks ?st4)(?hd \<mapsto> hb\<lparr>b_next := p\<rparr>)\<rparr>"
  let ?ps = "take (Suc i) ps @ p # drop (Suc i) ps"
  have p: "p \<noteq> NULL" using s(3) by simp
  have u4: "upd_block st3 p (\<lambda>b. b\<lparr>b_ptr := BLOCK_END hb, b_next := b_next hb\<rparr>) = Some ?st4"
    using s(5) t3(3) p hb(3) by (subst upd_block_Some [of _ _ b]) (simp_all add: blk_def nb_def)
  have u5: "upd_block ?st4 ?hd (\<lambda>b. b\<lparr>b_next := p\<rparr>) = Some ?st5"
    using hb(1) t3(3) hdp by (subst upd_block_Some [of _ _ hb]) (simp_all add: blk_def)
  have b5: "blocks ?st5 = (blocks st2)(p \<mapsto> nb, ?hd \<mapsto> hb\<lparr>b_next := p\<rparr>)" using t3(3) by simp
  have new: "b_ptr nb = BLOCK_END hb" "b_size nb = of_nat (unat n)" "b_next nb = b_next hb"
    using s(6) hb(3) by (simp_all add: nb_def)
  have inv5: "heap_inv (h\<lparr>h_block_map := m, h_head := p\<rparr>) ?st5 ?ps (nf_insert a i (unat n))" for m
    by (rule heap_inv_insert [OF s(7) i pk(2) s(3,4) hb(1) new b5]) simp_all
  have V: "insert ?hd (if b_next hb \<noteq> NULL then insert p (linkers st2 ps) else linkers st2 ps)
      \<subseteq> linkers ?st5 ?ps" by (rule linkers_insert [OF l i p s(4) hb(1) new(3) b5])
  have holds5: "hm_holds m1 ?st5 (linkers ?st5 ?ps)"
    using index.holds_mono [OF index.holds_frame [OF _ t3(2)]] V by simp
  have "linked (bnext ?st5) (h_tail h) ?ps" using inv5 by (simp add: heap_inv_def)
  then have keys5: "\<forall>v \<in> linkers ?st5 ?ps. key_of ?st5 v \<noteq> None" using linkers_key by blast
  have "unat ?stop = unat (h_ptr h) + nf_end (nf_lay a ! i)"
    using s(7) hb(5) by (simp add: heap_inv_def unat_add_exact unat_of_nat_exact)
  then have up: "user_ptr ?stop" using s(7) hb(5) by (intro user_ptrI) (auto simp: heap_inv_def)
  have "room ?st5 (Suc k)" using t3(4) s(5) t3(3) hb(1) by (subst room_cong) auto
  from index.put_holds [OF holds5 keys5 up this, of ?hd] obtain m2 st6 where
    t6: "hashmap_set m1 ?st5 ?stop ?hd = Some (m2, st6)"
    "hm_holds m2 st6 (insert ?hd (linkers ?st5 ?ps))" "blocks st6 = blocks ?st5" "room st6 k" by auto
  have blk5: "blk ?st5 p = Some nb" using hdp p by (simp add: blk_def)
  then have blk6: "blk st6 p = Some nb" using blk_cong [OF t6(3)] by simp
  have "blk st3 ?hd = Some hb" using hb(2) blk_cong [OF t3(3)] by simp
  then have "heap_malloc h st n = Some (?stop, h\<lparr>h_block_map := m2, h_head := p\<rparr>, st6)"
    using s(1,2) search hb(2,3) t3(1) u4 u5 blk5 t6(1) blk6 hdp(2)
    by (simp add: heap_malloc_def new(1))
  moreover have "heap_rep k (h\<lparr>h_block_map := m2, h_head := p\<rparr>, st6) (nf_insert a i (unat n))"
  proof -
    have eq: "blocks st6 q = blocks ?st5 q" for q using t6(3) by simp
    have "insert ?hd (linkers ?st5 ?ps) = linkers st6 ?ps" using V linkers_frame [OF eq] by blast
    with t6(2,4) inv5 [of m2] heap_inv_frame [OF eq] show ?thesis by (auto simp: heap_rep_def)
  qed
  ultimately show ?thesis
    by (intro exI [of _ "h\<lparr>h_block_map := m2, h_head := p\<rparr>"] exI [of _ st6]) simp
qed

lemma heap_malloc_step:
  assumes "heap_rep (k + 3) s a"
  shows "\<exists>s'. heap_malloc (fst s) (snd s) n =
      Some (place (h_ptr (fst s)) (fst (nf_malloc a (unat n))), s') \<and>
    heap_rep k s' (snd (nf_malloc a (unat n))) \<and> h_ptr (fst s') = h_ptr (fst s)"
proof -
  obtain h st where s: "s = (h, st)" by (cases s)
  from assms obtain ps where h: "heap_inv h st ps a" "hm_holds (h_block_map h) st (linkers st ps)"
    "room st (k + 3)" by (auto simp: heap_rep_def s)
  show ?thesis
  proof (cases "nf_pick a (unat n)")
    case None
    with heap_malloc_full [OF h None] s show ?thesis by (auto simp: nf_malloc_def place_def)
  next
    case (Some i)
    with heap_malloc_fits [OF h Some] s show ?thesis by (auto simp: nf_malloc_def place_def)
  qed
qed

interpretation heap: next_fit_heap
  "\<lambda>s. heap_malloc (fst s) (snd s)" "\<lambda>s. h_ptr (fst s)" heap_rep
proof unfold_locales
  show "nf_ok a \<and> 0 < unat (h_ptr (fst s)) \<and> unat (h_ptr (fst s)) + nf_size a < 2 ^ 63"
    if "heap_rep k s a" for k s a
    using that by (auto simp: heap_rep_def heap_inv_def)
qed (rule heap_malloc_step)

section \<open>Release\<close>

lemma list_all2_drop_one:
  "list_all2 P xs ys \<Longrightarrow> list_all2 P (take n xs @ drop (Suc n) xs) (take n ys @ drop (Suc n) ys)"
  by (intro list_all2_appendI list_all2_takeI list_all2_dropI)

text \<open>Unlinking block number \<open>i + 1\<close> from its predecessor.\<close>

lemma heap_inv_remove:
  assumes inv: "heap_inv h st ps a" and i: "Suc i < length ps"
    and b: "blocks st (ps ! i) = Some b" and f: "blocks st (ps ! Suc i) = Some f"
    and st': "blocks st' = (blocks st)(ps ! i \<mapsto> b\<lparr>b_next := b_next f\<rparr>, ps ! Suc i := None)"
    and h': "h_ptr h' = h_ptr h" "h_tail h' = h_tail h" "h_size h' = h_size h"
      "h_head h' = (if b_next f = NULL then h_tail h else b_next f)"
  shows "heap_inv h' st' (take (Suc i) ps @ drop (Suc (Suc i)) ps) (nf_remove a i)"
    (is "heap_inv h' st' ?ps ?a")
proof -
  have len: "length (nf_lay a) = length ps" using heap_inv_length [OF inv] by simp
  have l: "linked (bnext st) (h_tail h) ps" using inv by (simp add: heap_inv_def)
  have d: "distinct ps" by (rule linked_distinct [OF l])
  have s: "take i ps @ ps ! i # ps ! Suc i # drop (Suc (Suc i)) ps = ps"
    using i by (simp add: id_take_nth_drop [symmetric] Cons_nth_drop_Suc)
  have ps': "?ps = take i ps @ ps ! i # drop (Suc (Suc i)) ps"
    using i by (simp add: take_Suc_conv_app_nth)
  have "distinct (take i ps @ ps ! i # ps ! Suc i # drop (Suc (Suc i)) ps)" by (simp only: s d)
  then have notin: "ps ! Suc i \<notin> set ?ps" unfolding ps' by auto
  have "linked ((bnext st)(ps ! i \<mapsto> b_next f)) (h_tail h) ?ps"
    unfolding ps' by (rule linked_unlink [where y = "ps ! Suc i"]) (simp_all add: s l f bnext_def)
  moreover have nb: "bnext st' = ((bnext st)(ps ! i \<mapsto> b_next f))(ps ! Suc i := None)"
    using st' d i by (auto simp: bnext_def fun_eq_iff nth_eq_iff_index_eq)
  ultimately have 1: "linked (bnext st') (h_tail h) ?ps"
    using linked_frame [OF notin, of "(bnext st)(ps ! i \<mapsto> b_next f)" None "h_tail h"] by simp
  have keep: "blk_rep st' (h_ptr h) q x" if "q \<in> set ?ps" "blk_rep st (h_ptr h) q x" for q x
    using that notin b st' by (auto simp: blk_rep_def)
  have "list_all2 (blk_rep st (h_ptr h)) ?ps (nf_lay ?a)"
    using inv list_all2_drop_one [of _ ps "nf_lay a" "Suc i"] by (simp add: heap_inv_def nf_remove_def)
  then have 2: "list_all2 (blk_rep st' (h_ptr h)) ?ps (nf_lay ?a)"
    by (rule list.rel_mono_strong) (rule keep)
  have 3: "nf_ok ?a" using nf_remove_ok [of a i] inv i len by (simp add: heap_inv_def)
  have nf: "b_next f = (if Suc (Suc i) < length ps then ps ! Suc (Suc i) else NULL)"
    using linked_nth [OF l i] f by (simp add: bnext_def)
  have "h_tail h = ps ! 0" using linked_hd [OF l] i by (cases ps) auto
  moreover have "ps ! Suc (Suc i) \<noteq> NULL" if "Suc (Suc i) < length ps"
    using linked_not_NULL [OF l] that by (metis nth_mem)
  ultimately have 4: "h_head h' = ?ps ! nf_cur ?a"
    using h'(4) nf i len by (auto simp: nf_remove_def nth_append min_def)
  have "\<forall>q \<in> set ?ps. user_ptr q"
    using inv by (auto simp: heap_inv_def dest: in_set_takeD in_set_dropD)
  with 1 2 3 4 inv h' show ?thesis by (simp add: heap_inv_def nf_remove_def)
qed

text \<open>
  \<open>heap_free\<close> on a well-formed heap: either nothing is released, or some block that starts
  at the address given has its \<^emph>\<open>successor\<close> released.
\<close>

lemma heap_free_cases:
  assumes inv: "heap_inv h st ps a" and holds: "hm_holds (h_block_map h) st (linkers st ps)"
    and p: "user_ptr p"
  obtains (kept) h' st' where "heap_free h st p = Some (h', st')" "heap_inv h' st' ps a"
  | (removed) h' st' i where "heap_free h st p = Some (h', st')" "Suc i < length ps"
      "p = h_ptr h + of_nat (fst (nf_lay a ! i))" "h_ptr h' = h_ptr h"
      "heap_inv h' st' (take (Suc i) ps @ drop (Suc (Suc i)) ps) (nf_remove a i)"
proof -
  from holds obtain vss where vss: "hm_rep (h_block_map h) st vss"
    "\<forall>vs \<in> set vss. set vs \<subseteq> linkers st ps" by (auto simp: hm_holds_def)
  let ?vs = "vss ! hash_slot (h_block_map h) p" and ?P = "\<lambda>v. start_of st v = Some p"
  have sub: "set ?vs \<subseteq> linkers st ps" using vss hash_slot_in_rep [OF vss(1) p] by simp
  have "\<exists>i b. Suc i < length ps \<and> v = ps ! i \<and> blk st v = Some b \<and>
      b_ptr b = h_ptr h + of_nat (fst (nf_lay a ! i))" if v: "v \<in> linkers st ps" for v
  proof -
    obtain i where i: "i < length ps" "v = ps ! i" using v by (auto simp: linkers_def in_set_conv_nth)
    obtain b where b: "blocks st (ps ! i) = Some b" "blk st (ps ! i) = Some b"
      "b_ptr b = h_ptr h + of_nat (fst (nf_lay a ! i))"
      "b_next b = (if Suc i < length ps then ps ! Suc i else NULL)" by (rule heap_inv_nth [OF inv i(1)])
    with v i show ?thesis by (auto simp: linkers_def bnext_def split: if_splits)
  qed
  note blks = this
  then have starts: "\<forall>v \<in> set ?vs. start_of st v \<noteq> None" using sub by (force simp: start_of_def)
  obtain m st1 where r:
    "hashmap_remove (h_block_map h) st p = Some (first_or_NULL (find ?P ?vs), m, st1)"
    "blocks st1 = blocks st" by (rule hashmap_remove_rep [OF vss(1) p starts]) blast
  show thesis
  proof (cases "find ?P ?vs")
    case None
    have "heap_inv h st1 ps a" using inv heap_inv_frame [of ps st1 st h] r(2) by simp
    then have i1: "heap_inv (h\<lparr>h_block_map := m\<rparr>) st1 ps a" by (simp add: heap_inv_def)
    have "heap_free h st p = Some (h\<lparr>h_block_map := m\<rparr>, st1)"
      using None r(1) by (simp add: heap_free_def first_or_NULL_def)
    from kept [OF this i1] show thesis .
  next
    case (Some v)
    then have v: "v \<in> set ?vs" "start_of st v = Some p" using find_SomeD by fast+
    with sub blks obtain i b where i: "Suc i < length ps" "v = ps ! i" "blk st v = Some b"
      "b_ptr b = h_ptr h + of_nat (fst (nf_lay a ! i))" by blast
    obtain b' where b': "blk st (ps ! i) = Some b'" "blocks st (ps ! i) = Some b'"
      "b_next b' = (if Suc i < length ps then ps ! Suc i else NULL)"
      using i(1) by (auto intro: heap_inv_nth [OF inv, of i])
    obtain f where f: "blocks st (ps ! Suc i) = Some f" "blk st (ps ! Suc i) = Some f"
      by (rule heap_inv_nth [OF inv i(1)])
    have bb: "b' = b" using b' i by simp
    have ne: "ps ! Suc i \<noteq> ps ! i" "v \<noteq> NULL"
      using linked_distinct [of _ _ ps] inv i by (auto simp: heap_inv_def nth_eq_iff_index_eq blk_def split: if_splits)
    define st2 where "st2 = st1\<lparr>blocks := (blocks st1)(ps ! i \<mapsto> b\<lparr>b_next := b_next f\<rparr>)\<rparr>"
    let ?h = "h\<lparr>h_block_map := m, h_head := (if b_next f = NULL then h_tail h else b_next f)\<rparr>"
    have "upd_block st1 (ps ! i) (\<lambda>b. b\<lparr>b_next := b_next f\<rparr>) = Some st2"
      unfolding st2_def by (rule upd_block_Some) (use i(2,3) blk_cong [OF r(2)] in simp)
    moreover have "blk st2 (ps ! Suc i) = Some f"
      using f(2) ne(1) r(2) by (simp add: st2_def blk_def split: if_splits)
    ultimately have "heap_free h st p = Some (?h, free_block st2 (ps ! Suc i))"
      using r Some i ne b' bb f(2) blk_cong [OF r(2)]
      by (simp add: heap_free_def first_or_NULL_def)
    moreover have "heap_inv ?h (free_block st2 (ps ! Suc i))
        (take (Suc i) ps @ drop (Suc (Suc i)) ps) (nf_remove a i)"
      by (rule heap_inv_remove [OF inv i(1) b'(2) f(1)])
        (use r(2) bb in \<open>simp_all add: st2_def free_block_simps\<close>)
    moreover have "p = h_ptr h + of_nat (fst (nf_lay a ! i))" using v(2) i by (simp add: start_of_def)
    ultimately show thesis using removed i(1) by simp
  qed
qed

lemma heap_free_result:
  assumes "heap_inv h st ps a" and "hm_holds (h_block_map h) st (linkers st ps)" and "user_ptr p"
  shows "\<exists>h' st' ps' a'. heap_free h st p = Some (h', st') \<and> heap_inv h' st' ps' a' \<and>
    (a' = a \<or> (\<exists>i. Suc i < length (nf_lay a) \<and> a' = nf_remove a i \<and>
      p = h_ptr h + of_nat (fst (nf_lay a ! i))))"
proof -
  have len: "length ps = length (nf_lay a)" by (rule heap_inv_length [OF assms(1)])
  show ?thesis
    by (rule heap_free_cases [OF assms]) (use len in \<open>metis+\<close>)
qed

text \<open>A new heap, when the bytes found at its dummy block hold \<open>NULL\<close> where \<open>next\<close> lies.\<close>

lemma heap_init_wf:
  assumes ans: "answers st = (p, junk) # rest" "b_next junk = NULL" and room: "room st (k + 1)"
    and region: "0 < unat region" "unat region + unat sz < 2 ^ 63"
  shows "\<exists>h st'. heap_init region sz st = Some (h, st') \<and> h_ptr h = region \<and>
    heap_rep k (h, st') (nf_init (unat sz))"
proof -
  obtain q j st1 where m: "malloc_block st = (q, st1)" "fresh st q" "room st1 k"
    "blocks st1 = (blocks st)(q \<mapsto> j)" "nodes st1 = nodes st" "answers st = (q, j) # answers st1"
    using malloc_block_room [OF room [unfolded Suc_eq_plus1 [symmetric]]] by blast
  then have q: "q = p" "j = junk" using ans(1) by auto
  let ?b = "junk\<lparr>b_ptr := region, b_size := 0\<rparr>"
  let ?st = "st1\<lparr>blocks := (blocks st1)(p \<mapsto> ?b)\<rparr>"
  let ?h = "\<lparr>h_ptr = region, h_head = p, h_tail = p,
    h_block_map = hashmap_init NUM_BUCKETS, h_size = sz\<rparr>"
  have p: "user_ptr p" "p \<noteq> NULL" using m(2) q by (auto simp: fresh_def)
  have "upd_block st1 p (\<lambda>b. b\<lparr>b_ptr := region, b_size := 0\<rparr>) = Some ?st"
    using m(4) p q by (subst upd_block_Some [of _ _ junk]) (simp_all add: blk_def)
  then have init: "heap_init region sz st = Some (?h, ?st)" using m(1) q by (simp add: heap_init_def)
  have "heap_inv ?h ?st [p] (nf_init (unat sz))"
    using p ans(2) region nf_ok_init [of "unat sz"]
    by (simp add: heap_inv_def nf_init_def bnext_def blk_rep_def)
  moreover have "hm_holds (hashmap_init NUM_BUCKETS) ?st (linkers ?st [p])"
    using hm_rep_init [of NUM_BUCKETS ?st] by (auto simp: hm_holds_def NUM_BUCKETS_def)
  moreover have "room ?st k" using m(3,4) q by (subst room_cong) auto
  ultimately have "heap_rep k (?h, ?st) (nf_init (unat sz))" by (auto simp: heap_rep_def)
  with init show ?thesis by auto
qed


text \<open>
  The heap that the properties are evaluated on: a region of 1024 bytes at 4096, and the
  heaps that one and two allocations leave.
\<close>

lemma demo_heap:
  assumes "unat region = 4096 \<or> unat region = 8192"
  obtains h st where "heap_init region 1024 demo_mem = Some (h, st)" "h_ptr h = region"
    "heap_rep 9 (h, st) (nf_init 1024)"
  using heap_init_wf [OF answers_demo, of 9 region 1024] room_demo assms by auto

lemma demo_heap_two:
  obtains h st where "h_ptr h = 4096" "heap_rep 3 (h, st) \<lparr>nf_size = 1024, nf_lay = [(0, 0), (0, 16), (16, 32)], nf_cur = 2\<rparr>"
proof -
  obtain h st where 0: "h_ptr h = 4096" "heap_rep 9 (h, st) (nf_init 1024)"
    by (rule demo_heap [of 4096]) auto
  have "snd (nf_malloc (nf_init 1024) 16) = \<lparr>nf_size = 1024, nf_lay = [(0, 0), (0, 16)], nf_cur = 1\<rparr>"
    by (simp add: nf_malloc_def nf_init_def nf_pick_def nf_order_def nf_gap_def nf_end_def nf_insert_def)
  then obtain s1 where 1: "h_ptr (fst s1) = 4096"
    "heap_rep 6 s1 \<lparr>nf_size = 1024, nf_lay = [(0, 0), (0, 16)], nf_cur = 1\<rparr>"
    using heap_malloc_step [of 6 "(h, st)" "nf_init 1024" 16] 0 by auto
  have "snd (nf_malloc \<lparr>nf_size = 1024, nf_lay = [(0, 0), (0, 16)], nf_cur = 1\<rparr> 32) =
      \<lparr>nf_size = 1024, nf_lay = [(0, 0), (0, 16), (16, 32)], nf_cur = 2\<rparr>"
    by (simp add: nf_malloc_def nf_pick_def nf_order_def nf_gap_def nf_end_def nf_insert_def upt_rec)
  then obtain s2 where "h_ptr (fst s2) = 4096"
    "heap_rep 3 s2 \<lparr>nf_size = 1024, nf_lay = [(0, 0), (0, 16), (16, 32)], nf_cur = 2\<rparr>"
    using heap_malloc_step [of 3 s1 "\<lparr>nf_size = 1024, nf_lay = [(0, 0), (0, 16)], nf_cur = 1\<rparr>" 32] 1
    by auto
  then show thesis using that [of "fst s2" "snd s2"] by simp
qed

text \<open>
  A heap with its dummy block \<open>t\<close> only, and the heap and store after the first allocation:
  block \<open>b\<close> of \<open>n\<close> bytes at the start of the region, entered in the table by node \<open>c\<close>.
\<close>

definition heap_zero :: "ptr \<Rightarrow> size_t \<Rightarrow> ptr \<Rightarrow> heap_t" where
  "heap_zero region sz t = \<lparr>h_ptr = region, h_head = t, h_tail = t,
     h_block_map = hashmap_init NUM_BUCKETS, h_size = sz\<rparr>"

definition map_one :: "ptr \<Rightarrow> ptr \<Rightarrow> hashmap_t" where
  "map_one region c = (hashmap_init NUM_BUCKETS)\<lparr>buckets :=
     (buckets (hashmap_init NUM_BUCKETS))[hash_slot (hashmap_init NUM_BUCKETS) region := c]\<rparr>"

definition heap_one :: "ptr \<Rightarrow> size_t \<Rightarrow> ptr \<Rightarrow> ptr \<Rightarrow> ptr \<Rightarrow> heap_t" where
  "heap_one region sz t b c = (heap_zero region sz t)\<lparr>h_block_map := map_one region c, h_head := b\<rparr>"

definition store_one :: "cmem \<Rightarrow> block_t \<Rightarrow> ptr \<Rightarrow> ptr \<Rightarrow> ptr \<Rightarrow> block_t \<Rightarrow> (ptr \<times> block_t) list \<Rightarrow> cmem" where
  "store_one st bt t b c bb rest = st\<lparr>blocks := (blocks st)(t \<mapsto> bt\<lparr>b_next := b\<rparr>, b \<mapsto> bb),
     nodes := (nodes st)(c \<mapsto> \<lparr>n_value = t, n_next = NULL\<rparr>), answers := rest\<rparr>"

lemma first_slot:
  assumes "user_ptr region"
  shows "bucket_index (hashmap_init NUM_BUCKETS) region = Some (hash_slot (hashmap_init NUM_BUCKETS) region)"
    and "hash_slot (hashmap_init NUM_BUCKETS) region < length (buckets (hashmap_init NUM_BUCKETS))"
    and "buckets (hashmap_init NUM_BUCKETS) ! hash_slot (hashmap_init NUM_BUCKETS) region = NULL"
proof -
  have "hm_chains (hashmap_init NUM_BUCKETS) demo_mem (replicate 1023 [])"
    by (auto simp: hm_chains_def hashmap_init_def NUM_BUCKETS_def list_all2_conv_all_nth)
  from bucket_index_in_table [OF this assms]
  show "bucket_index (hashmap_init NUM_BUCKETS) region = Some (hash_slot (hashmap_init NUM_BUCKETS) region)"
    and i: "hash_slot (hashmap_init NUM_BUCKETS) region < length (buckets (hashmap_init NUM_BUCKETS))"
    by auto
  show "buckets (hashmap_init NUM_BUCKETS) ! hash_slot (hashmap_init NUM_BUCKETS) region = NULL"
    using i by (simp add: hashmap_init_def)
qed

lemma heap_malloc_first:
  assumes f: "fresh st t" "fresh st b" "fresh st c" "t \<noteq> b" "t \<noteq> c" "b \<noteq> c"
    and region: "user_ptr region" and n: "n \<le> sz"
    and bt: "b_ptr bt = region" "b_size bt = 0" "b_next bt = NULL"
    and bb_def: "bb = \<lparr>b_ptr = region, b_size = n, b_next = NULL\<rparr>"
    and st0_def: "st0 = st\<lparr>blocks := (blocks st)(t \<mapsto> bt), answers := (b, jb) # (c, jc) # rest\<rparr>"
  shows "heap_malloc (heap_zero region sz t) st0 n =
    Some (region, heap_one region sz t b c, store_one st bt t b c bb rest)"
proof -
  let ?m = "hashmap_init NUM_BUCKETS" and ?i = "hash_slot (hashmap_init NUM_BUCKETS) region"
  from f have nz: "t \<noteq> NULL" "b \<noteq> NULL" "c \<noteq> NULL" "blocks st b = None" "nodes st c = None"
    by (auto simp: fresh_def)
  note i = first_slot(1,2) [OF region] and bi = first_slot(3) [OF region]
  note h0_def = heap_zero_def and h1_def = heap_one_def and m1_def = map_one_def and st1_def = store_one_def
  have bbe: "jb\<lparr>b_size := n, b_ptr := region, b_next := NULL\<rparr> = bb" by (simp add: bb_def)
  define stb where "stb = st\<lparr>blocks := (blocks st)(t \<mapsto> bt, b \<mapsto> jb\<lparr>b_size := n\<rparr>),
    answers := (c, jc) # rest\<rparr>"
  have 1: "malloc_block st0 = (b, st0\<lparr>blocks := (blocks st0)(b \<mapsto> jb), answers := (c, jc) # rest\<rparr>)"
    using f by (simp add: malloc_block_def st0_def fresh_def)
  have 2: "upd_block (st0\<lparr>blocks := (blocks st0)(b \<mapsto> jb), answers := (c, jc) # rest\<rparr>) b
      (\<lambda>b. b\<lparr>b_size := n\<rparr>) = Some stb"
    using nz by (simp add: upd_block_def put_block_def blk_def st0_def stb_def)
  have tb: "blk stb t = Some bt" using f nz by (simp add: stb_def blk_def)
  have 3: "heap_search (heap_zero region sz t) stb n t = Some t"
    using n [THEN leD] tb bt by (subst heap_search.simps) (simp add: BLOCK_GAP_def BLOCK_END_def h0_def)
  define stc where "stc = st\<lparr>blocks := (blocks st)(t \<mapsto> bt\<lparr>b_next := b\<rparr>, b \<mapsto> bb),
    answers := (c, jc) # rest\<rparr>"
  have 4: "upd_block stb b (\<lambda>x. x\<lparr>b_ptr := BLOCK_END bt, b_next := b_next bt\<rparr>) =
      Some (stb\<lparr>blocks := (blocks stb)(b \<mapsto> bb)\<rparr>)"
    using nz bt by (subst upd_block_Some [of _ _ "jb\<lparr>b_size := n\<rparr>"])
      (simp_all add: blk_def stb_def BLOCK_END_def bbe)
  have 5: "upd_block (stb\<lparr>blocks := (blocks stb)(b \<mapsto> bb)\<rparr>) t (\<lambda>x. x\<lparr>b_next := b\<rparr>) = Some stc"
    using nz f by (subst upd_block_Some [of _ _ bt]) (simp_all add: blk_def stb_def stc_def fun_upd_twist)
  have 6: "hashmap_set ?m stc region t = Some ((map_one region c), (store_one st bt t b c bb rest))"
    using i bi nz f by (simp add: hashmap_set_def hashmap_set_loop.simps malloc_node_def put_node_def
        node_at_def stc_def m1_def st1_def fresh_def)
  have 7: "blk stc b = Some bb" "blk (store_one st bt t b c bb rest) b = Some bb" using nz f by (simp_all add: blk_def stc_def st1_def)
  from 1 2 3 4 5 6 7 tb nz bt(3) show ?thesis
    by (simp add: heap_malloc_def h0_def h1_def bb_def)
qed

lemma heap_free_first:
  assumes f: "fresh st t" "fresh st b" "fresh st c" "t \<noteq> b" "t \<noteq> c" "b \<noteq> c" and region: "user_ptr region"
    and bt: "b_ptr bt = region" "b_next bt = NULL"
    and bb_def: "bb = \<lparr>b_ptr = region, b_size = n, b_next = NULL\<rparr>"
    and st0_def: "st0 = st\<lparr>blocks := (blocks st)(t \<mapsto> bt), answers := ans\<rparr>"
  shows "\<exists>st2. heap_free (heap_one region sz t b c) (store_one st bt t b c bb rest) region =
    Some (heap_zero region sz t, st2) \<and> blocks st2 = blocks st0 \<and> nodes st2 = nodes st0"
proof -
  let ?m = "hashmap_init NUM_BUCKETS" and ?i = "hash_slot (hashmap_init NUM_BUCKETS) region"
  from f have nz: "t \<noteq> NULL" "b \<noteq> NULL" "c \<noteq> NULL" "blocks st b = None" "nodes st c = None"
    by (auto simp: fresh_def)
  note i = first_slot(1,2) [OF region] and bi = first_slot(3) [OF region]
  note h0_def = heap_zero_def and h1_def = heap_one_def and m1_def = map_one_def and st1_def = store_one_def
  have same: "bucket_index (map_one region c) region = bucket_index ?m region" by (simp add: m1_def bucket_index_def)
  have slot: "bucket_index (map_one region c) region = Some ?i" "buckets (map_one region c) ! ?i = c" "?i < length (buckets (map_one region c))"
    using i same by (simp_all add: m1_def)
  have tb: "blk (store_one st bt t b c bb rest) t = Some (bt\<lparr>b_next := b\<rparr>)" and bb: "blk (store_one st bt t b c bb rest) b = Some bb"
    using f nz by (simp_all add: st1_def blk_def)
  have nd: "node_at (store_one st bt t b c bb rest) c = Some \<lparr>n_value = t, n_next = NULL\<rparr>" using nz by (simp add: node_at_def st1_def)
  have emptied: "(map_one region c)\<lparr>buckets := (buckets (map_one region c))[?i := NULL]\<rparr> = ?m"
  proof -
    have "(buckets ?m)[?i := NULL] = buckets ?m"
      using list_update_id [of "buckets ?m" ?i] unfolding bi .
    then show ?thesis by (simp add: m1_def)
  qed
  let ?st = "free_node (store_one st bt t b c bb rest) c"
  have rm: "hashmap_remove (map_one region c) (store_one st bt t b c bb rest) region = Some (t, ?m, ?st)"
    using slot nz tb nd bt(1) emptied
    by (simp add: hashmap_remove_def hashmap_remove_loop.simps [of "map_one region c" "store_one st bt t b c bb rest" region])
  have "blk ?st t = Some (bt\<lparr>b_next := b\<rparr>)" "blk ?st b = Some bb"
    using tb bb nz by (simp_all add: blk_def free_node_simps)
  moreover have "bt\<lparr>b_next := NULL\<rparr> = bt" using bt(2) by (cases bt) simp
  moreover have u: "upd_block ?st t (\<lambda>x. x\<lparr>b_next := NULL\<rparr>) = Some (?st\<lparr>blocks := (blocks ?st)(t \<mapsto> bt)\<rparr>)"
    using upd_block_Some [OF calculation(1), of "\<lambda>x. x\<lparr>b_next := NULL\<rparr>"] calculation(3) by simp
  moreover have "blk (?st\<lparr>blocks := (blocks ?st)(t \<mapsto> bt)\<rparr>) b = Some bb"
    using calculation(2) f using nz by (simp add: blk_def)
  ultimately have "heap_free (heap_one region sz t b c) (store_one st bt t b c bb rest) region =
      Some ((heap_zero region sz t), free_block (?st\<lparr>blocks := (blocks ?st)(t \<mapsto> bt)\<rparr>) b)"
    using rm nz by (simp add: heap_free_def h1_def h0_def bb_def)
  moreover have "blocks (free_block (?st\<lparr>blocks := (blocks ?st)(t \<mapsto> bt)\<rparr>) b) = blocks st0"
    using f nz by (auto simp: free_block_simps free_node_simps st1_def st0_def fun_eq_iff)
  moreover have "nodes (free_block (?st\<lparr>blocks := (blocks ?st)(t \<mapsto> bt)\<rparr>) b) = nodes st0"
    using nz by (auto simp: free_block_simps free_node_simps st1_def st0_def fun_eq_iff)
  ultimately show ?thesis by blast
qed

section \<open>Properties\<close>

text \<open>
  Creating a heap over a region gives a well-formed heap with one free interval, the
  whole region, when the bytes \<open>malloc\<close> returns for the dummy block happen to hold a
  \<open>NULL\<close> where its \<open>next\<close> field lies.
\<close>

theorem heap_init_rep:
  assumes ans: "answers st = (p, junk) # rest" "b_next junk = NULL" and room: "room st (k + 1)"
    and region: "0 < unat region" "unat region + unat sz < 2 ^ 63"
  shows "\<exists>h st'. heap_init region sz st = Some (h, st') \<and> h_ptr h = region \<and>
    heap_rep k (h, st') (nf_init (unat sz))"
  using heap_init_wf [OF assms] .

theorem heap_init_rep_witness:
  "\<exists>h st. heap_init 4096 1024 demo_mem = Some (h, st) \<and> heap_rep 9 (h, st) (nf_init 1024)"
  using heap_init_rep [OF answers_demo, of 9 4096 1024] room_demo by auto

text \<open>
  The code does not store that \<open>NULL\<close>. When the bytes found there are another address
  that is not a live block, every allocation on the new heap, of any size, follows it and
  is undefined.
\<close>

theorem heap_init_next_uninitialised:
  assumes ans: "answers st = (p, junk) # rest" and p: "fresh st p"
    and q: "b_next junk = q" "q \<noteq> NULL" "q \<noteq> p" "blocks st q = None" "q \<notin> fst ` set rest"
  shows "\<exists>h st'. heap_init region sz st = Some (h, st') \<and> heap_malloc h st' n = None"
proof -
  have pn: "p \<noteq> NULL" using p by (auto simp: fresh_def)
  let ?b = "junk\<lparr>b_ptr := region, b_size := 0\<rparr>"
  let ?st = "st\<lparr>blocks := (blocks st)(p \<mapsto> ?b), answers := rest\<rparr>"
  let ?h = "\<lparr>h_ptr = region, h_head = p, h_tail = p,
    h_block_map = hashmap_init NUM_BUCKETS, h_size = sz\<rparr>"
  have init: "heap_init region sz st = Some (?h, ?st)"
    using ans p pn by (simp add: heap_init_def malloc_block_def upd_block_def put_block_def blk_def)
  have "heap_malloc ?h ?st n = None"
  proof (cases "fst (malloc_block ?st) = NULL")
    case True
    then show ?thesis by (auto simp: heap_malloc_def upd_block_def blk_def split: prod.splits)
  next
    case False
    then obtain r j rest' where r: "rest = (r, j) # rest'" "fresh ?st r"
      by (auto simp: malloc_block_def split: list.splits if_splits)
    then have "r \<noteq> q" "r \<noteq> p" "r \<noteq> NULL" using q(5) by (auto simp: fresh_def)
    with r q pn show ?thesis
      by (simp add: heap_malloc_def malloc_block_def upd_block_def put_block_def blk_def
          heap_search.simps [of ?h] BLOCK_GAP_def)
  qed
  with init show ?thesis by blast
qed

theorem heap_init_next_uninitialised_witness:
  "\<exists>h st. heap_init 4096 1024 (demo_mem\<lparr>answers :=
      [(64, \<lparr>b_ptr = 1, b_size = 2, b_next = 3\<rparr>), (128, \<lparr>b_ptr = 0, b_size = 0, b_next = 0\<rparr>)]\<rparr>) =
      Some (h, st) \<and> heap_malloc h st 16 = None"
  using heap_init_next_uninitialised [of "demo_mem\<lparr>answers :=
      [(64, \<lparr>b_ptr = 1, b_size = 2, b_next = 3\<rparr>), (128, \<lparr>b_ptr = 0, b_size = 0, b_next = 0\<rparr>)]\<rparr>"
      64 _ _ 3 4096 1024 16]
  by (simp add: demo_mem_def fresh_def user_ptr_def)

text \<open>
  C11: \<open>heap_malloc\<close> implements next-fit. On every well-formed heap it returns, gives the
  address that the specification places the block at (\<open>NULL\<close> when it refuses), and leaves a
  well-formed heap that represents the specification's next state.
\<close>

theorem heap_malloc_refines:
  assumes "heap_rep (k + 3) (h, st) a"
  shows "\<exists>h' st'. heap_malloc h st n =
      Some (place (h_ptr h) (fst (nf_malloc a (unat n))), h', st') \<and>
    heap_rep k (h', st') (snd (nf_malloc a (unat n))) \<and> h_ptr h' = h_ptr h"
  using heap_malloc_step [OF assms, of n] by fastforce

theorem heap_malloc_refines_witness:
  "\<exists>h st h' st'. heap_init 4096 1024 demo_mem = Some (h, st) \<and>
    heap_malloc h st 16 = Some (4096, h', st')"
proof -
  obtain h st where h: "heap_init 4096 1024 demo_mem = Some (h, st)" "h_ptr h = 4096"
    "heap_rep 9 (h, st) (nf_init 1024)" by (rule demo_heap [of 4096]) auto
  have "fst (nf_malloc (nf_init 1024) 16) = Some 0"
    by (simp add: nf_malloc_def nf_init_def nf_pick_def nf_order_def nf_gap_def nf_end_def)
  then show ?thesis using heap_malloc_refines [of 6 h st "nf_init 1024" 16] h
    by (auto simp: place_def)
qed

text \<open>
  \<open>heap_malloc\<close> refuses a request only when no gap between two blocks, nor the one
  after the last block, is large enough: the walk misses no block.
\<close>

theorem heap_malloc_NULL_iff:
  assumes "heap_rep (k + 3) (h, st) a" and "heap_malloc h st n = Some (r, h', st')"
  shows "r = NULL \<longleftrightarrow> (\<forall>i < length (nf_lay a). nf_gap a i < unat n)"
  using heap.alloc_NULL_iff [of k "(h, st)" a n r "(h', st')"] assms by simp

theorem heap_malloc_NULL_iff_witness:
  "\<exists>h st h' st'. heap_init 4096 1024 demo_mem = Some (h, st) \<and>
    heap_malloc h st 2000 = Some (NULL, h', st')"
proof -
  obtain h st where h: "heap_init 4096 1024 demo_mem = Some (h, st)"
    "heap_rep (6 + 3) (h, st) (nf_init 1024)" by (rule demo_heap [of 4096]) auto
  obtain r h' st' where r: "heap_malloc h st 2000 = Some (r, h', st')"
    using heap_malloc_step [OF h(2), of 2000] by auto
  have "r = NULL" using heap_malloc_NULL_iff [OF h(2) r] by (simp add: nf_init_def nf_gap_def nf_end_def)
  with h r show ?thesis by auto
qed

text \<open>
  C18: the blocks that a run of allocations hands out, with nothing freed in between, lie
  inside the region and no two of them have a byte in common. (After a \<open>heap_free\<close> this is
  false: \<open>heap_free_breaks_symmetry\<close> of \<open>Heap_Free\<close>.)
\<close>

theorem heap_malloc_disjoint:
  assumes "heap_rep (3 * length ns) (h, st) a"
    and "alloc_run (\<lambda>s. heap_malloc (fst s) (snd s)) (h, st) ns = Some (rs, s')"
    and "i < j" and "j < length ns" and "rs ! i \<noteq> NULL" and "rs ! j \<noteq> NULL"
  shows "(unat (rs ! i) + unat (ns ! i) \<le> unat (rs ! j) \<or>
      unat (rs ! j) + unat (ns ! j) \<le> unat (rs ! i)) \<and>
    unat (h_ptr h) \<le> unat (rs ! i) \<and> unat (rs ! i) + unat (ns ! i) \<le> unat (h_ptr h) + nf_size a"
  using heap.alloc_run_disjoint [OF assms] by simp

theorem heap_malloc_disjoint_witness:
  "\<exists>h st s'. heap_init 4096 1024 demo_mem = Some (h, st) \<and>
    alloc_run (\<lambda>s. heap_malloc (fst s) (snd s)) (h, st) [16, 32] = Some ([4096, 4112], s') \<and>
    unat (4096 :: ptr) + unat (16 :: size_t) \<le> unat (4112 :: ptr)"
proof -
  obtain h st where h: "heap_init 4096 1024 demo_mem = Some (h, st)" "h_ptr h = 4096"
    "heap_rep 9 (h, st) (nf_init 1024)" by (rule demo_heap [of 4096]) auto
  then have rep: "heap_rep (3 * length [16, 32]) (h, st) (nf_init 1024)"
    by (auto elim: heap_rep_mono)
  have "nf_run (nf_init 1024) [16, 32] = [Some 0, Some 16]"
    by (simp add: nf_malloc_def nf_init_def nf_pick_def nf_order_def nf_gap_def nf_end_def nf_insert_def upt_rec)
  with heap.alloc_run_refines [OF rep] h(2) obtain s' where
    r: "alloc_run (\<lambda>s. heap_malloc (fst s) (snd s)) (h, st) [16, 32] = Some ([4096, 4112], s')"
    by (auto simp: place_def)
  with heap_malloc_disjoint [OF rep r, of 0 1] h show ?thesis by auto
qed

text \<open>
  C25: the heap is symmetric. Two processes whose heaps are in the same next-fit state and
  that make the same requests get blocks at the same offsets, wherever the two regions are
  mapped and whatever their C allocators answer.
\<close>

theorem heap_malloc_symmetric:
  assumes "heap_rep (3 * length ns) (h1, st1) a" and "heap_rep (3 * length ns) (h2, st2) a"
  shows "\<exists>rs1 s1 rs2 s2.
    alloc_run (\<lambda>s. heap_malloc (fst s) (snd s)) (h1, st1) ns = Some (rs1, s1) \<and>
    alloc_run (\<lambda>s. heap_malloc (fst s) (snd s)) (h2, st2) ns = Some (rs2, s2) \<and>
    list_all2 (\<lambda>r1 r2. (r1 = NULL) = (r2 = NULL) \<and>
      (r1 \<noteq> NULL \<longrightarrow> heap_offset h1 r1 = heap_offset h2 r2)) rs1 rs2"
proof -
  have run: "\<exists>s'. alloc_run (\<lambda>s. heap_malloc (fst s) (snd s)) (h, st) ns =
      Some (map (place (h_ptr h)) (nf_run a (map unat ns)), s')"
    if "heap_rep (3 * length ns) (h, st) a" for h st
    using heap.alloc_run_refines [OF that] by simp
  have ok: "nf_ok a" using heap.rep_region [OF assms(1)] by simp
  have "list_all2 (\<lambda>r1 r2. (r1 = NULL) = (r2 = NULL) \<and>
      (r1 \<noteq> NULL \<longrightarrow> heap_offset h1 r1 = heap_offset h2 r2))
    (map (place (h_ptr h1)) (nf_run a (map unat ns))) (map (place (h_ptr h2)) (nf_run a (map unat ns)))"
    unfolding list_all2_conv_all_nth
  proof (intro conjI allI impI)
    fix i assume "i < length (map (place (h_ptr h1)) (nf_run a (map unat ns)))"
    then have i: "i < length ns" by simp
    show "(map (place (h_ptr h1)) (nf_run a (map unat ns)) ! i = NULL) =
        (map (place (h_ptr h2)) (nf_run a (map unat ns)) ! i = NULL)"
    proof (cases "nf_run a (map unat ns) ! i")
      case (Some off)
      obtain x where x: "x \<in> set (nf_lay a)" using ok by (cases "nf_lay a") (auto simp: nf_ok_def)
      have "off \<le> nf_size a" using nf_run_apart_old [OF ok _ Some x] i by simp
      with heap.place_address(2) [OF assms(1)] heap.place_address(2) [OF assms(2)] Some i
      show ?thesis by simp
    qed (simp add: place_def i)
    show "heap_offset h1 (map (place (h_ptr h1)) (nf_run a (map unat ns)) ! i) =
        heap_offset h2 (map (place (h_ptr h2)) (nf_run a (map unat ns)) ! i)"
      if "map (place (h_ptr h1)) (nf_run a (map unat ns)) ! i \<noteq> NULL"
      using that i by (auto simp: place_def heap_offset_def split: option.splits)
  qed simp
  with run [OF assms(1)] run [OF assms(2)] show ?thesis by blast
qed

theorem heap_malloc_symmetric_witness:
  "\<exists>h1 st1 h2 st2 rs1 s1 rs2 s2. heap_init 4096 1024 demo_mem = Some (h1, st1) \<and>
    heap_init 8192 1024 demo_mem = Some (h2, st2) \<and>
    alloc_run (\<lambda>s. heap_malloc (fst s) (snd s)) (h1, st1) [16, 32] = Some (rs1, s1) \<and>
    alloc_run (\<lambda>s. heap_malloc (fst s) (snd s)) (h2, st2) [16, 32] = Some (rs2, s2)"
proof -
  obtain h1 st1 where 1: "heap_init 4096 1024 demo_mem = Some (h1, st1)"
    "heap_rep 9 (h1, st1) (nf_init 1024)" by (rule demo_heap [of 4096]) auto
  obtain h2 st2 where 2: "heap_init 8192 1024 demo_mem = Some (h2, st2)"
    "heap_rep 9 (h2, st2) (nf_init 1024)" by (rule demo_heap [of 8192]) auto
  have "heap_rep (3 * length [16, 32]) (h1, st1) (nf_init 1024)"
    "heap_rep (3 * length [16, 32]) (h2, st2) (nf_init 1024)"
    using 1 2 by (auto elim: heap_rep_mono)
  from heap_malloc_symmetric [OF this] 1 2 show ?thesis by blast
qed

text \<open>
  C26: when every block that the table refers to is in the block list and has another one
  after it, as it is after any run of allocations, \<open>heap_free\<close> returns, and the block list
  stays in order, without overlap and inside the region. It leaves the list alone or drops
  exactly one block, the one after a block that starts at the given address. \<open>heap_free\<close> may
  leave an entry for the block it drops, so the next one is not covered; \<open>heap_free_in_turn\<close>
  of \<open>Heap_Free\<close> shows that it can fail.
\<close>

theorem heap_free_wellformed:
  assumes "heap_inv h st ps a" and "hm_holds (h_block_map h) st (linkers st ps)" and "user_ptr p"
  shows "\<exists>h' st' ps' a'. heap_free h st p = Some (h', st') \<and> heap_inv h' st' ps' a' \<and>
    (a' = a \<or> (\<exists>i. Suc i < length (nf_lay a) \<and> a' = nf_remove a i \<and>
      p = h_ptr h + of_nat (fst (nf_lay a ! i))))"
  by (rule heap_free_result [OF assms])

theorem heap_free_wellformed_witness:
  "\<exists>h st ps a h' st' ps' a'. heap_init 4096 1024 demo_mem = Some (h, st) \<and> heap_inv h st ps a \<and>
    heap_free h st 4096 = Some (h', st') \<and> heap_inv h' st' ps' a'"
proof -
  obtain h st where h: "heap_init 4096 1024 demo_mem = Some (h, st)"
    "heap_rep 9 (h, st) (nf_init 1024)" by (rule demo_heap [of 4096]) auto
  then obtain ps where "heap_inv h st ps (nf_init 1024)" "hm_holds (h_block_map h) st (linkers st ps)"
    by (auto simp: heap_rep_def)
  from heap_free_wellformed [OF this, of 4096] this(1) h(1) show ?thesis by (fastforce simp: user_ptr_def)
qed

text \<open>
  C27: when the table is as allocations leave it (every block it refers to is in the list and
  has another one after it), \<open>heap_free\<close> of the address of a block that is not empty and does
  not share its start with another one, not even with the empty block at the beginning, does
  not release that block: a later search still finds its bytes taken.
\<close>

theorem heap_free_keeps_block:
  assumes inv: "heap_inv h st ps a" and "hm_holds (h_block_map h) st (linkers st ps)"
    and x: "(off, n) \<in> set (nf_lay a)" "0 < n" and p: "p = h_ptr h + of_nat off"
    and only: "\<forall>y \<in> set (nf_lay a). fst y = off \<longrightarrow> y = (off, n)"
  shows "\<exists>h' st' ps' a'. heap_free h st p = Some (h', st') \<and> heap_inv h' st' ps' a' \<and>
    (off, n) \<in> set (nf_lay a')"
proof -
  let ?xs = "nf_lay a"
  have ok: "nf_ok a" and reg: "0 < unat (h_ptr h)" "unat (h_ptr h) + nf_size a < 2 ^ 63"
    using inv by (auto simp: heap_inv_def)
  have bound: "nf_end y \<le> nf_size a" if "y \<in> set ?xs" for y
    using fits_bound [of 0 "nf_size a" ?xs y] ok that by (simp add: nf_ok_def)
  have addr: "unat (h_ptr h + of_nat (fst y)) = unat (h_ptr h) + fst y" if "y \<in> set ?xs" for y
    using bound [OF that] reg by (simp add: nf_end_def unat_add_exact unat_of_nat_exact)
  have "user_ptr p" using addr [OF x(1)] bound [OF x(1)] reg p by (intro user_ptrI) (auto simp: nf_end_def)
  from heap_free_result [OF assms(1,2) this] obtain h' st' ps' a' where f:
    "heap_free h st p = Some (h', st')" "heap_inv h' st' ps' a'"
    "a' = a \<or> (\<exists>i. Suc i < length ?xs \<and> a' = nf_remove a i \<and> p = h_ptr h + of_nat (fst (?xs ! i)))"
    by blast
  have "(off, n) \<in> set (nf_lay a')"
    using f(3)
  proof
    assume "\<exists>i. Suc i < length ?xs \<and> a' = nf_remove a i \<and> p = h_ptr h + of_nat (fst (?xs ! i))"
    then obtain i where i: "Suc i < length ?xs" "a' = nf_remove a i"
      "p = h_ptr h + of_nat (fst (?xs ! i))" by blast
    then have m: "?xs ! i \<in> set ?xs" by simp
    have "fst (?xs ! i) = off" using addr [OF m] addr [OF x(1)] i(3) p by simp
    with only m have "?xs ! i = (off, n)" by blast
    moreover have "?xs ! i \<in> set (take (Suc i) ?xs)"
      using i(1) by (simp add: take_Suc_conv_app_nth)
    ultimately show ?thesis using i(2) by (simp add: nf_remove_def)
  qed (use x in simp)
  with f show ?thesis by blast
qed

theorem heap_free_keeps_block_witness:
  "\<exists>h st ps a h' st' ps' a'. heap_inv h st ps a \<and> (16, 32) \<in> set (nf_lay a) \<and> h_ptr h = 4096 \<and>
    heap_free h st 4112 = Some (h', st') \<and> heap_inv h' st' ps' a' \<and> (16, 32) \<in> set (nf_lay a')"
proof -
  let ?a = "\<lparr>nf_size = 1024, nf_lay = [(0, 0), (0, 16), (16, 32)], nf_cur = 2\<rparr>"
  obtain h st where h: "h_ptr h = 4096" "heap_rep 3 (h, st) ?a" by (rule demo_heap_two)
  then obtain ps where ps: "heap_inv h st ps ?a" "hm_holds (h_block_map h) st (linkers st ps)"
    by (auto simp: heap_rep_def)
  have "\<exists>h' st' ps' a'. heap_free h st 4112 = Some (h', st') \<and> heap_inv h' st' ps' a' \<and>
      (16, 32) \<in> set (nf_lay a')"
    by (rule heap_free_keeps_block [OF ps]) (use h in simp_all)
  with ps(1) h(1) show ?thesis by fastforce
qed

text \<open>
  C29: allocating from a new heap and freeing the address at once restores the heap, the
  blocks and the hash table exactly, when the memory that \<open>malloc\<close> gives \<open>heap_init\<close> for its
  first block holds a null pointer where \<open>next\<close> lies; when it holds something that is not the
  address of a block, the allocation is undefined. (The block freed is the first one of the
  region, whose predecessor, the empty block, starts at the same address.)
\<close>

theorem heap_malloc_free_roundtrip:
  assumes ans: "answers st = (t, jt) # (b, jb) # (c, jc) # rest" and room: "room st 3"
    and wild: "b_next jt = NULL \<or> b_next jt \<notin> {t, b, c} \<union> fst ` set rest \<and> blocks st (b_next jt) = None"
    and region: "user_ptr region" and n: "n \<le> sz"
  shows "\<exists>h0 st0. heap_init region sz st = Some (h0, st0) \<and>
    (if b_next jt = NULL then \<exists>h1 st1 st2. heap_malloc h0 st0 n = Some (region, h1, st1) \<and>
       heap_free h1 st1 region = Some (h0, st2) \<and> blocks st2 = blocks st0 \<and> nodes st2 = nodes st0
     else heap_malloc h0 st0 n = None)"
proof -
  have f: "fresh st t" "fresh st b" "fresh st c" "t \<noteq> b" "t \<noteq> c" "b \<noteq> c"
    using room ans(1) by (auto simp: room_def list_all_iff numeral_3_eq_3)
  show ?thesis
  proof (cases "b_next jt = NULL")
    case True
    let ?bt = "jt\<lparr>b_ptr := region, b_size := 0\<rparr>"
    let ?st0 = "st\<lparr>blocks := (blocks st)(t \<mapsto> ?bt), answers := (b, jb) # (c, jc) # rest\<rparr>"
    have "heap_init region sz st = Some (heap_zero region sz t, ?st0)"
      using ans(1) f(1)
      by (auto simp: heap_init_def malloc_block_def upd_block_def put_block_def blk_def heap_zero_def fresh_def)
    with heap_malloc_first [OF f region n _ _ _ refl refl, of ?bt jb jc rest]
      heap_free_first [OF f region _ _ refl refl, where bt = ?bt and n = n and sz = sz and
        ans = "(b, jb) # (c, jc) # rest" and rest = rest] True
    show ?thesis by fastforce
  next
    case False
    have "b_next jt \<noteq> t" "blocks st (b_next jt) = None" "b_next jt \<notin> fst ` set ((b, jb) # (c, jc) # rest)"
      using wild False by auto
    from heap_init_next_uninitialised [OF ans f(1) refl False this] False show ?thesis by auto
  qed
qed

theorem heap_malloc_free_roundtrip_witness:
  "(\<exists>h0 st0 h1 st1 st2. heap_init 4096 1024 demo_mem = Some (h0, st0) \<and>
    heap_malloc h0 st0 16 = Some (4096, h1, st1) \<and> heap_free h1 st1 4096 = Some (h0, st2)) \<and>
   (\<exists>h0 st0. heap_init 4096 1024 (demo_mem\<lparr>answers := [(64, \<lparr>b_ptr = 1, b_size = 2, b_next = 3\<rparr>),
      (128, \<lparr>b_ptr = 0, b_size = 0, b_next = 0\<rparr>), (192, \<lparr>b_ptr = 0, b_size = 0, b_next = 0\<rparr>)]\<rparr>) = Some (h0, st0) \<and>
    heap_malloc h0 st0 16 = None)"
proof
  show "\<exists>h0 st0 h1 st1 st2. heap_init 4096 1024 demo_mem = Some (h0, st0) \<and>
    heap_malloc h0 st0 16 = Some (4096, h1, st1) \<and> heap_free h1 st1 4096 = Some (h0, st2)"
    using heap_malloc_free_roundtrip [OF answers_demo, of 4096 16 1024] room_demo
    by (fastforce simp: user_ptr_def)
  let ?st = "demo_mem\<lparr>answers := [(64, \<lparr>b_ptr = 1, b_size = 2, b_next = 3\<rparr>),
      (128, \<lparr>b_ptr = 0, b_size = 0, b_next = 0\<rparr>), (192, \<lparr>b_ptr = 0, b_size = 0, b_next = 0\<rparr>)]\<rparr>"
  have "answers ?st = (64, \<lparr>b_ptr = 1, b_size = 2, b_next = 3\<rparr>) # (128, \<lparr>b_ptr = 0, b_size = 0, b_next = 0\<rparr>) #
      (192, \<lparr>b_ptr = 0, b_size = 0, b_next = 0\<rparr>) # []" by simp
  from heap_malloc_free_roundtrip [OF this, of 4096 16 1024]
  show "\<exists>h0 st0. heap_init 4096 1024 ?st = Some (h0, st0) \<and> heap_malloc h0 st0 16 = None"
    by (simp add: room_def fresh_def user_ptr_def demo_mem_def)
qed

text \<open>
  Finalizing a heap with one allocated block frees that block and no other: the dummy
  block and the table stay allocated. Freeing the allocation afterwards, as
  \<open>comm_finalize\<close> does with the array for the barriers, reads the freed block.
\<close>

theorem heap_free_after_finalize:
  fixes st rest sz n
  assumes "fresh st t" and "fresh st b" and "fresh st c" and "t \<noteq> b" and "user_ptr region"
    and "b_ptr bt = region"
  defines "h \<equiv> heap_one region sz t b c"
    and "st1 \<equiv> store_one st bt t b c \<lparr>b_ptr = region, b_size = n, b_next = NULL\<rparr> rest"
  shows "\<exists>st2. heap_finalize h st1 = Some st2 \<and> blocks st2 b = None \<and>
    blocks st2 t \<noteq> None \<and> nodes st2 c \<noteq> None \<and> heap_free h st2 region = None"
proof -
  have nz: "t \<noteq> NULL" "b \<noteq> NULL" "c \<noteq> NULL" using assms(1-3) by (auto simp: fresh_def)
  let ?i = "hash_slot (hashmap_init NUM_BUCKETS) region"
  have bb: "blk st1 b = Some \<lparr>b_ptr = region, b_size = n, b_next = NULL\<rparr>"
    using nz by (simp add: st1_def store_one_def blk_def)
  have "h_head h = b" by (simp add: h_def heap_one_def)
  then have f: "heap_finalize h st1 = Some (free_block st1 b)"
    using nz bb by (simp add: heap_finalize_def heap_finalize_loop.simps [of st1 b]
        heap_finalize_loop.simps [of _ NULL])
  let ?st = "free_block st1 b"
  have t: "blk ?st t = Some (bt\<lparr>b_next := b\<rparr>)" and bn: "blk ?st b = None"
    using nz assms(4) by (simp_all add: blk_def st1_def store_one_def free_block_simps)
  have nd: "node_at ?st c = Some \<lparr>n_value = t, n_next = NULL\<rparr>"
    using nz by (simp add: node_at_def st1_def store_one_def free_block_simps)
  have same: "bucket_index (map_one region c) region = bucket_index (hashmap_init NUM_BUCKETS) region"
    by (simp add: map_one_def bucket_index_def)
  have slot: "bucket_index (map_one region c) region = Some ?i" "buckets (map_one region c) ! ?i = c"
    "?i < length (buckets (map_one region c))"
    using first_slot [OF assms(5)] same by (simp_all add: map_one_def)
  obtain m where "hashmap_remove (map_one region c) ?st region = Some (t, m, free_node ?st c)"
    using slot nz t nd assms(6)
    by (simp add: hashmap_remove_def hashmap_remove_loop.simps [of "map_one region c" ?st region])
  moreover have "blk (free_node ?st c) t = Some (bt\<lparr>b_next := b\<rparr>)" "blk (free_node ?st c) b = None"
    using t bn nz by (simp_all add: blk_def free_node_simps)
  ultimately have "heap_free h ?st region = None"
    using nz by (simp add: heap_free_def h_def heap_one_def)
  with f t nd nz show ?thesis by (auto simp: blk_def node_at_def free_block_simps)
qed

theorem heap_free_after_finalize_witness:
  "\<exists>st2. heap_finalize (heap_one 4096 1024 64 128 192)
      (store_one demo_mem \<lparr>b_ptr = 4096, b_size = 0, b_next = 0\<rparr> 64 128 192
        \<lparr>b_ptr = 4096, b_size = 16, b_next = NULL\<rparr> []) = Some st2 \<and>
    heap_free (heap_one 4096 1024 64 128 192) st2 4096 = None"
  using heap_free_after_finalize [of demo_mem 64 128 192 4096 "\<lparr>b_ptr = 4096, b_size = 0, b_next = 0\<rparr>" 1024 16 "[]"]
  by (auto simp: fresh_def demo_mem_def user_ptr_def)

end
