(* ===== verification/Shared_Mem.thy ===== *)
theory Shared_Mem
  imports Heap_Block "HOL-Library.Char_ord"
begin

text \<open>
  \<open>memory/shared_mem.c\<close> and \<open>memory/shared_heap.c\<close>: the names of the shared memory objects,
  opening and mapping them, and the heap laid over such a region. The answers of the
  operating system (\<open>shm_open\<close>, \<open>mmap\<close>) are arguments. A function that stores through its
  \<open>region\<close> argument returns what it stored.
\<close>

section \<open>Names\<close>

text \<open>\<open>sprintf\<close> with \<open>%d\<close>.\<close>

fun show_nat :: "nat \<Rightarrow> string" where
  "show_nat n = (if n < 10 then [char_of (48 + n)]
     else show_nat (n div 10) @ [char_of (48 + n mod 10)])"

declare show_nat.simps [simp del]

definition show_int :: "int \<Rightarrow> string" where
  "show_int i = (if i < 0 then CHR ''-'' # show_nat (nat (- i)) else show_nat (nat i))"

definition SHARED_MEMORY_PREFIX :: string where
  "SHARED_MEMORY_PREFIX = ''dwl2x''"

text \<open>The key must fit the 256 bytes of the array, with its terminator.\<close>

definition fits_key :: "string \<Rightarrow> string option" where
  "fits_key s = (if length s < 256 then Some s else None)"

definition shared_mem_key_int :: "c_int \<Rightarrow> string option" where
  "shared_mem_key_int identifier =
     fits_key (SHARED_MEMORY_PREFIX @ ''-shmem-'' @ show_int (sint identifier))"

definition shared_mem_key_str :: "string \<Rightarrow> string option" where
  "shared_mem_key_str identifier = fits_key (SHARED_MEMORY_PREFIX @ ''-shmem-'' @ identifier)"

text \<open>The generic \<open>shared_mem_key\<close> chooses by the type of its first argument.\<close>

definition shared_mem_key :: "c_int + string \<Rightarrow> string option" where
  "shared_mem_key identifier = (case identifier of Inl i \<Rightarrow> shared_mem_key_int i | Inr s \<Rightarrow> shared_mem_key_str s)"

section \<open>Regions\<close>

definition MAP_FAILED :: ptr where "MAP_FAILED = - 1"

text \<open>
  \<open>region\<close> is the address of the variable that receives the address of the mapping, and
  \<open>mapped\<close> the answer of \<open>mmap\<close>. The comparison is of \<open>region\<close>, as in the source.
\<close>

definition shared_mem_map :: "ptr \<Rightarrow> ptr \<Rightarrow> c_int \<times> ptr" where
  "shared_mem_map region mapped = (if region = MAP_FAILED then - 1 else 0, mapped)"

text \<open>The result and what \<open>*region\<close> holds then, \<open>None\<close> where it was not stored.\<close>

definition shared_mem_open :: "c_int \<Rightarrow> ptr \<Rightarrow> ptr \<Rightarrow> c_int \<times> ptr option" where
  "shared_mem_open fd region mapped =
     (if fd = - 1 then (- 1, None)
      else let (status, r) = shared_mem_map region mapped
           in if status = - 1 then (- 1, Some r) else (fd, Some r))"

text \<open>The \<open>memset\<close> of the new region is undefined when nothing is mapped there.\<close>

definition shared_mem_create :: "c_int \<Rightarrow> ptr \<Rightarrow> ptr \<Rightarrow> (c_int \<times> ptr option) option" where
  "shared_mem_create fd region mapped =
     (if fd = - 1 then Some (- 1, None)
      else let (status, r) = shared_mem_map region mapped
           in if status = - 1 then Some (- 1, Some r)
              else if r = MAP_FAILED then None
              else Some (fd, Some r))"

text \<open>The mappings of the process, with their sizes.\<close>

definition shared_mem_close :: "(ptr \<Rightarrow> size_t option) \<Rightarrow> ptr \<Rightarrow> size_t \<Rightarrow> (ptr \<Rightarrow> size_t option)" where
  "shared_mem_close vm region sz = (if vm region = Some sz then vm(region := None) else vm)"

section \<open>Shared heaps\<close>

record shared_heap_t =
  sh_heap :: heap_t
  sh_key :: string

text \<open>
  The inner option is the returned pointer, \<open>None\<close> for \<open>NULL\<close>; \<open>at\<close> is the answer of
  \<open>malloc\<close> for the container, through which the code stores without a test.
\<close>

definition shared_heap_over :: "ptr \<Rightarrow> string \<Rightarrow> size_t \<Rightarrow> ptr \<Rightarrow> cmem \<Rightarrow>
    (shared_heap_t option \<times> cmem) option" where
  "shared_heap_over at key sz region st =
     (if at = NULL then None
      else do {
        (h, st) \<leftarrow> heap_init region sz st;
        Some (Some \<lparr>sh_heap = h, sh_key = key\<rparr>, st)
      })"

definition shared_heap_open :: "c_int \<Rightarrow> ptr \<Rightarrow> ptr \<Rightarrow> ptr \<Rightarrow> string \<Rightarrow> size_t \<Rightarrow> cmem \<Rightarrow>
    (shared_heap_t option \<times> cmem) option" where
  "shared_heap_open fd var mapped at key sz st =
     (let (r, region) = shared_mem_open fd var mapped
      in if r = - 1 then Some (None, st)
         else do { region \<leftarrow> region; shared_heap_over at key sz region st })"

definition shared_heap_create :: "c_int \<Rightarrow> ptr \<Rightarrow> ptr \<Rightarrow> ptr \<Rightarrow> string \<Rightarrow> size_t \<Rightarrow> cmem \<Rightarrow>
    (shared_heap_t option \<times> cmem) option" where
  "shared_heap_create fd var mapped at key sz st = do {
     (r, region) \<leftarrow> shared_mem_create fd var mapped;
     if r = - 1 then Some (None, st)
     else do { region \<leftarrow> region; shared_heap_over at key sz region st }
   }"

definition shared_heap_malloc :: "shared_heap_t \<Rightarrow> cmem \<Rightarrow> size_t \<Rightarrow> (ptr \<times> shared_heap_t \<times> cmem) option" where
  "shared_heap_malloc s st bytes = do {
     (p, h, st) \<leftarrow> heap_malloc (sh_heap s) st bytes;
     Some (p, s\<lparr>sh_heap := h\<rparr>, st)
   }"

definition shared_heap_free :: "shared_heap_t \<Rightarrow> cmem \<Rightarrow> ptr \<Rightarrow> (shared_heap_t \<times> cmem) option" where
  "shared_heap_free s st p = do {
     (h, st) \<leftarrow> heap_free (sh_heap s) st p;
     Some (s\<lparr>sh_heap := h\<rparr>, st)
   }"

definition shared_heap_close :: "shared_heap_t \<Rightarrow> (ptr \<Rightarrow> size_t option) \<Rightarrow> cmem \<Rightarrow>
    ((ptr \<Rightarrow> size_t option) \<times> cmem) option" where
  "shared_heap_close s vm st = do {
     let vm = shared_mem_close vm (h_ptr (sh_heap s)) (h_size (sh_heap s));
     st \<leftarrow> heap_finalize (sh_heap s) st;
     Some (vm, st)
   }"

definition shared_heap_offset :: "shared_heap_t \<Rightarrow> ptr \<Rightarrow> size_t" where
  "shared_heap_offset s p = heap_offset (sh_heap s) p"

section \<open>Decimal numbers\<close>

definition read_nat :: "string \<Rightarrow> nat" where
  "read_nat s = foldl (\<lambda>a c. 10 * a + (of_char c - 48)) 0 s"

lemma read_show_nat: "read_nat (show_nat n) = n"
proof (induction n rule: show_nat.induct)
  case (1 n)
  have d: "of_char (char_of (48 + m) :: char) - 48 = m" if "m < 10" for m :: nat
    using that by simp
  show ?case
  proof (cases "n < 10")
    case True
    then show ?thesis by (subst show_nat.simps) (simp add: read_nat_def d)
  next
    case False
    with 1 d [of "n mod 10"] show ?thesis by (subst show_nat.simps) (simp add: read_nat_def)
  qed
qed

lemma show_nat_digit: "\<forall>c \<in> set (show_nat n). 48 \<le> (of_char c :: nat)"
proof (induction n rule: show_nat.induct)
  case (1 n)
  then show ?case by (subst show_nat.simps) auto
qed

lemma show_nat_not_Nil: "show_nat n \<noteq> []"
  by (subst show_nat.simps) simp

lemma show_nat_hd: "hd (show_nat n) \<noteq> CHR ''-''"
  using show_nat_digit [of n] show_nat_not_Nil [of n] by (cases "show_nat n") auto

lemma show_int_inject: "show_int i = show_int j \<longleftrightarrow> i = j"
proof
  assume "show_int i = show_int j"
  moreover have "CHR ''-'' # s \<noteq> show_nat n" "show_nat n \<noteq> CHR ''-'' # s" for s n
    using show_nat_hd [of n] by (metis list.sel(1))+
  ultimately have "(i < 0) = (j < 0)" and
    "show_nat (nat (if i < 0 then - i else i)) = show_nat (nat (if j < 0 then - j else j))"
    by (auto simp: show_int_def split: if_splits)
  then have "nat (if i < 0 then - i else i) = nat (if j < 0 then - j else j)"
    by (metis read_show_nat)
  with \<open>(i < 0) = (j < 0)\<close> show "i = j" by (auto split: if_splits)
qed simp

lemma length_show_nat: "n < 10 ^ k \<Longrightarrow> 0 < k \<Longrightarrow> length (show_nat n) \<le> k"
proof (induction k arbitrary: n)
  case (Suc k)
  show ?case
  proof (cases "n < 10")
    case True
    then show ?thesis by (subst show_nat.simps) simp
  next
    case False
    then have "0 < k" using Suc.prems(1) by (cases k) auto
    moreover have "n div 10 < 10 ^ k" using Suc.prems(1) by (simp add: less_mult_imp_div_less mult.commute)
    ultimately show ?thesis using Suc.IH [of "n div 10"] False by (subst show_nat.simps) simp
  qed
qed simp

lemma length_show_int: "length (show_int (sint (i :: c_int))) \<le> 11"
proof -
  have "nat \<bar>sint i\<bar> < 10 ^ 10" using sint_lt [of i] sint_ge [of i] by simp
  then have "length (show_nat (nat \<bar>sint i\<bar>)) \<le> 10" by (rule length_show_nat) simp
  then show ?thesis by (auto simp: show_int_def split: if_splits)
qed

lemma shared_mem_key_fits:
  "shared_mem_key_int i = Some (SHARED_MEMORY_PREFIX @ ''-shmem-'' @ show_int (sint i))"
  using length_show_int [of i] by (simp add: shared_mem_key_int_def fits_key_def SHARED_MEMORY_PREFIX_def)

section \<open>The shared heap is a next-fit heap\<close>

definition shared_heap_rep :: "nat \<Rightarrow> shared_heap_t \<times> cmem \<Rightarrow> nf_state \<Rightarrow> bool" where
  "shared_heap_rep k s a \<longleftrightarrow> heap_rep k (sh_heap (fst s), snd s) a"

interpretation shared: next_fit_heap "\<lambda>s. shared_heap_malloc (fst s) (snd s)"
    "\<lambda>s. h_ptr (sh_heap (fst s))" shared_heap_rep
proof unfold_locales
  show "\<exists>s'. shared_heap_malloc (fst s) (snd s) n =
        Some (place (h_ptr (sh_heap (fst s))) (fst (nf_malloc a (unat n))), s') \<and>
      shared_heap_rep k s' (snd (nf_malloc a (unat n))) \<and>
      h_ptr (sh_heap (fst s')) = h_ptr (sh_heap (fst s))"
    if "shared_heap_rep (k + 3) s a" for k s a n
    using heap_malloc_step [OF that [unfolded shared_heap_rep_def], of n]
    by (auto simp: shared_heap_malloc_def shared_heap_rep_def)
  show "nf_ok a \<and> 0 < unat (h_ptr (sh_heap (fst s))) \<and>
      unat (h_ptr (sh_heap (fst s))) + nf_size a < 2 ^ 63" if "shared_heap_rep k s a" for k s a
    using heap.rep_region [of k "(sh_heap (fst s), snd s)" a] that by (simp add: shared_heap_rep_def)
qed

lemma user_ptr_mapped: "user_ptr p \<Longrightarrow> p \<noteq> MAP_FAILED"
  by (auto simp: user_ptr_def MAP_FAILED_def)

section \<open>Properties\<close>

text \<open>
  The keys of two local PEs are the same only for the same PE, and every key fits the
  array of 256 bytes it is printed into.
\<close>

theorem shared_mem_key_injective:
  "(shared_mem_key_int i = shared_mem_key_int j) = (i = j) \<and> shared_mem_key_int i \<noteq> None"
  by (auto simp: shared_mem_key_fits show_int_inject dest: signed_word_eqI)

text \<open>
  A failed \<open>mmap\<close> is never reported. For every variable the caller can have passed,
  \<open>shared_mem_open\<close> returns the descriptor as if it had succeeded and leaves \<open>MAP_FAILED\<close>
  in the variable, and \<open>shared_mem_create\<close> goes on to clear memory at that address, which
  is undefined.
\<close>

theorem shared_mem_map_failure_unreported:
  assumes "user_ptr region" and "fd \<noteq> - 1"
  shows "shared_mem_open fd region MAP_FAILED = (fd, Some MAP_FAILED) \<and>
    shared_mem_create fd region MAP_FAILED = None"
proof -
  have "region \<noteq> - 1" using user_ptr_mapped [OF assms(1)] by (simp add: MAP_FAILED_def)
  with assms(2) show ?thesis
    by (simp add: shared_mem_open_def shared_mem_create_def shared_mem_map_def MAP_FAILED_def)
qed

theorem shared_mem_map_failure_unreported_witness:
  "shared_mem_open 3 4096 MAP_FAILED = (3, Some MAP_FAILED) \<and> shared_mem_create 3 4096 MAP_FAILED = None"
  by (rule shared_mem_map_failure_unreported) (simp_all add: user_ptr_def)

text \<open>Creating a shared heap gives a well-formed heap over the mapped region, all of it free.\<close>

lemma shared_heap_create_rep:
  assumes "fd \<noteq> - 1" and "var \<noteq> MAP_FAILED" and "at \<noteq> NULL"
    and ans: "answers st = (p, junk) # rest" "b_next junk = NULL" and "room st (k + 1)"
    and region: "0 < unat region" "unat region + unat sz < 2 ^ 63"
  shows "\<exists>s st'. shared_heap_create fd var region at key sz st = Some (Some s, st') \<and>
    shared_heap_rep k (s, st') (nf_init (unat sz)) \<and> h_ptr (sh_heap s) = region"
proof -
  have "region \<noteq> MAP_FAILED" using region by (intro user_ptr_mapped user_ptrI) linarith+
  moreover obtain h st' where "heap_init region sz st = Some (h, st')" "h_ptr h = region"
    "heap_rep k (h, st') (nf_init (unat sz))" using heap_init_wf [OF assms(4-8)] by blast
  ultimately show ?thesis using assms(1-3)
    by (simp add: shared_heap_create_def shared_mem_create_def shared_mem_map_def
        shared_heap_over_def shared_heap_rep_def)
qed

end
