(* ===== verification/Comm_Local.thy ===== *)
theory Comm_Local
  imports Comm_Node Node_Memory Shared_Mem
begin

text \<open>
  \<open>comm/comm_local.c\<close>: the local communication layer. Each PE creates its own symmetric
  heap, maps the heaps of the other PEs of its node, and copies directly into and out of
  them. The operating system's answers are arguments: \<open>opens key\<close> is what \<open>shm_open\<close> and
  \<open>mmap\<close> answer for a key.
\<close>

section \<open>Definitions\<close>

text \<open>The static variables; an element of \<open>__shared_memory\<close> is \<open>None\<close> until it is stored.\<close>

record comm_local_state =
  cl_my_local_pe :: c_int
  cl_n_local_pes :: c_int
  cl_symmetric_heap :: "shared_heap_t option"
  cl_shared_memory :: "ptr option list"

definition comm_local_init :: "c_int \<Rightarrow> c_int \<Rightarrow> (string \<Rightarrow> c_int \<times> ptr) \<Rightarrow> ptr \<Rightarrow> ptr \<Rightarrow> cmem \<Rightarrow>
    (comm_local_state \<times> cmem) option" where
  "comm_local_init my_local_pe n_local_pes opens var at st = do {
     key \<leftarrow> shared_mem_key_int my_local_pe;
     (h, st) \<leftarrow> shared_heap_create (fst (opens key)) var (snd (opens key)) at key
       (of_nat SYMMETRIC_HEAP_SIZE) st;
     Some (\<lparr>cl_my_local_pe = my_local_pe, cl_n_local_pes = n_local_pes,
            cl_symmetric_heap = h, cl_shared_memory = []\<rparr>, st)
   }"

text \<open>The loop of \<open>comm_local_wireup\<close>; the array lies at \<open>arr\<close>.\<close>

fun wireup_loop :: "(string \<Rightarrow> c_int \<times> ptr) \<Rightarrow> ptr \<Rightarrow> c_int \<Rightarrow> nat list \<Rightarrow> ptr option list \<Rightarrow>
    ptr option list option" where
  "wireup_loop opens arr me [] sm = Some sm"
| "wireup_loop opens arr me (i # is) sm =
     (if of_nat i = me then wireup_loop opens arr me is sm
      else do {
        key \<leftarrow> shared_mem_key_int (of_nat i);
        let (fd, r) = shared_mem_open (fst (opens key)) (arr + 8 * of_nat i) (snd (opens key));
        let sm = (case r of None \<Rightarrow> sm | Some p \<Rightarrow> sm[i := Some p]);
        if fd = 0 then Some sm else wireup_loop opens arr me is sm
      })"

definition comm_local_wireup :: "(string \<Rightarrow> c_int \<times> ptr) \<Rightarrow> ptr \<Rightarrow> comm_local_state \<Rightarrow>
    comm_local_state option" where
  "comm_local_wireup opens arr cl = do {
     h \<leftarrow> cl_symmetric_heap cl;
     let n = nat (sint (cl_n_local_pes cl));
     let me = nat (sint (cl_my_local_pe cl));
     if arr = NULL \<or> sint (cl_my_local_pe cl) < 0 \<or> n \<le> me then None
     else do {
       sm \<leftarrow> wireup_loop opens arr (cl_my_local_pe cl) [0 ..< n]
         ((replicate n None)[me := Some (h_ptr (sh_heap h))]);
       Some (cl\<lparr>cl_shared_memory := sm\<rparr>)
     }
   }"

text \<open>The mappings are closed one by one; an element that was never stored cannot be read.\<close>

fun close_loop :: "(ptr \<Rightarrow> size_t option) \<Rightarrow> ptr option list \<Rightarrow> (ptr \<Rightarrow> size_t option) option" where
  "close_loop vm [] = Some vm"
| "close_loop vm (x # xs) = do {
     p \<leftarrow> x;
     close_loop (if p \<noteq> NULL then shared_mem_close vm p (of_nat SYMMETRIC_HEAP_SIZE) else vm) xs
   }"

text \<open>
  \<open>shared_heap_close\<close> ends in \<open>free(heap)\<close>, and the array of mappings is freed: what
  \<open>__symmetric_heap\<close> and \<open>__shared_memory\<close> lead to cannot be read any more.
\<close>

definition comm_local_finalize :: "comm_local_state \<Rightarrow> (ptr \<Rightarrow> size_t option) \<Rightarrow> cmem \<Rightarrow>
    (comm_local_state \<times> (ptr \<Rightarrow> size_t option) \<times> cmem) option" where
  "comm_local_finalize cl vm st = do {
     vm \<leftarrow> close_loop vm (take (nat (sint (cl_n_local_pes cl))) (cl_shared_memory cl));
     h \<leftarrow> cl_symmetric_heap cl;
     (vm, st) \<leftarrow> shared_heap_close h vm st;
     Some (cl\<lparr>cl_symmetric_heap := None, cl_shared_memory := []\<rparr>, vm, st)
   }"

text \<open>The mapping of the heap of a local PE, \<open>__shared_memory[map->index]\<close>.\<close>

definition mapped_heap :: "comm_local_state \<Rightarrow> locality_map_t \<Rightarrow> ptr option" where
  "mapped_heap cl mp =
     (if 0 \<le> sint (lm_index mp) \<and> nat (sint (lm_index mp)) < length (cl_shared_memory cl)
      then cl_shared_memory cl ! nat (sint (lm_index mp)) else None)"

definition cl_me :: "comm_local_state \<Rightarrow> nat" where
  "cl_me cl = nat (sint (cl_my_local_pe cl))"

text \<open>For a remote PE both operations print an error and return.\<close>

definition comm_local_get :: "node_state \<Rightarrow> comm_local_state \<Rightarrow> c_int \<Rightarrow> ptr \<Rightarrow> ptr \<Rightarrow> size_t \<Rightarrow>
    node_mem \<Rightarrow> node_mem option" where
  "comm_local_get nd cl pe dest src sz nm = do {
     mp \<leftarrow> comm_node_map nd pe;
     if lm_type mp \<noteq> PE_TYPE_LOCAL then Some nm
     else do {
       base \<leftarrow> mapped_heap cl mp;
       memcpy nm (cl_me cl) (cl_shared_memory cl) dest (base + src) (unat sz)
     }
   }"

definition comm_local_put :: "node_state \<Rightarrow> comm_local_state \<Rightarrow> c_int \<Rightarrow> ptr \<Rightarrow> ptr \<Rightarrow> size_t \<Rightarrow>
    node_mem \<Rightarrow> node_mem option" where
  "comm_local_put nd cl pe dest src sz nm = do {
     mp \<leftarrow> comm_node_map nd pe;
     if lm_type mp \<noteq> PE_TYPE_LOCAL then Some nm
     else do {
       base \<leftarrow> mapped_heap cl mp;
       memcpy nm (cl_me cl) (cl_shared_memory cl) (base + dest) src (unat sz)
     }
   }"

definition comm_local_heap :: "comm_local_state \<Rightarrow> shared_heap_t option" where
  "comm_local_heap cl = cl_symmetric_heap cl"

definition comm_local_offset :: "comm_local_state \<Rightarrow> ptr \<Rightarrow> size_t option" where
  "comm_local_offset cl p = do { h \<leftarrow> cl_symmetric_heap cl; Some (shared_heap_offset h p) }"

section \<open>Wiring up\<close>

lemma wireup_loop_result:
  assumes "\<forall>i \<in> set ks. of_nat i \<noteq> me \<longrightarrow> fd i \<noteq> 0 \<and> arr + 8 * of_nat i \<noteq> MAP_FAILED"
    and opens: "\<And>i key. shared_mem_key_int (of_nat i) = Some key \<Longrightarrow> opens key = (fd i, at i)"
    and "\<forall>i \<in> set ks. i < length sm" and "distinct ks"
  shows "\<exists>sm'. wireup_loop opens arr me ks sm = Some sm' \<and> length sm' = length sm \<and>
    (\<forall>i < length sm. sm' ! i =
      (if i \<in> set ks \<and> of_nat i \<noteq> me \<and> fd i \<noteq> - 1 then Some (at i) else sm ! i))"
  using assms(1,3,4)
proof (induction ks arbitrary: sm)
  case (Cons i ks)
  show ?case
  proof (cases "of_nat i = me")
    case True
    with Cons.IH [of sm] Cons.prems show ?thesis by auto
  next
    case False
    obtain key where key: "shared_mem_key_int (of_nat i) = Some key"
      using shared_mem_key_fits [of "of_nat i"] by auto
    define sm1 where "sm1 = (if fd i = - 1 then sm else sm[i := Some (at i)])"
    have l: "length sm1 = length sm" by (simp add: sm1_def)
    from Cons.prems have "\<forall>i \<in> set ks. of_nat i \<noteq> me \<longrightarrow> fd i \<noteq> 0 \<and> arr + 8 * of_nat i \<noteq> MAP_FAILED"
      "\<forall>i \<in> set ks. i < length sm1" "distinct ks" by (simp_all add: l)
    from Cons.IH [OF this] obtain sm' where sm': "wireup_loop opens arr me ks sm1 = Some sm'"
      "length sm' = length sm"
      "\<forall>j < length sm. sm' ! j =
        (if j \<in> set ks \<and> of_nat j \<noteq> me \<and> fd j \<noteq> - 1 then Some (at j) else sm1 ! j)"
      unfolding l by blast
    have "fd i \<noteq> 0" "arr + 8 * of_nat i \<noteq> MAP_FAILED" "i < length sm" "i \<notin> set ks"
      using False Cons.prems by simp_all
    moreover from this have "wireup_loop opens arr me (i # ks) sm = Some sm'"
      using False key opens [OF key] sm'(1)
      by (simp add: shared_mem_open_def shared_mem_map_def sm1_def split: if_splits)
    ultimately show ?thesis using sm'(2,3) False by (auto simp: sm1_def nth_list_update)
  qed
qed simp

section \<open>Creating the own heap\<close>

lemma comm_local_init_rep:
  assumes create: "\<And>key. shared_mem_key_int ml = Some key \<Longrightarrow> opens key = (fd, base)"
    and sys: "fd \<noteq> - 1" "var \<noteq> MAP_FAILED" "at \<noteq> NULL"
    and ans: "answers st = (p, junk) # rest" "b_next junk = NULL" and "room st (k + 1)"
    and base: "0 < unat base" "unat base + SYMMETRIC_HEAP_SIZE < 2 ^ 63"
  shows "\<exists>h st'. comm_local_init ml nl opens var at st = Some (\<lparr>cl_my_local_pe = ml, cl_n_local_pes = nl,
      cl_symmetric_heap = Some h, cl_shared_memory = []\<rparr>, st') \<and> h_ptr (sh_heap h) = base \<and>
    shared_heap_rep k (h, st') (nf_init SYMMETRIC_HEAP_SIZE)"
proof -
  have sz: "unat (of_nat SYMMETRIC_HEAP_SIZE :: size_t) = SYMMETRIC_HEAP_SIZE"
    by (simp add: SYMMETRIC_HEAP_SIZE_def)
  let ?key = "SHARED_MEMORY_PREFIX @ ''-shmem-'' @ show_int (sint ml)"
  obtain h st' where "shared_heap_create fd var base at ?key (of_nat SYMMETRIC_HEAP_SIZE) st = Some (Some h, st')"
    "shared_heap_rep k (h, st') (nf_init SYMMETRIC_HEAP_SIZE)" "h_ptr (sh_heap h) = base"
    using shared_heap_create_rep [OF sys ans assms(7), of base "of_nat SYMMETRIC_HEAP_SIZE" ?key] base
    unfolding sz by blast
  thus ?thesis using create [OF shared_mem_key_fits]
    by (simp add: comm_local_init_def shared_mem_key_fits)
qed

text \<open>The same for what \<open>malloc\<close> leaves in the memory of the first block, null or wild.\<close>

lemma comm_local_init_cases:
  assumes create: "\<And>key. shared_mem_key_int ml = Some key \<Longrightarrow> opens key = (fd, base)"
    and sys: "fd \<noteq> - 1" "var \<noteq> MAP_FAILED" "at \<noteq> NULL"
    and ans: "answers st = (p, junk) # rest" and room: "room st (k + 1)"
    and wild: "b_next junk = NULL \<or> b_next junk \<notin> insert p (fst ` set rest) \<and> blocks st (b_next junk) = None"
    and base: "0 < unat base" "unat base + SYMMETRIC_HEAP_SIZE < 2 ^ 63"
  obtains h st' where "comm_local_init ml nl opens var at st = Some (\<lparr>cl_my_local_pe = ml, cl_n_local_pes = nl,
      cl_symmetric_heap = Some h, cl_shared_memory = []\<rparr>, st')" "h_ptr (sh_heap h) = base"
    "if b_next junk = NULL then shared_heap_rep k (h, st') (nf_init SYMMETRIC_HEAP_SIZE)
     else \<forall>n. heap_malloc (sh_heap h) st' n = None"
proof (cases "b_next junk = NULL")
  case True
  with comm_local_init_rep [where ml = ml and nl = nl and opens = opens, OF create sys ans True room base] that
  show thesis by auto
next
  case False
  let ?key = "SHARED_MEMORY_PREFIX @ ''-shmem-'' @ show_int (sint ml)"
  have "fresh st p" using room ans by (simp add: room_def)
  note un = heap_init_next_uninitialised [OF ans this refl False]
  have none: "\<exists>h st'. heap_init base (of_nat SYMMETRIC_HEAP_SIZE) st = Some (h, st') \<and> heap_malloc h st' n = None" for n
    by (rule un) (use wild False in auto)
  then obtain h st' where h: "heap_init base (of_nat SYMMETRIC_HEAP_SIZE) st = Some (h, st')" by blast
  with none have all: "heap_malloc h st' n = None" for n by fastforce
  have "base \<noteq> MAP_FAILED" using base by (intro user_ptr_mapped user_ptrI) linarith+
  hence init: "comm_local_init ml nl opens var at st = Some (\<lparr>cl_my_local_pe = ml, cl_n_local_pes = nl,
      cl_symmetric_heap = Some \<lparr>sh_heap = h, sh_key = ?key\<rparr>, cl_shared_memory = []\<rparr>, st')"
    using h sys create [OF shared_mem_key_fits]
    by (simp add: comm_local_init_def shared_mem_key_fits shared_heap_create_def shared_mem_create_def
        shared_mem_map_def shared_heap_over_def)
  have "h_ptr h = base" using h by (auto simp: heap_init_def Let_def bind_eq_Some_conv split: prod.splits)
  with all False show thesis by (intro that [OF init]) simp_all
qed

section \<open>Properties\<close>

text \<open>The process that the properties are evaluated on: PE 0, alone on its node, with its heap at 4096.\<close>

definition demo_shared_heap :: shared_heap_t where
  "demo_shared_heap = \<lparr>sh_heap = heap_zero 4096 (of_nat SYMMETRIC_HEAP_SIZE) 64, sh_key = ''dwl2x-shmem-0''\<rparr>"

definition demo_local :: comm_local_state where
  "demo_local = \<lparr>cl_my_local_pe = 0, cl_n_local_pes = 1, cl_symmetric_heap = Some demo_shared_heap,
     cl_shared_memory = [Some 4096]\<rparr>"

definition demo_table_node :: node_state where
  "demo_table_node = (comm_node_init 4096 0 1 2 2)\<lparr>nd_map :=
     [Some \<lparr>lm_type = PE_TYPE_LOCAL, lm_index = 0, lm_host = 0\<rparr>,
      Some \<lparr>lm_type = PE_TYPE_REMOTE, lm_index = 0, lm_host = 1\<rparr>]\<rparr>"

lemma demo_bytes: "load_bytes demo_nm 0 [Some 4096] 64 4 = Some [64, 65, 66, 67]"
proof -
  have "(4 :: nat) = Suc (Suc (Suc (Suc 0)))" by simp
  then show ?thesis
    by (simp only:) (simp add: load_def mapping_of_def SYMMETRIC_HEAP_SIZE_def demo_nm_def)
qed

lemma demo_bytes_two: "load_bytes demo_nm 0 [Some 4096] 64 2 = Some [64, 65]"
proof -
  have "(2 :: nat) = Suc (Suc 0)" by simp
  then show ?thesis
    by (simp only:) (simp add: load_def mapping_of_def SYMMETRIC_HEAP_SIZE_def demo_nm_def)
qed

lemma demo_defined: "k < 4 \<Longrightarrow> nm_priv demo_nm 0 (64 + of_nat k) \<noteq> None"
proof -
  assume "k < 4"
  then have "k = 0 \<or> k = 1 \<or> k = 2 \<or> k = 3" by arith
  then show "nm_priv demo_nm 0 (64 + of_nat k) \<noteq> None" by (elim disjE) (simp_all add: demo_nm_def)
qed

lemma comm_local_wireup_maps:
  assumes h: "cl_symmetric_heap cl = Some h" and me: "0 \<le> sint (cl_my_local_pe cl)"
    "sint (cl_my_local_pe cl) < sint (cl_n_local_pes cl)" and arr: "0 < unat arr"
    "unat arr + 8 * nat (sint (cl_n_local_pes cl)) < 2 ^ 63"
    and opens: "\<And>i key. shared_mem_key_int (of_nat i) = Some key \<Longrightarrow> opens key = (fd i, at i)"
    and fd: "\<forall>i. fd i \<noteq> 0"
  shows "\<exists>cl'. comm_local_wireup opens arr cl = Some cl' \<and>
    cl' = cl\<lparr>cl_shared_memory := cl_shared_memory cl'\<rparr> \<and> length (cl_shared_memory cl') = nat (sint (cl_n_local_pes cl)) \<and>
    (\<forall>i < nat (sint (cl_n_local_pes cl)). cl_shared_memory cl' ! i =
      (if i = cl_me cl then Some (h_ptr (sh_heap h))
       else if fd i = - 1 then None else Some (at i)))"
proof -
  let ?n = "nat (sint (cl_n_local_pes cl))" and ?me = "cl_my_local_pe cl"
  have n: "?n < 2 ^ 31" using sint_lt [of "cl_n_local_pes cl"] me by (simp add: nat_less_iff)
  have eq: "(of_nat i = ?me) = (i = cl_me cl)" if "i < ?n" for i
  proof -
    have "sint (of_nat i :: c_int) = int i" using that n sint_of_nat_small by simp
    moreover have "(of_nat i = ?me) = (sint (of_nat i :: c_int) = sint ?me)" by (auto dest: signed_word_eqI)
    ultimately show ?thesis using me(1) by (auto simp: cl_me_def)
  qed
  have "arr + 8 * of_nat i \<noteq> MAP_FAILED" if "i < ?n" for i
  proof -
    have "arr + 8 * of_nat i = (of_nat (unat arr + 8 * i) :: ptr)" by simp
    moreover have "unat (of_nat (unat arr + 8 * i) :: ptr) = unat arr + 8 * i"
      using that arr(2) by (intro unat_of_nat_exact) simp
    ultimately show ?thesis using that arr by (intro user_ptr_mapped user_ptrI) simp_all
  qed
  with fd wireup_loop_result [where ks = "[0 ..< ?n]" and me = ?me and fd = fd and at = at and
      opens = opens and arr = arr and sm = "(replicate ?n None)[cl_me cl := Some (h_ptr (sh_heap h))]"]
    opens obtain sm where sm: "wireup_loop opens arr ?me [0 ..< ?n]
      ((replicate ?n None)[cl_me cl := Some (h_ptr (sh_heap h))]) = Some sm" "length sm = ?n"
    "\<forall>i < ?n. sm ! i = (if i \<in> set [0 ..< ?n] \<and> of_nat i \<noteq> ?me \<and> fd i \<noteq> - 1 then Some (at i)
      else (replicate ?n None)[cl_me cl := Some (h_ptr (sh_heap h))] ! i)" by auto
  have "cl_me cl < ?n" using me by (simp add: cl_me_def)
  with sm(3) eq have e: "\<forall>i < ?n. sm ! i = (if i = cl_me cl then Some (h_ptr (sh_heap h))
      else if fd i = - 1 then None else Some (at i))" by (auto simp: nth_list_update)
  have "arr \<noteq> NULL" using arr(1) by auto
  with sm(1) h me have "comm_local_wireup opens arr cl = Some (cl\<lparr>cl_shared_memory := sm\<rparr>)"
    by (simp add: comm_local_wireup_def cl_me_def Let_def)
  with sm(2) e show ?thesis by simp
qed

text \<open>
  What wiring up leaves in the table of mappings when no descriptor is 0: the own heap,
  and for every other PE of the node its mapping. A heap that could not be opened is not
  reported: its element is left uninitialised and the loop goes on.
\<close>

theorem comm_local_wireup_result:
  assumes h: "cl_symmetric_heap cl = Some h" and me: "0 \<le> sint (cl_my_local_pe cl)"
    "sint (cl_my_local_pe cl) < sint (cl_n_local_pes cl)" and arr: "0 < unat arr"
    "unat arr + 8 * nat (sint (cl_n_local_pes cl)) < 2 ^ 63"
    and opens: "\<And>i key. shared_mem_key_int (of_nat i) = Some key \<Longrightarrow> opens key = (fd i, at i)"
    and fd: "\<forall>i. fd i \<noteq> 0"
  shows "\<exists>cl'. comm_local_wireup opens arr cl = Some cl' \<and>
    length (cl_shared_memory cl') = nat (sint (cl_n_local_pes cl)) \<and>
    (\<forall>i < nat (sint (cl_n_local_pes cl)). cl_shared_memory cl' ! i =
      (if i = cl_me cl then Some (h_ptr (sh_heap h))
       else if fd i = - 1 then None else Some (at i)))"
  using comm_local_wireup_maps [of cl h arr opens fd at, OF h me arr opens fd] by blast

theorem comm_local_wireup_result_witness:
  "\<exists>cl'. comm_local_wireup (\<lambda>_. (3, 1073741824)) 64 (demo_local\<lparr>cl_n_local_pes := 2\<rparr>) = Some cl' \<and>
    cl_shared_memory cl' ! 1 = Some 1073741824"
  using comm_local_wireup_result [of "demo_local\<lparr>cl_n_local_pes := 2\<rparr>" demo_shared_heap 64
      "\<lambda>_. (3, 1073741824)" "\<lambda>_. 3" "\<lambda>_. 1073741824"]
  by (auto simp: demo_local_def cl_me_def)

text \<open>
  The entry of a PE of this node whose heap, number \<open>i\<close>, is mapped at \<open>b\<close>.
\<close>

definition local_pe :: "node_state \<Rightarrow> comm_local_state \<Rightarrow> c_int \<Rightarrow> nat \<Rightarrow> ptr \<Rightarrow> bool" where
  "local_pe nd cl pe i b \<longleftrightarrow> (\<exists>mp. comm_node_map nd pe = Some mp \<and> lm_type mp = PE_TYPE_LOCAL \<and>
     sint (lm_index mp) = int i) \<and> maps_ok (cl_shared_memory cl) \<and> i < length (cl_shared_memory cl) \<and>
     cl_shared_memory cl ! i = Some b"

lemma demo_local_pe: "local_pe demo_table_node demo_local 0 0 4096"
  using demo_maps by (simp add: local_pe_def comm_node_map_def demo_table_node_def demo_local_def)

lemma comm_local_put_stores:
  assumes pe: "local_pe nd cl pe i b" and off: "off + unat sz \<le> SYMMETRIC_HEAP_SIZE"
    and src: "priv_area (cl_shared_memory cl) src (unat sz)"
      "load_bytes nm (cl_me cl) (cl_shared_memory cl) src (unat sz) = Some xs"
  shows "comm_local_put nd cl pe (of_nat off) src sz nm = Some (put_heap nm i off xs)"
proof -
  have ok: "maps_ok (cl_shared_memory cl)" "i < length (cl_shared_memory cl)" "cl_shared_memory cl ! i = Some b"
    using pe by (simp_all add: local_pe_def)
  obtain mp where mp: "comm_node_map nd pe = Some mp" "lm_type mp = PE_TYPE_LOCAL" "sint (lm_index mp) = int i"
    using pe by (auto simp: local_pe_def)
  have "mapped_heap cl mp = Some b" using mp(3) ok by (simp add: mapped_heap_def)
  moreover have "store_bytes nm (cl_me cl) (cl_shared_memory cl) (b + of_nat off) xs = Some (put_heap nm i off xs)"
    by (rule store_bytes_heap [OF ok]) (use off load_bytes_length [OF src(2)] in simp)
  ultimately show ?thesis using mp(1,2) src(2) no_overlap [OF ok off src(1)]
    by (simp add: comm_local_put_def memcpy_def)
qed

lemma comm_local_get_stores:
  assumes pe: "local_pe nd cl pe i b" and off: "off + unat sz \<le> SYMMETRIC_HEAP_SIZE"
    and dest: "priv_area (cl_shared_memory cl) dest (unat sz)"
      "\<forall>k < unat sz. nm_priv nm (cl_me cl) (dest + of_nat k) \<noteq> None"
  shows "\<exists>nm'. comm_local_get nd cl pe dest (of_nat off) sz nm = Some nm' \<and>
    load_bytes nm' (cl_me cl) (cl_shared_memory cl) dest (unat sz) = Some (heap_bytes nm i off (unat sz)) \<and>
    nm_heap nm' = nm_heap nm \<and> (\<forall>r. r \<noteq> cl_me cl \<longrightarrow> nm_priv nm' r = nm_priv nm r)"
proof -
  have ok: "maps_ok (cl_shared_memory cl)" "i < length (cl_shared_memory cl)" "cl_shared_memory cl ! i = Some b"
    using pe by (simp_all add: local_pe_def)
  obtain mp where mp: "comm_node_map nd pe = Some mp" "lm_type mp = PE_TYPE_LOCAL" "sint (lm_index mp) = int i"
    using pe by (auto simp: local_pe_def)
  let ?xs = "heap_bytes nm i off (unat sz)"
  have len: "length ?xs = unat sz" by (simp add: heap_bytes_def)
  have "unat sz < 2 ^ 63" using off by (simp add: SYMMETRIC_HEAP_SIZE_def)
  then obtain nm' where nm': "store_bytes nm (cl_me cl) (cl_shared_memory cl) dest ?xs = Some nm'"
    "load_bytes nm' (cl_me cl) (cl_shared_memory cl) dest (unat sz) = Some ?xs"
    "nm_heap nm' = nm_heap nm" "\<forall>r. r \<noteq> cl_me cl \<longrightarrow> nm_priv nm' r = nm_priv nm r"
    using store_bytes_priv [of "cl_shared_memory cl" dest ?xs nm "cl_me cl"] dest len by auto
  have "mapped_heap cl mp = Some b" using mp(3) ok by (simp add: mapped_heap_def)
  moreover have "load_bytes nm (cl_me cl) (cl_shared_memory cl) (b + of_nat off) (unat sz) = Some ?xs"
    by (rule load_bytes_heap [OF ok off])
  ultimately show ?thesis using mp(1,2) nm' no_overlap [OF ok off dest(1)]
    by (simp add: comm_local_get_def memcpy_def)
qed

text \<open>
  A put to a PE of the same node copies the bytes from the caller's memory to the given
  offset of that PE's symmetric heap. Every process of the node then reads them at its own
  address of that offset, and nothing else changes.
\<close>

theorem comm_local_put_visible:
  assumes pe: "local_pe nd cl pe i b" and off: "off + unat sz \<le> SYMMETRIC_HEAP_SIZE"
    and src: "priv_area (cl_shared_memory cl) src (unat sz)"
      "load_bytes nm (cl_me cl) (cl_shared_memory cl) src (unat sz) = Some xs"
  shows "\<exists>nm'. comm_local_put nd cl pe (of_nat off) src sz nm = Some nm' \<and>
    (\<forall>r bases c. maps_ok bases \<and> i < length bases \<and> bases ! i = Some c \<longrightarrow>
      load_bytes nm' r bases (c + of_nat off) (unat sz) = Some xs) \<and>
    (\<forall>j k. j \<noteq> i \<or> k < off \<or> off + unat sz \<le> k \<longrightarrow> nm_heap nm' j k = nm_heap nm j k) \<and>
    nm_priv nm' = nm_priv nm"
proof -
  have len: "length xs = unat sz" by (rule load_bytes_length [OF src(2)])
  have "load_bytes (put_heap nm i off xs) r bases (c + of_nat off) (unat sz) = Some xs"
    if "maps_ok bases" "i < length bases" "bases ! i = Some c" for r bases c
    using load_bytes_heap [OF that, of off "length xs"] heap_bytes_put_heap [of nm i off xs] off len by simp
  with comm_local_put_stores [OF assms] show ?thesis
    using len by (auto simp: put_heap_def)
qed

theorem comm_local_put_visible_witness:
  "\<exists>nm'. comm_local_put demo_table_node demo_local 0 8 64 4 demo_nm = Some nm' \<and>
    load_bytes nm' 0 [Some 4096] 4104 4 = Some [64, 65, 66, 67]"
proof -
  have "8 + unat (4 :: size_t) \<le> SYMMETRIC_HEAP_SIZE" by (simp add: SYMMETRIC_HEAP_SIZE_def)
  from comm_local_put_visible [OF demo_local_pe this, of 64 demo_nm] demo_priv demo_bytes
  obtain nm' where nm': "comm_local_put demo_table_node demo_local 0 8 64 4 demo_nm = Some nm'"
    "\<forall>r bases c. maps_ok bases \<and> 0 < length bases \<and> bases ! 0 = Some c \<longrightarrow>
      load_bytes nm' r bases (c + of_nat 8) (unat (4 :: size_t)) = Some [64, 65, 66, 67]"
    by (auto simp: demo_local_def cl_me_def)
  from nm'(2) [rule_format, of "[Some 4096]" 4096 0] demo_maps nm'(1) show ?thesis by simp
qed

text \<open>
  A get from a PE of the same node leaves in the caller's memory the bytes that lie at
  the given offset of that PE's symmetric heap, and changes no heap and no other process.
\<close>

theorem comm_local_get_reads:
  assumes pe: "local_pe nd cl pe i b" and off: "off + unat sz \<le> SYMMETRIC_HEAP_SIZE"
    and dest: "priv_area (cl_shared_memory cl) dest (unat sz)"
      "\<forall>k < unat sz. nm_priv nm (cl_me cl) (dest + of_nat k) \<noteq> None"
  shows "\<exists>nm'. comm_local_get nd cl pe dest (of_nat off) sz nm = Some nm' \<and>
    load_bytes nm' (cl_me cl) (cl_shared_memory cl) dest (unat sz) = Some (heap_bytes nm i off (unat sz)) \<and>
    nm_heap nm' = nm_heap nm \<and> (\<forall>r. r \<noteq> cl_me cl \<longrightarrow> nm_priv nm' r = nm_priv nm r)"
  using comm_local_get_stores [OF assms] .

theorem comm_local_get_reads_witness:
  "\<exists>nm'. comm_local_get demo_table_node demo_local 0 64 8 4 demo_nm = Some nm' \<and>
    load_bytes nm' 0 [Some 4096] 64 4 = Some [0, 0, 0, 0]"
proof -
  have "8 + unat (4 :: size_t) \<le> SYMMETRIC_HEAP_SIZE" by (simp add: SYMMETRIC_HEAP_SIZE_def)
  from comm_local_get_reads [OF demo_local_pe this, of 64 demo_nm] demo_priv demo_defined
  show ?thesis by (auto simp: demo_local_def cl_me_def heap_bytes_def demo_nm_def upt_rec)
qed

end
