(* ===== verification/Fifo.thy ===== *)
theory Fifo
  imports Prelude
begin

text \<open>
  The two queues of the library, of jobs (\<open>job/work.c\<close>) and of packets
  (\<open>comm/comm_remote.c\<close>), are linked lists of cells from \<open>malloc\<close> with a head and a tail
  pointer. This theory holds what they share: the C allocator as an input, and the interface
  of a queue with what follows from it for any interleaving of insertions and removals.
\<close>

section \<open>malloc as an input\<close>

text \<open>
  The next answer of \<open>malloc\<close>: \<open>NULL\<close> at the end of the list and where the list would break
  the contract of \<open>malloc\<close> by an address in use.
\<close>

fun take_answer :: "(ptr \<Rightarrow> bool) \<Rightarrow> ptr list \<Rightarrow> ptr \<times> ptr list" where
  "take_answer used [] = (NULL, [])"
| "take_answer used (p # ps) = (if user_ptr p \<and> \<not> used p then p else NULL, ps)"

definition answers_ok :: "(ptr \<Rightarrow> bool) \<Rightarrow> ptr list \<Rightarrow> nat \<Rightarrow> bool" where
  "answers_ok used ps k \<longleftrightarrow>
     k \<le> length ps \<and> distinct (take k ps) \<and> list_all (\<lambda>p. user_ptr p \<and> \<not> used p) (take k ps)"

lemma answers_okD:
  assumes "answers_ok used ps (Suc k)"
  obtains p rest where "ps = p # rest" "take_answer used ps = (p, rest)" "user_ptr p" "\<not> used p"
    "p \<noteq> NULL" "answers_ok (\<lambda>q. used q \<or> q = p) rest k"
proof (cases ps)
  case (Cons p rest)
  with assms have p: "user_ptr p" "\<not> used p" by (simp_all add: answers_ok_def)
  moreover from p(1) have "p \<noteq> NULL" by (auto simp: user_ptr_def)
  moreover from assms Cons have "answers_ok (\<lambda>q. used q \<or> q = p) rest k"
    by (auto simp: answers_ok_def list_all_iff)
  ultimately show thesis using that Cons by simp
qed (use assms in \<open>simp add: answers_ok_def\<close>)

lemma answers_ok_weaken:
  "answers_ok used ps k \<Longrightarrow> (\<And>q. used' q \<Longrightarrow> used q) \<Longrightarrow> answers_ok used' ps k"
  by (auto simp: answers_ok_def list_all_iff)

lemma answers_ok_mono:
  assumes "answers_ok used ps k" and "j \<le> k"
  shows "answers_ok used ps j"
proof -
  have "take k ps = take j ps @ take (k - j) (drop j ps)"
    using assms(2) by (simp flip: take_add)
  with assms show ?thesis by (simp add: answers_ok_def)
qed

lemma take_answer_cases:
  assumes "take_answer used ps = (p, rest)" and "p \<noteq> NULL"
  shows "ps = p # rest" and "user_ptr p" and "\<not> used p"
  using assms by (cases ps; auto split: if_splits)+

section \<open>The interface of a queue\<close>

datatype 'a queue_op = Enq 'a | Deq

primrec enqueued :: "'a queue_op list \<Rightarrow> 'a list" where
  "enqueued [] = []"
| "enqueued (x # ops) = (case x of Enq a \<Rightarrow> a # enqueued ops | Deq \<Rightarrow> enqueued ops)"

lemma enqueued_append [simp]: "enqueued (xs @ ys) = enqueued xs @ enqueued ys"
  by (induction xs) (auto split: queue_op.splits)

text \<open>A run of operations, and the elements that the removals returned.\<close>

fun queue_run :: "('s \<Rightarrow> 'a \<Rightarrow> 's option) \<Rightarrow> ('s \<Rightarrow> ('a option \<times> 's) option) \<Rightarrow>
    's \<Rightarrow> 'a queue_op list \<Rightarrow> ('a list \<times> 's) option" where
  "queue_run enq deq s [] = Some ([], s)"
| "queue_run enq deq s (Enq x # ops) = do { s \<leftarrow> enq s x; queue_run enq deq s ops }"
| "queue_run enq deq s (Deq # ops) = do {
     (x, s) \<leftarrow> deq s;
     (xs, s) \<leftarrow> queue_run enq deq s ops;
     Some (case x of None \<Rightarrow> xs | Some x \<Rightarrow> x # xs, s)
   }"

locale fifo =
  fixes enq :: "'s \<Rightarrow> 'a \<Rightarrow> 's option" and deq :: "'s \<Rightarrow> ('a option \<times> 's) option"
    and rep :: "'s \<Rightarrow> 'a list \<Rightarrow> bool" and room :: "'s \<Rightarrow> nat \<Rightarrow> bool" and valid :: "'a \<Rightarrow> bool"
  assumes enq_rep: "rep s xs \<Longrightarrow> valid x \<Longrightarrow> enq s x = Some s' \<Longrightarrow> rep s' (xs @ [x])"
    and enq_total: "rep s xs \<Longrightarrow> valid x \<Longrightarrow> room s (Suc k) \<Longrightarrow> \<exists>s'. enq s x = Some s' \<and> room s' k"
    and deq_empty: "rep s [] \<Longrightarrow> deq s = Some (None, s)"
    and deq_rep: "rep s (x # xs) \<Longrightarrow> \<exists>s'. deq s = Some (Some x, s') \<and> rep s' xs \<and>
      (\<forall>k. room s k \<longrightarrow> room s' k)"
begin

text \<open>
  Whatever the order of insertions and removals, no element is lost, duplicated or
  overtaken: what came out, followed by what is left, is what was there followed by what
  went in.
\<close>

lemma run_fifo:
  assumes "rep s xs" and "room s (length (enqueued ops))" and "\<forall>x \<in> set (enqueued ops). valid x"
  shows "\<exists>out s' ys. queue_run enq deq s ops = Some (out, s') \<and> rep s' ys \<and>
    out @ ys = xs @ enqueued ops"
  using assms
proof (induction ops arbitrary: s xs)
  case (Cons x ops)
  show ?case
  proof (cases x)
    case (Enq a)
    with Cons.prems enq_total [of s xs a "length (enqueued ops)"] obtain s1 where
      s1: "enq s a = Some s1" "room s1 (length (enqueued ops))" by auto
    moreover have "rep s1 (xs @ [a])" using enq_rep [OF _ _ s1(1)] Cons.prems Enq by simp
    ultimately show ?thesis using Cons.IH [of s1 "xs @ [a]"] Cons.prems Enq by auto
  next
    case Deq
    show ?thesis
    proof (cases xs)
      case Nil
      with Cons.prems have "deq s = Some (None, s)" by (simp add: deq_empty)
      moreover have "\<exists>out s' ys. queue_run enq deq s ops = Some (out, s') \<and> rep s' ys \<and>
          out @ ys = xs @ enqueued ops"
        using Cons.IH [of s xs] Cons.prems Deq by simp
      ultimately show ?thesis using Deq by auto
    next
      case (Cons y ys)
      with Cons.prems deq_rep [of s y ys] Deq obtain s1 where
        s1: "deq s = Some (Some y, s1)" "rep s1 ys" "room s1 (length (enqueued ops))" by auto
      then show ?thesis using Cons.IH [of s1 ys] Cons.prems Deq Cons by auto
    qed
  qed
qed auto

lemma drain:
  assumes "rep s xs"
  shows "\<exists>s'. queue_run enq deq s (replicate (length xs) Deq) = Some (xs, s') \<and> rep s' []"
  using assms
proof (induction xs arbitrary: s)
  case (Cons x xs)
  from deq_rep [OF Cons.prems] obtain s1 where "deq s = Some (Some x, s1)" "rep s1 xs" by blast
  with Cons.IH [of s1] show ?case by auto
qed simp

end

end
