(* ===== verification/Work_Queue.thy ===== *)
theory Work_Queue
  imports Fifo
begin

text \<open>
  \<open>job/work.c\<close>: the queue of jobs between the threads that submit remote memory accesses
  and the worker thread. The operations hold the mutex for their whole body, so each one is
  one step. The worker executes a job with \<open>comm_put\<close>, which is a parameter here and is
  supplied in \<open>Comm\<close>.

  The theory proves that the queue implements a list, that the worker executes the jobs in
  the order of submission under every interleaving, and that finalizing the worker can leave
  submitted jobs behind.
\<close>

section \<open>Definitions\<close>

definition HANDLER_PUT :: "8 word" where "HANDLER_PUT = 0"
definition HANDLER_GET :: "8 word" where "HANDLER_GET = 1"

text \<open>\<open>work_job_t\<close> and \<open>work_queue_t\<close>.\<close>

record work_job_t =
  j_handler :: "8 word"
  j_dest_pe :: c_int
  j_origin_pe :: c_int
  j_dest :: ptr
  j_src :: ptr
  j_size :: size_t

record work_queue_t =
  wq_job :: ptr
  wq_next :: ptr

text \<open>The static variables of \<open>work.c\<close>, the objects it allocates, and \<open>malloc\<close>.\<close>

record work_state =
  w_head :: ptr
  w_tail :: ptr
  w_finished :: c_int
  w_cells :: "ptr \<Rightarrow> work_queue_t option"
  w_jobs :: "ptr \<Rightarrow> work_job_t option"
  w_answers :: "ptr list"

definition w_used :: "work_state \<Rightarrow> ptr \<Rightarrow> bool" where
  "w_used st p \<longleftrightarrow> w_cells st p \<noteq> None \<or> w_jobs st p \<noteq> None"

text \<open>Both allocations are followed by stores to every field of the object.\<close>

definition malloc_cell :: "work_state \<Rightarrow> ptr \<times> work_state" where
  "malloc_cell st =
     (let (p, rest) = take_answer (w_used st) (w_answers st);
          st = st\<lparr>w_answers := rest\<rparr>
      in (p, if p = NULL then st
             else st\<lparr>w_cells := (w_cells st)(p \<mapsto> \<lparr>wq_job = NULL, wq_next = NULL\<rparr>)\<rparr>))"

definition malloc_job :: "work_state \<Rightarrow> work_job_t \<Rightarrow> (ptr \<times> work_state) option" where
  "malloc_job st j =
     (let (p, rest) = take_answer (w_used st) (w_answers st)
      in if p = NULL then None
         else Some (p, st\<lparr>w_answers := rest, w_jobs := (w_jobs st)(p \<mapsto> j)\<rparr>))"

definition upd_cell :: "work_state \<Rightarrow> ptr \<Rightarrow> (work_queue_t \<Rightarrow> work_queue_t) \<Rightarrow> work_state option" where
  "upd_cell st p f =
     (if p = NULL then None
      else do { c \<leftarrow> w_cells st p; Some (st\<lparr>w_cells := (w_cells st)(p \<mapsto> f c)\<rparr>) })"

definition work_thread_enqueue :: "work_state \<Rightarrow> ptr \<Rightarrow> work_state option" where
  "work_thread_enqueue st job = do {
     let (c, st1) = malloc_cell st;
     st2 \<leftarrow> (if w_head st = NULL then Some (st1\<lparr>w_head := c, w_tail := c\<rparr>)
            else do {
              st2 \<leftarrow> upd_cell st1 (w_tail st1) (\<lambda>t. t\<lparr>wq_next := c\<rparr>);
              Some (st2\<lparr>w_tail := c\<rparr>)
            });
     st3 \<leftarrow> upd_cell st2 (w_tail st2) (\<lambda>t. t\<lparr>wq_job := job\<rparr>);
     upd_cell st3 (w_tail st3) (\<lambda>t. t\<lparr>wq_next := NULL\<rparr>)
   }"

text \<open>The cell is not freed: that statement of the source is a comment.\<close>

definition work_thread_dequeue :: "work_state \<Rightarrow> (ptr \<times> work_state) option" where
  "work_thread_dequeue st =
     (if w_head st = NULL then Some (NULL, st)
      else do {
        c \<leftarrow> w_cells st (w_head st);
        Some (wq_job c, st\<lparr>w_head := wq_next c\<rparr>)
      })"

text \<open>\<open>put\<close> is \<open>comm_put\<close> of destination, source, size and PE. A \<open>HANDLER_GET\<close> job does nothing.\<close>

definition work_thread_execute ::
    "(ptr \<Rightarrow> ptr \<Rightarrow> size_t \<Rightarrow> c_int \<Rightarrow> 'c \<Rightarrow> 'c option) \<Rightarrow> work_job_t \<Rightarrow> 'c \<Rightarrow> 'c option" where
  "work_thread_execute put j c =
     (if j_handler j = HANDLER_PUT then put (j_dest j) (j_src j) (j_size j) (j_dest_pe j) c
      else if j_handler j = HANDLER_GET then Some c
      else Some c)"

text \<open>One iteration of the loop of the worker thread: \<open>None\<close> inside when it yields.\<close>

definition work_thread_turn :: "work_state \<Rightarrow> (work_job_t option \<times> work_state) option" where
  "work_thread_turn st = do {
     (p, st) \<leftarrow> work_thread_dequeue st;
     if p = NULL then Some (None, st)
     else do { j \<leftarrow> w_jobs st p; Some (Some j, st) }
   }"

text \<open>
  The worker thread left alone, for at most \<open>n\<close> iterations. With nothing to do and
  \<open>finished\<close> unset it would yield for ever.
\<close>

fun work_thread_run :: "(ptr \<Rightarrow> ptr \<Rightarrow> size_t \<Rightarrow> c_int \<Rightarrow> 'c \<Rightarrow> 'c option) \<Rightarrow>
    nat \<Rightarrow> work_state \<Rightarrow> 'c \<Rightarrow> (work_state \<times> 'c) option" where
  "work_thread_run put 0 st c = Some (st, c)"
| "work_thread_run put (Suc n) st c =
     (if w_finished st \<noteq> 0 then Some (st, c)
      else do {
        (j, st) \<leftarrow> work_thread_turn st;
        c \<leftarrow> (case j of None \<Rightarrow> Some c | Some j \<Rightarrow> work_thread_execute put j c);
        work_thread_run put n st c
      })"

definition work_start :: "work_state \<Rightarrow> work_state" where
  "work_start st = st\<lparr>w_head := NULL, w_tail := NULL, w_finished := 0\<rparr>"

definition work_finalize :: "work_state \<Rightarrow> work_state" where
  "work_finalize st = st\<lparr>w_finished := 1\<rparr>"

definition work_put_remote :: "work_state \<Rightarrow> 8 word \<Rightarrow> c_int \<Rightarrow> c_int \<Rightarrow> ptr \<Rightarrow> ptr \<Rightarrow> size_t \<Rightarrow>
    (c_int \<times> work_state) option" where
  "work_put_remote st handler pe origin_pe dest src sz = do {
     (job, st) \<leftarrow> malloc_job st \<lparr>j_handler = handler, j_dest_pe = pe, j_origin_pe = origin_pe,
       j_dest = dest, j_src = src, j_size = sz\<rparr>;
     st \<leftarrow> work_thread_enqueue st job;
     Some (0, st)
   }"

text \<open>\<open>work_put\<close> enters \<open>comm_remote_pe()\<close>, here \<open>me\<close>, as the origin.\<close>

definition work_put :: "c_int \<Rightarrow> work_state \<Rightarrow> 8 word \<Rightarrow> c_int \<Rightarrow> ptr \<Rightarrow> ptr \<Rightarrow> size_t \<Rightarrow>
    (c_int \<times> work_state) option" where
  "work_put me st handler pe dest src sz = do {
     (job, st) \<leftarrow> malloc_job st \<lparr>j_handler = handler, j_dest_pe = pe, j_origin_pe = me,
       j_dest = dest, j_src = src, j_size = sz\<rparr>;
     st \<leftarrow> work_thread_enqueue st job;
     Some (0, st)
   }"

section \<open>The queue represents a list\<close>

definition w_next :: "work_state \<Rightarrow> ptr \<Rightarrow> ptr option" where
  "w_next st p = map_option wq_next (w_cells st p)"

definition w_cell_job :: "work_state \<Rightarrow> ptr \<Rightarrow> ptr option" where
  "w_cell_job st p = map_option wq_job (w_cells st p)"

definition wq_rep :: "work_state \<Rightarrow> ptr list \<Rightarrow> bool" where
  "wq_rep st js \<longleftrightarrow> (\<exists>cs. linked (w_next st) (w_head st) cs \<and>
     (cs \<noteq> [] \<longrightarrow> w_tail st = last cs) \<and> map (w_cell_job st) cs = map Some js \<and> NULL \<notin> set js)"

definition w_room :: "work_state \<Rightarrow> nat \<Rightarrow> bool" where
  "w_room st k \<longleftrightarrow> answers_ok (w_used st) (w_answers st) k"

lemma wq_rep_start: "wq_rep (work_start st) []"
  by (simp add: wq_rep_def work_start_def)

lemma upd_cell_Some: "upd_cell st p f = Some st' \<longleftrightarrow>
    p \<noteq> NULL \<and> (\<exists>c. w_cells st p = Some c \<and> st' = st\<lparr>w_cells := (w_cells st)(p \<mapsto> f c)\<rparr>)"
  by (auto simp: upd_cell_def bind_eq_Some_conv)

text \<open>What an insertion does when it returns, and that it returns while there is memory.\<close>

lemma work_thread_enqueue_Some:
  assumes rep: "wq_rep st js" and j: "j \<noteq> NULL" and e: "work_thread_enqueue st j = Some st'"
  shows "wq_rep st' (js @ [j])" and "w_jobs st' = w_jobs st" and "w_finished st' = w_finished st"
proof -
  obtain p rest where t: "take_answer (w_used st) (w_answers st) = (p, rest)" by fastforce
  obtain cs where cs: "linked (w_next st) (w_head st) cs" "cs \<noteq> [] \<longrightarrow> w_tail st = last cs"
    "map (w_cell_job st) cs = map Some js" "NULL \<notin> set js" using rep by (auto simp: wq_rep_def)
  have p: "p \<noteq> NULL" using e t by (auto simp: work_thread_enqueue_def malloc_cell_def upd_cell_Some
        Let_def bind_eq_Some_conv split: if_splits)
  have new: "w_cells st p = None" using take_answer_cases(3) [OF t p] by (simp add: w_used_def)
  then have pc: "p \<notin> set cs" using linked_in_dom [OF cs(1), of p] by (auto simp: w_next_def)
  show "w_jobs st' = w_jobs st" "w_finished st' = w_finished st"
    using e t by (auto simp: work_thread_enqueue_def malloc_cell_def upd_cell_Some Let_def
        bind_eq_Some_conv split: if_splits)
  show "wq_rep st' (js @ [j])"
  proof (cases "cs = []")
    case True
    with cs(1) have h: "w_head st = NULL" by simp
    have "st' = st\<lparr>w_answers := rest, w_head := p, w_tail := p,
        w_cells := (w_cells st)(p \<mapsto> \<lparr>wq_job = j, wq_next = NULL\<rparr>)\<rparr>"
      using e t p h by (simp add: work_thread_enqueue_def malloc_cell_def upd_cell_def)
    with p True cs(3,4) j show ?thesis
      unfolding wq_rep_def by (intro exI [of _ "[p]"]) (simp add: w_next_def w_cell_job_def)
  next
    case False
    then have h: "w_head st \<noteq> NULL" "w_tail st = last cs" "last cs \<noteq> NULL"
      using cs(1,2) linked_not_NULL [OF cs(1)] by (auto dest: last_in_set)
    obtain c where c: "w_cells st (last cs) = Some c"
      using linked_in_dom [OF cs(1), of "last cs"] False by (auto simp: w_next_def)
    have lp: "last cs \<noteq> p" using pc False by auto
    have st': "st' = st\<lparr>w_answers := rest, w_tail := p,
        w_cells := (w_cells st)(last cs \<mapsto> c\<lparr>wq_next := p\<rparr>, p \<mapsto> \<lparr>wq_job = j, wq_next = NULL\<rparr>)\<rparr>"
      using e t p h c lp by (simp add: work_thread_enqueue_def malloc_cell_def upd_cell_def fun_upd_twist)
    obtain ds where ds: "cs = ds @ [last cs]" using False by (metis append_butlast_last_id)
    have "linked ((w_next st)(p \<mapsto> NULL, last cs \<mapsto> p)) (w_head st) (ds @ [last cs, p])"
      using cs(1) pc p ds by (intro linked_snoc) auto
    moreover have "w_next st' = (w_next st)(p \<mapsto> NULL, last cs \<mapsto> p)"
      using lp by (auto simp: st' w_next_def)
    moreover have "w_cell_job st' x = w_cell_job st x" if "x \<in> set cs" for x
      using that pc c by (auto simp: st' w_cell_job_def)
    then have "map (w_cell_job st') cs = map Some js" using cs(3) by (metis map_cong)
    moreover have "w_cell_job st' p = Some j" by (simp add: st' w_cell_job_def)
    moreover have "w_head st' = w_head st" "w_tail st' = p" by (simp_all add: st')
    ultimately show ?thesis using ds cs(4) j unfolding wq_rep_def
      by (intro exI [of _ "cs @ [p]"]) (metis (no_types, lifting) append.assoc append_Cons append_Nil
          last_snoc list.simps(8,9) map_append set_ConsD set_append Un_iff)
  qed
qed

lemma work_thread_enqueue_total:
  assumes rep: "wq_rep st js" and room: "w_room st (Suc k)"
  shows "\<exists>st'. work_thread_enqueue st j = Some st' \<and> w_room st' k"
proof -
  obtain p rest where p: "take_answer (w_used st) (w_answers st) = (p, rest)" "p \<noteq> NULL" "\<not> w_used st p"
    "answers_ok (\<lambda>q. w_used st q \<or> q = p) rest k"
    using room by (auto simp: w_room_def elim: answers_okD)
  obtain cs where cs: "linked (w_next st) (w_head st) cs" "cs \<noteq> [] \<longrightarrow> w_tail st = last cs"
    using rep by (auto simp: wq_rep_def)
  have tl: "w_tail st \<noteq> NULL \<and> w_cells st (w_tail st) \<noteq> None" if "w_head st \<noteq> NULL"
  proof -
    have "cs \<noteq> []" using cs(1) that by auto
    then show ?thesis using cs linked_in_dom [OF cs(1), of "last cs"] linked_not_NULL [OF cs(1)]
      by (auto simp: w_next_def dest: last_in_set)
  qed
  have ok: "answers_ok f rest k" if "\<And>q. f q \<Longrightarrow> w_used st q \<or> q = p" for f
    using p(4) that by (rule answers_ok_weaken)
  show ?thesis
    using p tl by (auto simp: work_thread_enqueue_def malloc_cell_def upd_cell_def w_room_def
        intro!: ok split: if_splits) (auto simp: w_used_def split: if_splits)
qed

lemma work_thread_dequeue_Cons:
  assumes "wq_rep st (j # js)"
  obtains st' where "work_thread_dequeue st = Some (j, st')" "wq_rep st' js" "j \<noteq> NULL"
    "w_jobs st' = w_jobs st" "w_cells st' = w_cells st" "w_answers st' = w_answers st"
    "w_finished st' = w_finished st"
proof -
  obtain cs where cs: "linked (w_next st) (w_head st) cs" "cs \<noteq> [] \<longrightarrow> w_tail st = last cs"
    "map (w_cell_job st) cs = map Some (j # js)" "NULL \<notin> set (j # js)"
    using assms unfolding wq_rep_def by blast
  then obtain d ds where ds: "cs = d # ds" by (cases cs) auto
  then have d: "w_head st = d" "d \<noteq> NULL" using cs(1) by simp_all
  obtain c where c: "w_cells st d = Some c" "wq_job c = j"
    using cs(3) ds by (auto simp: w_cell_job_def)
  moreover have "linked (w_next st) (wq_next c) ds" using cs(1) ds c(1) by (simp add: w_next_def)
  moreover note d
  ultimately have c: "w_cells st d = Some c" "wq_job c = j" "w_head st = d" "d \<noteq> NULL"
    "linked (w_next st) (wq_next c) ds" by blast+
  show thesis
  proof (rule that [of "st\<lparr>w_head := wq_next c\<rparr>"])
    have "w_next (st\<lparr>w_head := wq_next c\<rparr>) = w_next st"
      "w_cell_job (st\<lparr>w_head := wq_next c\<rparr>) = w_cell_job st"
      by (simp_all add: fun_eq_iff w_next_def w_cell_job_def)
    then show "wq_rep (st\<lparr>w_head := wq_next c\<rparr>) js"
      using cs(2-4) ds c(5) unfolding wq_rep_def by (intro exI [of _ ds]) auto
  qed (use c cs(4) in \<open>simp_all add: work_thread_dequeue_def\<close>)
qed

lemma work_thread_dequeue_Nil: "wq_rep st [] \<Longrightarrow> work_thread_dequeue st = Some (NULL, st)"
  by (auto simp: wq_rep_def work_thread_dequeue_def)

text \<open>The removal with \<open>NULL\<close> read as no job.\<close>

definition dequeue_opt :: "work_state \<Rightarrow> (ptr option \<times> work_state) option" where
  "dequeue_opt st = do {
     (p, st) \<leftarrow> work_thread_dequeue st;
     Some (if p = NULL then None else Some p, st)
   }"

interpretation work_fifo: fifo work_thread_enqueue dequeue_opt wq_rep w_room "\<lambda>p. p \<noteq> NULL"
proof unfold_locales
  show "wq_rep s' (xs @ [x])" if "wq_rep s xs" "x \<noteq> NULL" "work_thread_enqueue s x = Some s'" for s xs x s'
    using that by (rule work_thread_enqueue_Some(1))
  show "\<exists>s'. work_thread_enqueue s x = Some s' \<and> w_room s' k"
    if "wq_rep s xs" "x \<noteq> NULL" "w_room s (Suc k)" for s xs x k
    using that(1,3) by (rule work_thread_enqueue_total)
  show "dequeue_opt s = Some (None, s)" if "wq_rep s []" for s
    using that by (simp add: dequeue_opt_def work_thread_dequeue_Nil)
  show "\<exists>s'. dequeue_opt s = Some (Some x, s') \<and> wq_rep s' xs \<and> (\<forall>k. w_room s k \<longrightarrow> w_room s' k)"
    if "wq_rep s (x # xs)" for s x xs
    by (rule work_thread_dequeue_Cons [OF that]) (simp add: dequeue_opt_def w_room_def w_used_def [abs_def])
qed

section \<open>The queue as a list of jobs\<close>

definition work_rep :: "work_state \<Rightarrow> work_job_t list \<Rightarrow> bool" where
  "work_rep st js \<longleftrightarrow> (\<exists>ps. wq_rep st ps \<and> map (w_jobs st) ps = map Some js)"

lemma work_rep_start: "work_rep (work_start st) []"
  using wq_rep_start by (auto simp: work_rep_def)

lemma wq_rep_cong:
  assumes "w_cells st' = w_cells st" and "w_head st' = w_head st" and "w_tail st' = w_tail st"
  shows "wq_rep st' ps = wq_rep st ps"
proof -
  have "w_next st' = w_next st" "w_cell_job st' = w_cell_job st"
    using assms(1) by (simp_all add: fun_eq_iff w_next_def w_cell_job_def)
  with assms show ?thesis by (simp add: wq_rep_def)
qed

lemma malloc_job_Some:
  assumes "malloc_job st j = Some (p, st')"
  shows "p \<noteq> NULL" "w_jobs st p = None" "w_jobs st' = (w_jobs st)(p \<mapsto> j)" "w_cells st' = w_cells st"
    "w_head st' = w_head st" "w_tail st' = w_tail st" "w_finished st' = w_finished st"
  using assms take_answer_cases(3) [of "w_used st" "w_answers st"]
  by (auto simp: malloc_job_def w_used_def split: prod.splits if_splits)

lemma work_put_eq: "work_put me st h pe d s n = work_put_remote st h pe me d s n"
  by (simp add: work_put_def work_put_remote_def)

lemma work_put_remote_Some:
  assumes rep: "work_rep st js" and put: "work_put_remote st h pe org d s n = Some (r, st')"
  shows "work_rep st' (js @ [\<lparr>j_handler = h, j_dest_pe = pe, j_origin_pe = org,
      j_dest = d, j_src = s, j_size = n\<rparr>])"
    and "r = 0" and "w_finished st' = w_finished st"
proof -
  let ?j = "\<lparr>j_handler = h, j_dest_pe = pe, j_origin_pe = org, j_dest = d, j_src = s, j_size = n\<rparr>"
  obtain p st1 where 1: "malloc_job st ?j = Some (p, st1)" "work_thread_enqueue st1 p = Some st'" "r = 0"
    using put by (auto simp: work_put_remote_def bind_eq_Some_conv)
  note m = malloc_job_Some [OF 1(1)]
  obtain ps where ps: "wq_rep st ps" "map (w_jobs st) ps = map Some js"
    using rep by (auto simp: work_rep_def)
  have "wq_rep st1 ps" using ps(1) wq_rep_cong [OF m(4-6)] by simp
  from work_thread_enqueue_Some [OF this m(1) 1(2)] have e: "wq_rep st' (ps @ [p])"
    "w_jobs st' = w_jobs st1" "w_finished st' = w_finished st1" by simp_all
  have "p \<notin> set ps"
  proof
    assume "p \<in> set ps"
    then have "w_jobs st p \<in> set (map (w_jobs st) ps)" by simp
    with m(2) show False unfolding ps(2) by auto
  qed
  then have "map (w_jobs st') ps = map (w_jobs st) ps" by (simp add: e(2) m(3))
  then have "map (w_jobs st') (ps @ [p]) = map Some (js @ [?j])" using ps(2) by (simp add: e(2) m(3))
  with e(1) show "work_rep st' (js @ [?j])" unfolding work_rep_def by blast
  show "r = 0" by (rule 1(3))
  show "w_finished st' = w_finished st" using e(3) m(7) by simp
qed

lemma work_put_remote_total:
  assumes rep: "work_rep st js" and room: "w_room st (k + 2)"
  shows "\<exists>st'. work_put_remote st h pe org d s n = Some (0, st') \<and> w_room st' k"
proof -
  let ?j = "\<lparr>j_handler = h, j_dest_pe = pe, j_origin_pe = org, j_dest = d, j_src = s, j_size = n\<rparr>"
  have "answers_ok (w_used st) (w_answers st) (Suc (Suc k))" using room by (simp add: w_room_def)
  then obtain p rest where p: "take_answer (w_used st) (w_answers st) = (p, rest)" "p \<noteq> NULL"
    "answers_ok (\<lambda>q. w_used st q \<or> q = p) rest (Suc k)" by (rule answers_okD) blast
  let ?st = "st\<lparr>w_answers := rest, w_jobs := (w_jobs st)(p \<mapsto> ?j)\<rparr>"
  have m: "malloc_job st ?j = Some (p, ?st)" using p by (simp add: malloc_job_def)
  obtain ps where "wq_rep st ps" using rep by (auto simp: work_rep_def)
  then have "wq_rep ?st ps" by (subst wq_rep_cong [where st = st]) simp_all
  moreover have "w_room ?st (Suc k)" unfolding w_room_def
    using answers_ok_weaken [OF p(3), of "w_used ?st"] by (auto simp: w_used_def split: if_splits)
  ultimately obtain st' where "work_thread_enqueue ?st p = Some st'" "w_room st' k"
    using work_thread_enqueue_total by blast
  with m show ?thesis by (simp add: work_put_remote_def)
qed

lemma work_thread_turn_Nil: "work_rep st [] \<Longrightarrow> work_thread_turn st = Some (None, st)"
  by (auto simp: work_rep_def work_thread_turn_def work_thread_dequeue_Nil)

lemma work_thread_turn_Cons:
  assumes "work_rep st (j # js)"
  shows "\<exists>st'. work_thread_turn st = Some (Some j, st') \<and> work_rep st' js \<and>
    w_finished st' = w_finished st"
proof -
  obtain p ps where ps: "wq_rep st (p # ps)" "w_jobs st p = Some j" "map (w_jobs st) ps = map Some js"
    using assms by (auto simp: work_rep_def)
  obtain st' where "work_thread_dequeue st = Some (p, st')" "wq_rep st' ps" "p \<noteq> NULL"
    "w_jobs st' = w_jobs st" "w_finished st' = w_finished st"
    by (rule work_thread_dequeue_Cons [OF ps(1)])
  with ps(2,3) show ?thesis by (auto simp: work_thread_turn_def work_rep_def)
qed

section \<open>The worker thread\<close>

text \<open>Executing a list of jobs one after the other.\<close>

primrec execute_all :: "(ptr \<Rightarrow> ptr \<Rightarrow> size_t \<Rightarrow> c_int \<Rightarrow> 'c \<Rightarrow> 'c option) \<Rightarrow>
    work_job_t list \<Rightarrow> 'c \<Rightarrow> 'c option" where
  "execute_all put [] c = Some c"
| "execute_all put (j # js) c = do { c \<leftarrow> work_thread_execute put j c; execute_all put js c }"

lemma work_thread_run_idle:
  "work_rep st [] \<Longrightarrow> w_finished st = 0 \<Longrightarrow> work_thread_run put n st c = Some (st, c)"
  by (induction n) (simp_all add: work_thread_turn_Nil)

lemma work_thread_run_all:
  assumes "work_rep st js" and "w_finished st = 0" and "length js \<le> n"
    and "execute_all put js c = Some c'"
  shows "\<exists>st'. work_thread_run put n st c = Some (st', c') \<and> work_rep st' []"
  using assms
proof (induction js arbitrary: st c n)
  case Nil
  then show ?case using work_thread_run_idle [of st put n c] by simp
next
  case (Cons j js)
  then obtain m where m: "n = Suc m" "length js \<le> m" by (cases n) auto
  obtain st1 where st1: "work_thread_turn st = Some (Some j, st1)" "work_rep st1 js"
    "w_finished st1 = w_finished st" using work_thread_turn_Cons [OF Cons.prems(1)] by blast
  obtain c1 where c1: "work_thread_execute put j c = Some c1" "execute_all put js c1 = Some c'"
    using Cons.prems(4) by (auto simp: bind_eq_Some_conv)
  from Cons.IH [OF st1(2) _ m(2) c1(2)] st1 c1(1) m(1) Cons.prems(2) show ?case by simp
qed

text \<open>
  The worker thread beside the threads that submit jobs and the one that finalizes. The
  state adds what was submitted, what was handed to \<open>work_thread_execute\<close>, and whether the
  worker thread has ended.
\<close>

record work_system =
  ws_queue :: work_state
  ws_submitted :: "work_job_t list"
  ws_executed :: "work_job_t list"
  ws_ended :: bool

inductive work_step :: "work_system \<Rightarrow> work_system \<Rightarrow> bool" where
  submit: "work_put_remote (ws_queue s) h pe org d src n = Some (r, q) \<Longrightarrow>
    work_step s (s\<lparr>ws_queue := q, ws_submitted := ws_submitted s @
      [\<lparr>j_handler = h, j_dest_pe = pe, j_origin_pe = org, j_dest = d, j_src = src, j_size = n\<rparr>]\<rparr>)"
| execute: "\<not> ws_ended s \<Longrightarrow> w_finished (ws_queue s) = 0 \<Longrightarrow>
    work_thread_turn (ws_queue s) = Some (Some j, q) \<Longrightarrow>
    work_step s (s\<lparr>ws_queue := q, ws_executed := ws_executed s @ [j]\<rparr>)"
| idle: "\<not> ws_ended s \<Longrightarrow> w_finished (ws_queue s) = 0 \<Longrightarrow>
    work_thread_turn (ws_queue s) = Some (None, q) \<Longrightarrow> work_step s (s\<lparr>ws_queue := q\<rparr>)"
| leave: "\<not> ws_ended s \<Longrightarrow> w_finished (ws_queue s) \<noteq> 0 \<Longrightarrow> work_step s (s\<lparr>ws_ended := True\<rparr>)"
| finalize: "work_step s (s\<lparr>ws_queue := work_finalize (ws_queue s)\<rparr>)"

definition work_started :: "work_system \<Rightarrow> bool" where
  "work_started s \<longleftrightarrow> (\<exists>st. ws_queue s = work_start st) \<and> ws_submitted s = [] \<and>
     ws_executed s = [] \<and> \<not> ws_ended s"

definition work_inv :: "work_system \<Rightarrow> bool" where
  "work_inv s \<longleftrightarrow> (\<exists>js. work_rep (ws_queue s) js \<and> ws_submitted s = ws_executed s @ js)"

lemma work_rep_finalize: "work_rep (work_finalize st) js = work_rep st js"
  using wq_rep_cong [of "work_finalize st" st] by (simp add: work_rep_def work_finalize_def)

lemma work_inv_step: "work_step s t \<Longrightarrow> work_inv s \<Longrightarrow> work_inv t"
proof (induction rule: work_step.induct)
  case (submit s h pe org d src n r q)
  then obtain js where "work_rep (ws_queue s) js" "ws_submitted s = ws_executed s @ js"
    by (auto simp: work_inv_def)
  with work_put_remote_Some(1) [OF _ submit(1)] show ?case by (fastforce simp: work_inv_def)
next
  case (execute s j q)
  then obtain js where js: "work_rep (ws_queue s) js" "ws_submitted s = ws_executed s @ js"
    by (auto simp: work_inv_def)
  with execute(3) obtain js' where "js = j # js'" "work_rep q js'"
    using work_thread_turn_Nil work_thread_turn_Cons by (cases js) fastforce+
  with js(2) show ?case by (auto simp: work_inv_def)
next
  case (idle s q)
  then obtain js where js: "work_rep (ws_queue s) js" "ws_submitted s = ws_executed s @ js"
    by (auto simp: work_inv_def)
  with idle(3) have "js = []" "q = ws_queue s"
    using work_thread_turn_Nil work_thread_turn_Cons by (cases js; fastforce)+
  with js show ?case by (simp add: work_inv_def)
qed (auto simp: work_inv_def work_rep_finalize)

interpretation worker: inductive_invariant work_started work_step work_inv
proof unfold_locales
  show "work_inv s" if "work_started s" for s
    using that work_rep_start by (auto simp: work_started_def work_inv_def)
qed (rule work_inv_step)

section \<open>Properties\<close>

text \<open>The queue that the properties are evaluated on: new, and with one job.\<close>

definition demo_queue :: work_state where
  "demo_queue = work_start \<lparr>w_head = 0, w_tail = 0, w_finished = 0, w_cells = Map.empty,
     w_jobs = Map.empty, w_answers = [64, 128, 192, 256]\<rparr>"

definition demo_job :: work_job_t where
  "demo_job = \<lparr>j_handler = HANDLER_PUT, j_dest_pe = 1, j_origin_pe = 0, j_dest = 16, j_src = 4096, j_size = 8\<rparr>"

lemma demo_queue_one:
  obtains st where "work_put_remote demo_queue HANDLER_PUT 1 0 16 4096 8 = Some (0, st)"
    "work_rep st [demo_job]" "w_finished st = 0"
proof -
  have rep: "work_rep demo_queue []" by (simp add: demo_queue_def work_rep_start)
  have room: "w_room demo_queue (0 + 2)"
    by (simp add: w_room_def answers_ok_def demo_queue_def work_start_def w_used_def user_ptr_def)
  obtain st where st: "work_put_remote demo_queue HANDLER_PUT 1 0 16 4096 8 = Some (0, st)"
    using work_put_remote_total [OF rep room, of HANDLER_PUT 1 0 16 4096 8] by blast
  from work_put_remote_Some [OF rep st] st show thesis
    by (intro that) (simp_all add: demo_job_def demo_queue_def work_start_def)
qed

lemma demo_system: "reach work_started work_step
    \<lparr>ws_queue = work_start st, ws_submitted = [], ws_executed = [], ws_ended = False\<rparr>"
  by (rule reach_start) (auto simp: work_started_def)

text \<open>
  C32: under any order of insertions and removals that memory allows, the job queue neither
  loses, duplicates nor reorders jobs: the jobs removed, followed by those still queued, are
  the jobs queued at first followed by those inserted.
\<close>

theorem work_queue_fifo:
  assumes "wq_rep st js" and "w_room st (length (enqueued ops))" and "NULL \<notin> set (enqueued ops)"
  shows "\<exists>out st' rest. queue_run work_thread_enqueue dequeue_opt st ops = Some (out, st') \<and>
    wq_rep st' rest \<and> out @ rest = js @ enqueued ops"
  using work_fifo.run_fifo [OF assms(1,2)] assms(3) by metis

theorem work_queue_fifo_witness:
  "\<exists>st' rest. queue_run work_thread_enqueue dequeue_opt demo_queue [Enq 5, Enq 6, Deq, Enq 7, Deq] =
    Some ([5, 6], st') \<and> wq_rep st' rest \<and> rest = [7]"
proof -
  let ?ops = "[Enq 5, Enq 6, Deq, Enq 7, Deq]"
  have "wq_rep demo_queue []" "w_room demo_queue (length (enqueued ?ops))" "NULL \<notin> set (enqueued ?ops)"
    by (simp_all add: demo_queue_def wq_rep_start)
      (simp add: w_room_def answers_ok_def work_start_def w_used_def user_ptr_def)
  from work_queue_fifo [OF this] obtain out st' rest where
    r: "queue_run work_thread_enqueue dequeue_opt demo_queue ?ops = Some (out, st')"
      "wq_rep st' rest" "out @ rest = [5, 6, 7]" by auto
  moreover have "map_option fst (queue_run work_thread_enqueue dequeue_opt demo_queue ?ops) = Some [5, 6]"
    by code_simp
  ultimately show ?thesis by auto
qed

text \<open>
  A worker thread that is not finalized executes all queued jobs, in the order of their
  submission, within as many iterations as there are jobs, and leaves the queue empty.
\<close>

theorem worker_executes_in_order:
  assumes "work_rep st js" and "w_finished st = 0" and "length js \<le> n"
    and "execute_all put js c = Some c'"
  shows "\<exists>st'. work_thread_run put n st c = Some (st', c') \<and> work_rep st' []"
  using work_thread_run_all [OF assms] .

theorem worker_executes_in_order_witness:
  "\<exists>st st'. work_put_remote demo_queue HANDLER_PUT 1 0 16 4096 8 = Some (0, st) \<and>
    work_thread_run (\<lambda>d s n pe c. Some ((d, s, n, pe) # c)) 2 st [] = Some (st', [(16, 4096, 8, 1)])"
proof -
  obtain st where st: "work_put_remote demo_queue HANDLER_PUT 1 0 16 4096 8 = Some (0, st)"
    "work_rep st [demo_job]" "w_finished st = 0" by (rule demo_queue_one)
  have "execute_all (\<lambda>d s n pe c. Some ((d, s, n, pe) # c)) [demo_job] [] = Some [(16, 4096, 8, 1)]"
    by (simp add: demo_job_def work_thread_execute_def)
  from worker_executes_in_order [OF st(2,3) _ this, of 2] st(1) show ?thesis by auto
qed

text \<open>
  In every reachable state of the threads, the jobs executed so far are the first ones
  submitted, in order, and the queue holds exactly the others.
\<close>

theorem worker_submission_order:
  assumes "reach work_started work_step s"
  shows "\<exists>js. work_rep (ws_queue s) js \<and> ws_submitted s = ws_executed s @ js"
  using worker.reach_inv [OF assms] by (simp add: work_inv_def)

theorem worker_submission_order_witness:
  "\<exists>js. work_rep (work_start demo_queue) js \<and> [] = [] @ js"
  using worker_submission_order [OF demo_system, of demo_queue] by simp

text \<open>
  Finalizing does not wait for the queue. From every reachable state in which the worker
  runs, it can end with exactly the jobs executed that had been executed when it was
  finalized, and no later step executes another one.
\<close>

theorem work_finalize_drops_jobs:
  assumes "reach work_started work_step s" and "\<not> ws_ended s"
  shows "\<exists>t. reach work_started work_step t \<and> ws_ended t \<and> ws_executed t = ws_executed s \<and>
    ws_submitted t = ws_submitted s \<and> (\<forall>u. work_step t u \<longrightarrow> ws_executed u = ws_executed t)"
proof -
  let ?t = "s\<lparr>ws_queue := work_finalize (ws_queue s)\<rparr>"
  have "reach work_started work_step ?t" by (rule reach_next [OF assms(1) finalize])
  moreover have "work_step ?t (?t\<lparr>ws_ended := True\<rparr>)"
    by (rule leave) (use assms(2) in \<open>simp_all add: work_finalize_def\<close>)
  ultimately have "reach work_started work_step (?t\<lparr>ws_ended := True\<rparr>)" by (rule reach_next)
  moreover have "ws_executed u = ws_executed s" if "work_step (?t\<lparr>ws_ended := True\<rparr>) u" for u
    using that by (cases rule: work_step.cases) auto
  ultimately show ?thesis by (intro exI [of _ "?t\<lparr>ws_ended := True\<rparr>"]) simp
qed

theorem work_finalize_drops_jobs_witness:
  "\<exists>t. reach work_started work_step t \<and> ws_ended t \<and> ws_executed t = [] \<and> ws_submitted t = [demo_job]"
proof -
  obtain st where st: "work_put_remote demo_queue HANDLER_PUT 1 0 16 4096 8 = Some (0, st)"
    "work_rep st [demo_job]" "w_finished st = 0" by (rule demo_queue_one)
  let ?s = "\<lparr>ws_queue = demo_queue, ws_submitted = [], ws_executed = [], ws_ended = False\<rparr>"
  have "reach work_started work_step ?s" unfolding demo_queue_def by (rule demo_system)
  moreover have "work_step ?s \<lparr>ws_queue = st, ws_submitted = [demo_job], ws_executed = [], ws_ended = False\<rparr>"
    using submit [of ?s HANDLER_PUT 1 0 16 4096 8 0 st] st(1) by (simp add: demo_job_def)
  ultimately have "reach work_started work_step
      \<lparr>ws_queue = st, ws_submitted = [demo_job], ws_executed = [], ws_ended = False\<rparr>" by (rule reach_next)
  from work_finalize_drops_jobs [OF this] show ?thesis by auto
qed

end
