(* ===== verification/Comm_Remote.thy ===== *)
theory Comm_Remote
  imports Fifo Work_Queue Comm_Node Node_Memory
begin

text \<open>
  \<open>comm/comm_remote.c\<close>, the communication thread: packets and their layout on the wire, the
  queue of packets to send, sending and receiving. A socket is the list of bytes written to
  it and the list of bytes that have arrived and not been read. Wiring up the sockets is in
  \<open>Wireup\<close>.
\<close>

section \<open>Packets\<close>

text \<open>\<open>packet_t\<close>; the header is packed, so it takes 29 bytes.\<close>

record packet =
  pk_handler :: "8 word"
  pk_origin :: c_int
  pk_request_index :: c_long
  pk_size :: size_t
  pk_heap_offset :: c_long
  pk_data :: "byte list"

definition sizeof_packet :: nat where "sizeof_packet = 29"

definition encode_packet :: "packet \<Rightarrow> byte list" where
  "encode_packet p = pk_handler p # bytes_of_nat 4 (unat (pk_origin p)) @
     bytes_of_nat 8 (unat (pk_request_index p)) @ bytes_of_nat 8 (unat (pk_size p)) @
     bytes_of_nat 8 (unat (pk_heap_offset p)) @ pk_data p"

text \<open>The fields of a header of 29 bytes.\<close>

definition decode_header :: "byte list \<Rightarrow> packet" where
  "decode_header bs = \<lparr>pk_handler = hd bs,
     pk_origin = of_nat (nat_of_bytes (take 4 (drop 1 bs))),
     pk_request_index = of_nat (nat_of_bytes (take 8 (drop 5 bs))),
     pk_size = of_nat (nat_of_bytes (take 8 (drop 13 bs))),
     pk_heap_offset = of_nat (nat_of_bytes (take 8 (drop 21 bs))), pk_data = []\<rparr>"

lemma length_encode_packet: "length (encode_packet p) = sizeof_packet + length (pk_data p)"
  by (simp add: encode_packet_def sizeof_packet_def)

lemma decode_encode:
  "decode_header (take sizeof_packet (encode_packet p @ rest)) = p\<lparr>pk_data := []\<rparr>"
  "drop sizeof_packet (encode_packet p @ rest) = pk_data p @ rest"
proof -
  let ?o = "bytes_of_nat 4 (unat (pk_origin p))" and ?r = "bytes_of_nat 8 (unat (pk_request_index p))"
    and ?s = "bytes_of_nat 8 (unat (pk_size p))" and ?h = "bytes_of_nat 8 (unat (pk_heap_offset p))"
  have e: "encode_packet p @ rest = [pk_handler p] @ ?o @ ?r @ ?s @ ?h @ pk_data p @ rest"
    by (simp add: encode_packet_def)
  have t: "take sizeof_packet (encode_packet p @ rest) = [pk_handler p] @ ?o @ ?r @ ?s @ ?h"
    unfolding e sizeof_packet_def by simp
  show "decode_header (take sizeof_packet (encode_packet p @ rest)) = p\<lparr>pk_data := []\<rparr>"
    unfolding t decode_header_def by (simp add: bytes_of_word)
  show "drop sizeof_packet (encode_packet p @ rest) = pk_data p @ rest"
    unfolding e sizeof_packet_def by simp
qed

section \<open>The state\<close>

text \<open>\<open>packet_queue_t\<close>.\<close>

record packet_queue_t =
  pq_packet :: ptr
  pq_pe :: c_int
  pq_next :: ptr

text \<open>
  The static variables, the objects allocated, the sockets by remote index, and what
  \<open>malloc\<close> will answer for packets and cells and for the buffers of received data.
\<close>

record remote_state =
  cr_my_pe :: c_int
  cr_n_pes :: c_int
  cr_n_remote_pes :: c_int
  cr_finished :: "8 word"
  cr_queue_send :: ptr
  cr_queue_send_tail :: ptr
  cr_request_indices :: "c_long list"
  cr_cells :: "ptr \<Rightarrow> packet_queue_t option"
  cr_packets :: "ptr \<Rightarrow> packet option"
  cr_out :: "byte list list"
  cr_in :: "byte list list"
  cr_answers :: "ptr list"
  cr_buffers :: "ptr list"

definition r_used :: "remote_state \<Rightarrow> ptr \<Rightarrow> bool" where
  "r_used st p \<longleftrightarrow> cr_cells st p \<noteq> None \<or> cr_packets st p \<noteq> None"

text \<open>\<open>comm_remote_init\<close> without the two servers that it opens.\<close>

definition comm_remote_init :: "c_int \<Rightarrow> c_int \<Rightarrow> c_int \<Rightarrow> remote_state \<Rightarrow> remote_state" where
  "comm_remote_init my_pe n_pes n_remote_pes st =
     st\<lparr>cr_my_pe := my_pe, cr_n_pes := n_pes, cr_n_remote_pes := n_remote_pes\<rparr>"

text \<open>
  What \<open>comm_remote_wireup\<close> leaves in this layer's state when it returns: a socket for every
  remote PE, to which nothing has been written and from which nothing has arrived. Which
  connections it makes, and that it returns, is in \<open>Wireup\<close> and \<open>Handshake\<close>.
\<close>

definition comm_remote_sockets :: "remote_state \<Rightarrow> remote_state" where
  "comm_remote_sockets st = st\<lparr>cr_out := replicate (nat (sint (cr_n_remote_pes st))) [],
     cr_in := replicate (nat (sint (cr_n_remote_pes st))) []\<rparr>"

definition comm_remote_start :: "remote_state \<Rightarrow> remote_state" where
  "comm_remote_start st = st\<lparr>cr_queue_send := NULL, cr_queue_send_tail := NULL, cr_finished := 0,
     cr_request_indices := replicate (nat (sint (cr_n_remote_pes st))) 0\<rparr>"

definition comm_remote_finalize :: "remote_state \<Rightarrow> remote_state" where
  "comm_remote_finalize st = st\<lparr>cr_finished := 1, cr_request_indices := []\<rparr>"

definition comm_remote_pe :: "remote_state \<Rightarrow> c_int" where "comm_remote_pe st = cr_my_pe st"
definition comm_remote_n_pes :: "remote_state \<Rightarrow> c_int" where "comm_remote_n_pes st = cr_n_pes st"

section \<open>The queue of packets\<close>

definition malloc_pcell :: "remote_state \<Rightarrow> ptr \<times> remote_state" where
  "malloc_pcell st =
     (let (p, rest) = take_answer (r_used st) (cr_answers st);
          st = st\<lparr>cr_answers := rest\<rparr>
      in (p, if p = NULL then st
             else st\<lparr>cr_cells := (cr_cells st)(p \<mapsto> \<lparr>pq_packet = NULL, pq_pe = 0, pq_next = NULL\<rparr>)\<rparr>))"

definition malloc_packet :: "remote_state \<Rightarrow> packet \<Rightarrow> (ptr \<times> remote_state) option" where
  "malloc_packet st k =
     (let (p, rest) = take_answer (r_used st) (cr_answers st)
      in if p = NULL then None
         else Some (p, st\<lparr>cr_answers := rest, cr_packets := (cr_packets st)(p \<mapsto> k)\<rparr>))"

definition upd_pcell :: "remote_state \<Rightarrow> ptr \<Rightarrow> (packet_queue_t \<Rightarrow> packet_queue_t) \<Rightarrow> remote_state option" where
  "upd_pcell st p f =
     (if p = NULL then None
      else do { c \<leftarrow> cr_cells st p; Some (st\<lparr>cr_cells := (cr_cells st)(p \<mapsto> f c)\<rparr>) })"

definition comm_thread_enqueue :: "remote_state \<Rightarrow> c_int \<times> ptr \<Rightarrow> remote_state option" where
  "comm_thread_enqueue st x = do {
     let (c, st1) = malloc_pcell st;
     st2 \<leftarrow> (if cr_queue_send st = NULL then Some (st1\<lparr>cr_queue_send := c, cr_queue_send_tail := c\<rparr>)
            else do {
              st2 \<leftarrow> upd_pcell st1 (cr_queue_send_tail st1) (\<lambda>t. t\<lparr>pq_next := c\<rparr>);
              Some (st2\<lparr>cr_queue_send_tail := c\<rparr>)
            });
     st3 \<leftarrow> upd_pcell st2 (cr_queue_send_tail st2) (\<lambda>t. t\<lparr>pq_packet := snd x\<rparr>);
     st4 \<leftarrow> upd_pcell st3 (cr_queue_send_tail st3) (\<lambda>t. t\<lparr>pq_pe := fst x\<rparr>);
     upd_pcell st4 (cr_queue_send_tail st4) (\<lambda>t. t\<lparr>pq_next := NULL\<rparr>)
   }"

text \<open>The destination and the packet, \<open>None\<close> when the queue is empty. The cell is freed.\<close>

definition comm_thread_dequeue :: "remote_state \<Rightarrow> ((c_int \<times> ptr) option \<times> remote_state) option" where
  "comm_thread_dequeue st =
     (let h = cr_queue_send st
      in if h = NULL then Some (None, st)
         else do {
           c \<leftarrow> cr_cells st h;
           Some (Some (pq_pe c, pq_packet c),
             st\<lparr>cr_queue_send := pq_next c, cr_cells := (cr_cells st)(h := None)\<rparr>)
         })"

section \<open>Put, send and receive\<close>

text \<open>
  The bytes to send are copied into the packet at once. \<open>request_index\<close> is stored by the
  communication thread before the packet is written.
\<close>

definition comm_remote_put :: "node_mem \<Rightarrow> nat \<Rightarrow> ptr option list \<Rightarrow> c_int \<Rightarrow> ptr \<Rightarrow> ptr \<Rightarrow> size_t \<Rightarrow>
    remote_state \<Rightarrow> remote_state option" where
  "comm_remote_put nm me bases pe dest src sz st = do {
     xs \<leftarrow> load_bytes nm me bases src (unat sz);
     (p, st) \<leftarrow> malloc_packet st \<lparr>pk_handler = HANDLER_PUT, pk_origin = cr_my_pe st,
       pk_request_index = 0, pk_size = sz, pk_heap_offset = dest, pk_data = xs\<rparr>;
     comm_thread_enqueue st (pe, p)
   }"

text \<open>The body of \<open>comm_remote_get\<close> is empty.\<close>

definition comm_remote_get :: "c_int \<Rightarrow> ptr \<Rightarrow> ptr \<Rightarrow> size_t \<Rightarrow> remote_state \<Rightarrow> remote_state" where
  "comm_remote_get pe dest src sz st = st"

text \<open>
  One turn of the loop of \<open>__comm_thread_send\<close>. \<open>wr n\<close> is how many of \<open>n\<close> bytes the system
  takes when they are written; the code does not look at it.
\<close>

definition send_packet :: "node_state \<Rightarrow> (nat \<Rightarrow> nat) \<Rightarrow> c_int \<times> ptr \<Rightarrow> remote_state \<Rightarrow> remote_state option" where
  "send_packet nd wr x st = do {
     mp \<leftarrow> comm_node_map nd (fst x);
     let i = nat (sint (lm_index mp));
     if sint (lm_index mp) < 0 \<or> length (cr_request_indices st) \<le> i \<or> length (cr_out st) \<le> i then None
     else do {
       let r = cr_request_indices st ! i + 1;
       k \<leftarrow> cr_packets st (snd x);
       let bs = encode_packet (k\<lparr>pk_request_index := r\<rparr>);
       Some (st\<lparr>cr_request_indices := (cr_request_indices st)[i := r],
               cr_out := (cr_out st)[i := cr_out st ! i @ take (wr (length bs)) bs],
               cr_packets := (cr_packets st)(snd x := None)\<rparr>)
     }
   }"

partial_function (option) comm_thread_send ::
    "node_state \<Rightarrow> (nat \<Rightarrow> nat) \<Rightarrow> remote_state \<Rightarrow> remote_state option" where
  "comm_thread_send nd wr st =
     (if cr_queue_send st = NULL then Some st
      else do {
        (x, st) \<leftarrow> comm_thread_dequeue st;
        x \<leftarrow> x;
        st \<leftarrow> send_packet nd wr x st;
        comm_thread_send nd wr st
      })"

declare comm_thread_send.simps [code]

text \<open>
  \<open>malloc(n)\<close> for received data: \<open>n\<close> bytes of private memory not in use before, whose
  contents \<open>junk\<close> are not cleared.
\<close>

definition malloc_buffer :: "(ptr \<Rightarrow> byte) \<Rightarrow> nat \<Rightarrow> ptr option list \<Rightarrow> nat \<Rightarrow> node_mem \<times> remote_state \<Rightarrow>
    ptr \<times> node_mem \<times> remote_state" where
  "malloc_buffer junk me bases n s =
     (case cr_buffers (snd s) of
        [] \<Rightarrow> (NULL, s)
      | p # ps \<Rightarrow>
          if user_ptr p \<and> priv_area bases p n \<and> (\<forall>k < n. nm_priv (fst s) me (p + of_nat k) = None)
          then (p, (fst s)\<lparr>nm_priv := (nm_priv (fst s))(me := (\<lambda>q.
                  if unat (q - p) < n then Some (junk q) else nm_priv (fst s) me q))\<rparr>,
                (snd s)\<lparr>cr_buffers := ps\<rparr>)
          else (NULL, fst s, (snd s)\<lparr>cr_buffers := ps\<rparr>))"

text \<open>\<open>network_receive\<close> of at most \<open>n\<close> bytes: those that arrived, \<open>None\<close> standing for -1.\<close>

definition socket_read :: "nat \<Rightarrow> nat \<Rightarrow> remote_state \<Rightarrow> byte list option \<times> remote_state" where
  "socket_read i n st =
     (if cr_in st ! i = [] then (None, st)
      else (Some (take n (cr_in st ! i)), st\<lparr>cr_in := (cr_in st)[i := drop n (cr_in st ! i)]\<rparr>))"

text \<open>
  One turn of the loop of \<open>__comm_thread_receive\<close>. A header that is not complete is
  consumed and dropped with an error message. The result of reading the data is not used.
\<close>

definition receive_from :: "(ptr \<Rightarrow> byte) \<Rightarrow> nat \<Rightarrow> ptr option list \<Rightarrow> nat \<Rightarrow>
    node_mem \<times> remote_state \<times> work_state \<Rightarrow> (node_mem \<times> remote_state \<times> work_state) option" where
  "receive_from junk me bases i s =
     (case s of (nm, st, ws) \<Rightarrow>
        (case socket_read i sizeof_packet st of
           (None, st) \<Rightarrow> Some (nm, st, ws)
         | (Some hdr, st) \<Rightarrow>
             if length hdr \<noteq> sizeof_packet then Some (nm, st, ws)
             else do {
               let k = decode_header hdr;
               let (buf, nm, st) = malloc_buffer junk me bases (unat (pk_size k)) (nm, st);
               (nm, st) \<leftarrow> (if buf = NULL then Some (nm, st)
                 else (case socket_read i (unat (pk_size k)) st of
                   (None, st) \<Rightarrow> Some (nm, st)
                 | (Some xs, st) \<Rightarrow> do { nm \<leftarrow> store_bytes nm me bases buf xs; Some (nm, st) }));
               (_, ws) \<leftarrow> work_put_remote ws (pk_handler k) (cr_my_pe st) (pk_origin k)
                 (pk_heap_offset k) buf (pk_size k);
               Some (nm, st, ws)
             }))"

fun comm_thread_receive :: "(ptr \<Rightarrow> byte) \<Rightarrow> nat \<Rightarrow> ptr option list \<Rightarrow> nat list \<Rightarrow>
    node_mem \<times> remote_state \<times> work_state \<Rightarrow> (node_mem \<times> remote_state \<times> work_state) option" where
  "comm_thread_receive junk me bases [] s = Some s"
| "comm_thread_receive junk me bases (i # is) s = do {
     s \<leftarrow> receive_from junk me bases i s;
     comm_thread_receive junk me bases is s
   }"

text \<open>The communication thread, for at most \<open>n\<close> rounds.\<close>

fun comm_thread :: "node_state \<Rightarrow> (nat \<Rightarrow> nat) \<Rightarrow> (ptr \<Rightarrow> byte) \<Rightarrow> nat \<Rightarrow> ptr option list \<Rightarrow> nat \<Rightarrow>
    node_mem \<times> remote_state \<times> work_state \<Rightarrow> (node_mem \<times> remote_state \<times> work_state) option" where
  "comm_thread nd wr junk me bases 0 s = Some s"
| "comm_thread nd wr junk me bases (Suc n) s =
     (if cr_finished (fst (snd s)) \<noteq> 0 then Some s
      else do {
        (nm, st, ws) \<leftarrow> comm_thread_receive junk me bases
          [0 ..< nat (sint (cr_n_remote_pes (fst (snd s))))] s;
        st \<leftarrow> comm_thread_send nd wr st;
        comm_thread nd wr junk me bases n (nm, st, ws)
      })"

section \<open>The queue represents a list\<close>

definition r_next :: "remote_state \<Rightarrow> ptr \<Rightarrow> ptr option" where
  "r_next st p = map_option pq_next (cr_cells st p)"

definition r_cell :: "remote_state \<Rightarrow> ptr \<Rightarrow> (c_int \<times> ptr) option" where
  "r_cell st p = map_option (\<lambda>c. (pq_pe c, pq_packet c)) (cr_cells st p)"

definition pq_rep :: "remote_state \<Rightarrow> (c_int \<times> ptr) list \<Rightarrow> bool" where
  "pq_rep st xs \<longleftrightarrow> (\<exists>cs. linked (r_next st) (cr_queue_send st) cs \<and>
     (cs \<noteq> [] \<longrightarrow> cr_queue_send_tail st = last cs) \<and> map (r_cell st) cs = map Some xs)"

definition r_room :: "remote_state \<Rightarrow> nat \<Rightarrow> bool" where
  "r_room st k \<longleftrightarrow> answers_ok (r_used st) (cr_answers st) k"

lemma pq_rep_start: "pq_rep (comm_remote_start st) []"
  by (simp add: pq_rep_def comm_remote_start_def)

lemma pq_rep_cong:
  assumes "cr_cells st' = cr_cells st" and "cr_queue_send st' = cr_queue_send st"
    and "cr_queue_send_tail st' = cr_queue_send_tail st"
  shows "pq_rep st' xs = pq_rep st xs"
proof -
  have "r_next st' = r_next st" "r_cell st' = r_cell st"
    using assms(1) by (simp_all add: fun_eq_iff r_next_def r_cell_def)
  with assms show ?thesis by (simp add: pq_rep_def)
qed

lemma upd_pcell_Some: "upd_pcell st p f = Some st' \<longleftrightarrow>
    p \<noteq> NULL \<and> (\<exists>c. cr_cells st p = Some c \<and> st' = st\<lparr>cr_cells := (cr_cells st)(p \<mapsto> f c)\<rparr>)"
  by (auto simp: upd_pcell_def bind_eq_Some_conv)

text \<open>Two states that differ in the queue and in the answers of \<open>malloc\<close> only.\<close>

definition queue_only :: "remote_state \<Rightarrow> remote_state \<Rightarrow> bool" where
  "queue_only st st' \<longleftrightarrow> cr_my_pe st' = cr_my_pe st \<and> cr_n_pes st' = cr_n_pes st \<and>
     cr_n_remote_pes st' = cr_n_remote_pes st \<and> cr_finished st' = cr_finished st \<and>
     cr_request_indices st' = cr_request_indices st \<and> cr_packets st' = cr_packets st \<and>
     cr_out st' = cr_out st \<and> cr_in st' = cr_in st \<and> cr_buffers st' = cr_buffers st"

text \<open>What an insertion stores, when it returns.\<close>

lemma comm_thread_enqueue_Some:
  assumes rep: "pq_rep st xs" and e: "comm_thread_enqueue st x = Some st'"
  shows "pq_rep st' (xs @ [x])"
    and "queue_only st st'"
proof -
  obtain p rest where t: "take_answer (r_used st) (cr_answers st) = (p, rest)" by fastforce
  obtain cs where cs: "linked (r_next st) (cr_queue_send st) cs" "cs \<noteq> [] \<longrightarrow> cr_queue_send_tail st = last cs"
    "map (r_cell st) cs = map Some xs" using rep by (auto simp: pq_rep_def)
  have p: "p \<noteq> NULL" using e t by (auto simp: comm_thread_enqueue_def malloc_pcell_def upd_pcell_Some
        Let_def bind_eq_Some_conv split: if_splits)
  have new: "cr_cells st p = None" using take_answer_cases(3) [OF t p] by (simp add: r_used_def)
  then have pc: "p \<notin> set cs" using linked_in_dom [OF cs(1), of p] by (auto simp: r_next_def)
  let ?c = "\<lparr>pq_packet = snd x, pq_pe = fst x, pq_next = NULL\<rparr>"
  show "queue_only st st'"
    using e t by (auto simp: queue_only_def comm_thread_enqueue_def malloc_pcell_def upd_pcell_Some Let_def
        bind_eq_Some_conv split: if_splits)
  show "pq_rep st' (xs @ [x])"
  proof (cases "cs = []")
    case True
    with cs(1) have h: "cr_queue_send st = NULL" by simp
    have "st' = st\<lparr>cr_answers := rest, cr_queue_send := p, cr_queue_send_tail := p,
        cr_cells := (cr_cells st)(p \<mapsto> ?c)\<rparr>"
      using e t p h by (simp add: comm_thread_enqueue_def malloc_pcell_def upd_pcell_def)
    with p True cs(3) show ?thesis
      unfolding pq_rep_def by (intro exI [of _ "[p]"]) (simp add: r_next_def r_cell_def)
  next
    case False
    then have h: "cr_queue_send st \<noteq> NULL" "cr_queue_send_tail st = last cs" "last cs \<noteq> NULL"
      using cs(1,2) linked_not_NULL [OF cs(1)] by (auto dest: last_in_set)
    obtain c where c: "cr_cells st (last cs) = Some c"
      using linked_in_dom [OF cs(1), of "last cs"] False by (auto simp: r_next_def)
    have lp: "last cs \<noteq> p" using pc False by auto
    have st': "st' = st\<lparr>cr_answers := rest, cr_queue_send_tail := p,
        cr_cells := (cr_cells st)(last cs \<mapsto> c\<lparr>pq_next := p\<rparr>, p \<mapsto> ?c)\<rparr>"
      using e t p h c lp by (simp add: comm_thread_enqueue_def malloc_pcell_def upd_pcell_def fun_upd_twist)
    obtain ds where ds: "cs = ds @ [last cs]" using False by (metis append_butlast_last_id)
    have l: "linked ((r_next st)(p \<mapsto> NULL, last cs \<mapsto> p)) (cr_queue_send st) (ds @ [last cs, p])"
      using cs(1) pc p ds by (intro linked_snoc) auto
    have n: "r_next st' = (r_next st)(p \<mapsto> NULL, last cs \<mapsto> p)"
      using lp by (auto simp: st' r_next_def)
    have "r_cell st' y = r_cell st y" if "y \<in> set cs" for y
      using that pc c by (auto simp: st' r_cell_def)
    then have "map (r_cell st') cs = map Some xs" using cs(3) by (metis map_cong)
    moreover have "r_cell st' p = Some x" by (simp add: st' r_cell_def)
    moreover have eq: "ds @ [last cs, p] = cs @ [p]" using ds by simp
    moreover have "cr_queue_send st' = cr_queue_send st" "cr_queue_send_tail st' = p" by (simp_all add: st')
    ultimately show ?thesis using l [unfolded eq] n unfolding pq_rep_def by (intro exI [of _ "cs @ [p]"]) simp
  qed
qed

lemma comm_thread_enqueue_total:
  assumes rep: "pq_rep st xs" and room: "r_room st (Suc k)"
  shows "\<exists>st'. comm_thread_enqueue st x = Some st' \<and> r_room st' k"
proof -
  obtain p rest where p: "take_answer (r_used st) (cr_answers st) = (p, rest)" "p \<noteq> NULL"
    "answers_ok (\<lambda>q. r_used st q \<or> q = p) rest k"
    by (rule answers_okD [OF room [unfolded r_room_def]]) blast
  obtain cs where cs: "linked (r_next st) (cr_queue_send st) cs" "cs \<noteq> [] \<longrightarrow> cr_queue_send_tail st = last cs"
    using rep by (auto simp: pq_rep_def)
  have tl: "cr_queue_send_tail st \<noteq> NULL \<and> cr_cells st (cr_queue_send_tail st) \<noteq> None"
    if "cr_queue_send st \<noteq> NULL"
  proof -
    have "cs \<noteq> []" using cs(1) that by auto
    then show ?thesis using cs linked_in_dom [OF cs(1), of "last cs"] linked_not_NULL [OF cs(1)]
      by (auto simp: r_next_def dest: last_in_set)
  qed
  have ok: "answers_ok f rest k" if "\<And>q. f q \<Longrightarrow> r_used st q \<or> q = p" for f
    using p(3) that by (rule answers_ok_weaken)
  show ?thesis
    using p tl by (auto simp: comm_thread_enqueue_def malloc_pcell_def upd_pcell_def r_room_def
        intro!: ok split: if_splits) (auto simp: r_used_def split: if_splits)
qed

lemma comm_thread_dequeue_Nil: "pq_rep st [] \<Longrightarrow> comm_thread_dequeue st = Some (None, st)"
  by (auto simp: pq_rep_def comm_thread_dequeue_def)

lemma comm_thread_dequeue_Cons:
  assumes "pq_rep st (x # xs)"
  obtains cells h where "comm_thread_dequeue st = Some (Some x, st\<lparr>cr_queue_send := h, cr_cells := cells\<rparr>)"
    "pq_rep (st\<lparr>cr_queue_send := h, cr_cells := cells\<rparr>) xs" "cr_queue_send st \<noteq> NULL"
    "\<And>q. cells q \<noteq> None \<Longrightarrow> cr_cells st q \<noteq> None"
proof -
  obtain cs where cs: "linked (r_next st) (cr_queue_send st) cs" "cs \<noteq> [] \<longrightarrow> cr_queue_send_tail st = last cs"
    "map (r_cell st) cs = map Some (x # xs)" using assms unfolding pq_rep_def by blast
  then obtain d ds where ds: "cs = d # ds" by (cases cs) auto
  then have d: "cr_queue_send st = d" "d \<noteq> NULL" using cs(1) by simp_all
  obtain c where c: "cr_cells st d = Some c" "(pq_pe c, pq_packet c) = x"
    using cs(3) ds by (auto simp: r_cell_def)
  have l: "linked (r_next st) (pq_next c) ds" using cs(1) ds c(1) by (simp add: r_next_def)
  have nin: "d \<notin> set ds" using linked_distinct [OF cs(1)] ds by simp
  let ?st = "st\<lparr>cr_queue_send := pq_next c, cr_cells := (cr_cells st)(d := None)\<rparr>"
  have n: "r_next ?st = (r_next st)(d := None)" "r_cell ?st = (r_cell st)(d := None)"
    by (simp_all add: fun_eq_iff r_next_def r_cell_def)
  have "linked (r_next ?st) (pq_next c) ds" using l nin by (simp add: n linked_frame)
  moreover have "map (r_cell ?st) ds = map Some xs" using cs(3) ds nin by (simp add: n)
  ultimately have "pq_rep ?st xs"
    using cs(2) ds unfolding pq_rep_def by (intro exI [of _ ds]) auto
  then show thesis
    by (intro that [of "(cr_cells st)(d := None)" "pq_next c"])
      (use c d in \<open>auto simp: comm_thread_dequeue_def split: if_splits\<close>)
qed

interpretation packet_fifo: fifo comm_thread_enqueue comm_thread_dequeue pq_rep r_room "\<lambda>_. True"
proof unfold_locales
  show "pq_rep s' (xs @ [x])" if "pq_rep s xs" "comm_thread_enqueue s x = Some s'" for s xs x s'
    using that by (rule comm_thread_enqueue_Some(1))
  show "\<exists>s'. comm_thread_enqueue s x = Some s' \<and> r_room s' k" if "pq_rep s xs" "r_room s (Suc k)" for s xs x k
    using that by (rule comm_thread_enqueue_total)
  show "comm_thread_dequeue s = Some (None, s)" if "pq_rep s []" for s
    using that by (rule comm_thread_dequeue_Nil)
  show "\<exists>s'. comm_thread_dequeue s = Some (Some x, s') \<and> pq_rep s' xs \<and> (\<forall>k. r_room s k \<longrightarrow> r_room s' k)"
    if rep: "pq_rep s (x # xs)" for s x xs
  proof -
    obtain cells h where d: "comm_thread_dequeue s = Some (Some x, s\<lparr>cr_queue_send := h, cr_cells := cells\<rparr>)"
      "pq_rep (s\<lparr>cr_queue_send := h, cr_cells := cells\<rparr>) xs" "\<And>q. cells q \<noteq> None \<Longrightarrow> cr_cells s q \<noteq> None"
      by (rule comm_thread_dequeue_Cons [OF rep]) blast
    have "r_room (s\<lparr>cr_queue_send := h, cr_cells := cells\<rparr>) k" if "r_room s k" for k
      using that d(3) unfolding r_room_def by (auto simp: r_used_def elim!: answers_ok_weaken)
    with d show ?thesis by blast
  qed
qed

section \<open>What is sent\<close>

definition remote_index :: "node_state \<Rightarrow> c_int \<Rightarrow> nat option" where
  "remote_index nd pe = (case comm_node_map nd pe of None \<Rightarrow> None
     | Some mp \<Rightarrow> if sint (lm_index mp) < 0 then None else Some (nat (sint (lm_index mp))))"

text \<open>The bytes for socket \<open>i\<close>, whose last request had the number \<open>r\<close>.\<close>

primrec sent_to :: "node_state \<Rightarrow> nat \<Rightarrow> c_long \<Rightarrow> (c_int \<times> packet) list \<Rightarrow> byte list" where
  "sent_to nd i r [] = []"
| "sent_to nd i r (x # xs) =
     (if remote_index nd (fst x) = Some i
      then encode_packet ((snd x)\<lparr>pk_request_index := r + 1\<rparr>) @ sent_to nd i (r + 1) xs
      else sent_to nd i r xs)"

definition sendable :: "node_state \<Rightarrow> remote_state \<Rightarrow> (c_int \<times> ptr) list \<Rightarrow> packet list \<Rightarrow> bool" where
  "sendable nd st xs ks \<longleftrightarrow> length (cr_request_indices st) = length (cr_out st) \<and>
     (\<forall>x \<in> set xs. \<exists>i. remote_index nd (fst x) = Some i \<and> i < length (cr_out st)) \<and>
     map (\<lambda>x. cr_packets st (snd x)) xs = map Some ks \<and> distinct (map snd xs)"

lemma send_packet_bytes:
  assumes "remote_index nd pe = Some i" and "i < length (cr_out st)"
    and "length (cr_request_indices st) = length (cr_out st)" and "cr_packets st p = Some k"
  shows "send_packet nd wr (pe, p) st = (let bs = encode_packet (k\<lparr>pk_request_index := cr_request_indices st ! i + 1\<rparr>) in Some (st\<lparr>
      cr_request_indices := (cr_request_indices st)[i := cr_request_indices st ! i + 1],
      cr_out := (cr_out st)[i := cr_out st ! i @ take (wr (length bs)) bs],
      cr_packets := (cr_packets st)(p := None)\<rparr>))"
proof -
  obtain mp where mp: "comm_node_map nd pe = Some mp" "\<not> sint (lm_index mp) < 0" "nat (sint (lm_index mp)) = i"
    using assms(1) by (auto simp: remote_index_def split: option.splits if_splits)
  with assms(2-4) show ?thesis by (simp add: send_packet_def Let_def)
qed

lemma send_packet_Some:
  assumes "remote_index nd pe = Some i" and "i < length (cr_out st)"
    and "length (cr_request_indices st) = length (cr_out st)" and "cr_packets st p = Some k"
    and "\<And>n. wr n = n"
  shows "send_packet nd wr (pe, p) st = Some (st\<lparr>
      cr_request_indices := (cr_request_indices st)[i := cr_request_indices st ! i + 1],
      cr_out := (cr_out st)[i := cr_out st ! i @
        encode_packet (k\<lparr>pk_request_index := cr_request_indices st ! i + 1\<rparr>)],
      cr_packets := (cr_packets st)(p := None)\<rparr>)"
  using send_packet_bytes [OF assms(1-4), of wr] assms(5) by (simp add: Let_def)

lemma comm_thread_send_all:
  assumes "pq_rep st xs" and "sendable nd st xs ks" and wr: "\<And>n. wr n = n"
  shows "\<exists>st'. comm_thread_send nd wr st = Some st' \<and> pq_rep st' [] \<and>
    length (cr_out st') = length (cr_out st) \<and>
    (\<forall>i < length (cr_out st). cr_out st' ! i =
      cr_out st ! i @ sent_to nd i (cr_request_indices st ! i) (zip (map fst xs) ks))"
  using assms(1,2)
proof (induction xs arbitrary: st ks)
  case Nil
  then have "cr_queue_send st = NULL" by (auto simp: pq_rep_def)
  with Nil show ?case by (subst comm_thread_send.simps) simp
next
  case (Cons x xs)
  obtain k ks' where ks: "ks = k # ks'" "cr_packets st (snd x) = Some k"
    "map (\<lambda>x. cr_packets st (snd x)) xs = map Some ks'" using Cons.prems(2) by (cases ks) (auto simp: sendable_def)
  obtain j where j: "remote_index nd (fst x) = Some j" "j < length (cr_out st)"
    using Cons.prems(2) by (auto simp: sendable_def)
  have len: "length (cr_request_indices st) = length (cr_out st)" and d: "snd x \<notin> snd ` set xs" "distinct (map snd xs)"
    using Cons.prems(2) by (auto simp: sendable_def)
  obtain cells h where dq: "comm_thread_dequeue st = Some (Some x, st\<lparr>cr_queue_send := h, cr_cells := cells\<rparr>)"
    "pq_rep (st\<lparr>cr_queue_send := h, cr_cells := cells\<rparr>) xs" "cr_queue_send st \<noteq> NULL"
    by (rule comm_thread_dequeue_Cons [OF Cons.prems(1)])
  let ?st1 = "st\<lparr>cr_queue_send := h, cr_cells := cells\<rparr>"
  let ?r = "cr_request_indices st ! j + 1"
  let ?st2 = "?st1\<lparr>cr_request_indices := (cr_request_indices st)[j := ?r],
    cr_out := (cr_out st)[j := cr_out st ! j @ encode_packet (k\<lparr>pk_request_index := ?r\<rparr>)],
    cr_packets := (cr_packets st)(snd x := None)\<rparr>"
  have s: "send_packet nd wr x ?st1 = Some ?st2"
    using send_packet_Some [of nd "fst x" j ?st1 "snd x" k wr] j len ks(2) wr by simp
  have "pq_rep ?st2 xs" using dq(2) pq_rep_cong [of ?st2 ?st1 xs] by simp
  moreover have "map (\<lambda>x. cr_packets ?st2 (snd x)) xs = map Some ks'"
  proof -
    have "map (\<lambda>x. cr_packets ?st2 (snd x)) xs = map (\<lambda>x. cr_packets st (snd x)) xs"
      using d(1) by (intro map_cong) (auto simp: image_iff)
    then show ?thesis using ks(3) by simp
  qed
  then have "sendable nd ?st2 xs ks'" using Cons.prems(2) d(2) by (auto simp: sendable_def)
  ultimately obtain st' where st': "comm_thread_send nd wr ?st2 = Some st'" "pq_rep st' []"
    "length (cr_out st') = length (cr_out st)"
    "\<forall>i < length (cr_out st). cr_out st' ! i =
      cr_out ?st2 ! i @ sent_to nd i (cr_request_indices ?st2 ! i) (zip (map fst xs) ks')"
    using Cons.IH [of ?st2 ks'] by auto
  have "comm_thread_send nd wr st = Some st'"
    using dq(1,3) s st'(1) by (subst comm_thread_send.simps) simp
  with st'(2-4) j len ks(1) show ?case by (auto simp: nth_list_update)
qed

section \<open>What is received\<close>

text \<open>The next buffer is \<open>n\<close> bytes of unused private memory.\<close>

definition buffer_ready :: "nat \<Rightarrow> ptr option list \<Rightarrow> node_mem \<Rightarrow> remote_state \<Rightarrow> ptr \<Rightarrow> nat \<Rightarrow> bool" where
  "buffer_ready me bases nm st buf n \<longleftrightarrow> (\<exists>ps. cr_buffers st = buf # ps) \<and> user_ptr buf \<and>
     priv_area bases buf n \<and> (\<forall>k < n. nm_priv nm me (buf + of_nat k) = None)"

lemma malloc_buffer_ready:
  assumes "buffer_ready me bases nm st buf n" and "n < 2 ^ 63"
  obtains nm' where "malloc_buffer junk me bases n (nm, st) = (buf, nm', st\<lparr>cr_buffers := tl (cr_buffers st)\<rparr>)"
    "nm_heap nm' = nm_heap nm" "\<forall>k < n. nm_priv nm' me (buf + of_nat k) = Some (junk (buf + of_nat k))"
    "priv_kept nm nm'"
proof -
  let ?nm = "nm\<lparr>nm_priv := (nm_priv nm)(me := (\<lambda>q. if unat (q - buf) < n then Some (junk q) else nm_priv nm me q))\<rparr>"
  have u: "unat (of_nat k :: ptr) = k" if "k < n" for k
    using that assms(2) by (intro unat_of_nat_exact) simp
  obtain ps where ps: "cr_buffers st = buf # ps" using assms(1) by (auto simp: buffer_ready_def)
  show thesis
  proof (rule that [of ?nm])
    show "malloc_buffer junk me bases n (nm, st) = (buf, ?nm, st\<lparr>cr_buffers := tl (cr_buffers st)\<rparr>)"
      using assms(1) ps by (simp add: buffer_ready_def malloc_buffer_def cong: if_cong)
    show "\<forall>k < n. nm_priv ?nm me (buf + of_nat k) = Some (junk (buf + of_nat k))" by (simp add: u)
    show "priv_kept nm ?nm"
      unfolding priv_kept_def
    proof (intro allI impI)
      fix r q assume q: "nm_priv nm r q \<noteq> None"
      have "\<not> unat (q - buf) < n" if "r = me"
      proof
        assume "unat (q - buf) < n"
        hence "nm_priv nm me (buf + of_nat (unat (q - buf))) = None" using assms(1) unfolding buffer_ready_def by blast
        with q that show False by simp
      qed
      thus "nm_priv ?nm r q = nm_priv nm r q" by simp
    qed
  qed simp
qed

text \<open>
  A packet that has arrived whole: the state afterwards, but for the queue of the worker, and
  the memory, of which only the new buffer has changed.
\<close>

lemma receive_from_packet_frame:
  assumes i: "cr_in st ! i = encode_packet k @ rest" "i < length (cr_in st)"
    and k: "length (pk_data k) = unat (pk_size k)" "unat (pk_size k) < 2 ^ 63"
    and buf: "buffer_ready me bases nm st buf (unat (pk_size k))"
    and ws: "work_rep ws js" "w_room ws 2"
  shows "\<exists>nm' st' ws'. receive_from junk me bases i (nm, st, ws) = Some (nm', st', ws') \<and>
    nm_heap nm' = nm_heap nm \<and> load_bytes nm' me bases buf (unat (pk_size k)) = Some (pk_data k) \<and>
    st' = st\<lparr>cr_in := (cr_in st)[i := rest], cr_buffers := tl (cr_buffers st)\<rparr> \<and>
    priv_kept nm nm' \<and>
    work_rep ws' (js @ [\<lparr>j_handler = pk_handler k, j_dest_pe = cr_my_pe st, j_origin_pe = pk_origin k,
      j_dest = pk_heap_offset k, j_src = buf, j_size = pk_size k\<rparr>])"
proof -
  let ?n = "unat (pk_size k)"
  let ?st1 = "st\<lparr>cr_in := (cr_in st)[i := pk_data k @ rest]\<rparr>"
  have ne: "cr_in st ! i \<noteq> []" using i(1) by (simp add: encode_packet_def)
  have r1: "socket_read i sizeof_packet st = (Some (take sizeof_packet (encode_packet k @ rest)), ?st1)"
    using ne i decode_encode(2) [of k rest] by (simp add: socket_read_def)
  have hl: "length (take sizeof_packet (encode_packet k @ rest)) = sizeof_packet"
    by (simp add: length_encode_packet)
  have dh: "decode_header (take sizeof_packet (encode_packet k @ rest)) = k\<lparr>pk_data := []\<rparr>"
    by (rule decode_encode(1))
  have "buffer_ready me bases nm ?st1 buf ?n" using buf by (simp add: buffer_ready_def)
  then obtain nm1 where m: "malloc_buffer junk me bases ?n (nm, ?st1) = (buf, nm1, ?st1\<lparr>cr_buffers := tl (cr_buffers st)\<rparr>)"
    "nm_heap nm1 = nm_heap nm" "\<forall>j < ?n. nm_priv nm1 me (buf + of_nat j) = Some (junk (buf + of_nat j))"
    "priv_kept nm nm1"
    using malloc_buffer_ready [OF _ k(2), of me bases nm ?st1 buf junk] by auto
  let ?st2 = "?st1\<lparr>cr_buffers := tl (cr_buffers st)\<rparr>"
  have b0: "buf \<noteq> NULL" using buf by (auto simp: buffer_ready_def user_ptr_def)
  obtain nm2 where s: "store_bytes nm1 me bases buf (pk_data k) = Some nm2"
    "load_bytes nm2 me bases buf ?n = Some (pk_data k)" "nm_heap nm2 = nm_heap nm"
    "\<forall>q. (\<forall>j < ?n. q \<noteq> buf + of_nat j) \<longrightarrow> nm_priv nm2 me q = nm_priv nm1 me q" "\<forall>r. r \<noteq> me \<longrightarrow> nm_priv nm2 r = nm_priv nm1 r"
    using store_bytes_priv [of bases buf "pk_data k" nm1 me] buf k m(2,3) by (auto simp: buffer_ready_def)
  define body where "body = (case socket_read i ?n ?st2 of
      (None, st) \<Rightarrow> Some (nm1, st)
    | (Some xs, st) \<Rightarrow> do { nm \<leftarrow> store_bytes nm1 me bases buf xs; Some (nm, st) })"
  define st3 where "st3 = st\<lparr>cr_in := (cr_in st)[i := rest], cr_buffers := tl (cr_buffers st)\<rparr>"
  have b: "body = Some (nm2, st3)"
  proof (cases "pk_data k @ rest = []")
    case True
    then show ?thesis using i s(1) by (simp add: body_def socket_read_def st3_def)
  next
    case False
    then show ?thesis using i s(1) k(1) by (auto simp: body_def socket_read_def st3_def)
  qed
  have old: "priv_kept nm nm2"
    unfolding priv_kept_def
  proof (intro allI impI)
    fix r q assume q: "nm_priv nm r q \<noteq> None"
    hence "nm_priv nm1 r q = nm_priv nm r q" using m(4) by (simp add: priv_kept_def)
    moreover have "r = me \<longrightarrow> (\<forall>j < ?n. q \<noteq> buf + of_nat j)" using q buf by (auto simp: buffer_ready_def)
    ultimately show "nm_priv nm2 r q = nm_priv nm r q" using s(4,5) by (cases "r = me") simp_all
  qed
  have "w_room ws (0 + 2)" using ws(2) by (simp add: numeral_2_eq_2)
  then obtain ws' where w: "work_put_remote ws (pk_handler k) (cr_my_pe st) (pk_origin k)
      (pk_heap_offset k) buf (pk_size k) = Some (0, ws')"
    using work_put_remote_total [OF ws(1), of 0] by blast
  have "receive_from junk me bases i (nm, st, ws) = Some (nm2, st3, ws')"
    using r1 hl dh m(1) b0 b w by (simp add: receive_from_def body_def [symmetric]) (simp add: st3_def)
  with s(2,3) old work_put_remote_Some(1) [OF ws(1) w] show ?thesis unfolding st3_def by blast
qed

lemma receive_from_packet:
  assumes "cr_in st ! i = encode_packet k @ rest" "i < length (cr_in st)"
    and "length (pk_data k) = unat (pk_size k)" "unat (pk_size k) < 2 ^ 63"
    and "buffer_ready me bases nm st buf (unat (pk_size k))"
    and "work_rep ws js" "w_room ws 2"
  shows "\<exists>nm' st' ws'. receive_from junk me bases i (nm, st, ws) = Some (nm', st', ws') \<and>
    nm_heap nm' = nm_heap nm \<and> load_bytes nm' me bases buf (unat (pk_size k)) = Some (pk_data k) \<and>
    cr_in st' ! i = rest \<and>
    work_rep ws' (js @ [\<lparr>j_handler = pk_handler k, j_dest_pe = cr_my_pe st, j_origin_pe = pk_origin k,
      j_dest = pk_heap_offset k, j_src = buf, j_size = pk_size k\<rparr>])"
  using receive_from_packet_frame [OF assms, of junk] assms(2) by auto

text \<open>
  When only the header has arrived, the job is submitted all the same: its source is the
  buffer with the contents \<open>malloc\<close> gave it, and the data will be read as the next header.
\<close>

lemma receive_from_header_only:
  assumes i: "cr_in st ! i = take sizeof_packet (encode_packet k)" "i < length (cr_in st)"
    and k: "unat (pk_size k) < 2 ^ 63"
    and buf: "buffer_ready me bases nm st buf (unat (pk_size k))"
    and ws: "work_rep ws js" "w_room ws 2"
  shows "\<exists>nm' st' ws'. receive_from junk me bases i (nm, st, ws) = Some (nm', st', ws') \<and>
    cr_in st' ! i = [] \<and>
    (\<forall>j < unat (pk_size k). nm_priv nm' me (buf + of_nat j) = Some (junk (buf + of_nat j))) \<and>
    work_rep ws' (js @ [\<lparr>j_handler = pk_handler k, j_dest_pe = cr_my_pe st, j_origin_pe = pk_origin k,
      j_dest = pk_heap_offset k, j_src = buf, j_size = pk_size k\<rparr>])"
proof -
  let ?n = "unat (pk_size k)"
  let ?st1 = "st\<lparr>cr_in := (cr_in st)[i := []]\<rparr>"
  have hl: "length (take sizeof_packet (encode_packet k)) = sizeof_packet"
    by (simp add: length_encode_packet)
  then have ne: "cr_in st ! i \<noteq> []" using i(1) by (auto simp: sizeof_packet_def)
  have r1: "socket_read i sizeof_packet st = (Some (take sizeof_packet (encode_packet k)), ?st1)"
    using ne i by (simp add: socket_read_def)
  have dh: "decode_header (take sizeof_packet (encode_packet k)) = k\<lparr>pk_data := []\<rparr>"
    using decode_encode(1) [of k "[]"] by simp
  have rd: "buffer_ready me bases nm ?st1 buf ?n" using buf by (simp add: buffer_ready_def)
  obtain nm1 where m: "malloc_buffer junk me bases ?n (nm, ?st1) = (buf, nm1, ?st1\<lparr>cr_buffers := tl (cr_buffers st)\<rparr>)"
    "\<forall>j < ?n. nm_priv nm1 me (buf + of_nat j) = Some (junk (buf + of_nat j))"
    by (rule malloc_buffer_ready [OF rd k, of junk]) simp
  let ?st2 = "?st1\<lparr>cr_buffers := tl (cr_buffers st)\<rparr>"
  have r2: "socket_read i ?n ?st2 = (None, ?st2)" using i(2) by (simp add: socket_read_def)
  have "w_room ws (0 + 2)" using ws(2) by (simp add: numeral_2_eq_2)
  then obtain ws' where w: "work_put_remote ws (pk_handler k) (cr_my_pe st) (pk_origin k)
      (pk_heap_offset k) buf (pk_size k) = Some (0, ws')"
    using work_put_remote_total [OF ws(1), of 0] by blast
  have "receive_from junk me bases i (nm, st, ws) = Some (nm1, ?st2, ws')"
    using r1 hl dh m(1) r2 w by (cases "buf = NULL") (simp_all add: receive_from_def)
  with m(2) i(2) work_put_remote_Some(1) [OF ws(1) w] show ?thesis by auto
qed

section \<open>Properties\<close>

text \<open>The communication layer of PE 0 of two PEs on different nodes, as it starts.\<close>

definition demo_remote :: remote_state where
  "demo_remote = comm_remote_start \<lparr>cr_my_pe = 0, cr_n_pes = 2, cr_n_remote_pes = 1, cr_finished = 0,
     cr_queue_send = 0, cr_queue_send_tail = 0, cr_request_indices = [], cr_cells = Map.empty,
     cr_packets = [1024 \<mapsto> \<lparr>pk_handler = 0, pk_origin = 0, pk_request_index = 0, pk_size = 2,
       pk_heap_offset = 16, pk_data = [7, 8]\<rparr>],
     cr_out = [[]], cr_in = [[]], cr_answers = [64, 128, 192], cr_buffers = [256]\<rparr>"

definition demo_packet :: packet where
  "demo_packet = \<lparr>pk_handler = 0, pk_origin = 1, pk_request_index = 1, pk_size = 2,
     pk_heap_offset = 16, pk_data = [7, 8]\<rparr>"

definition demo_peers :: node_state where
  "demo_peers = (comm_node_init 4096 0 1 2 2)\<lparr>nd_map :=
     [Some \<lparr>lm_type = PE_TYPE_LOCAL, lm_index = 0, lm_host = 0\<rparr>,
      Some \<lparr>lm_type = PE_TYPE_REMOTE, lm_index = 0, lm_host = 1\<rparr>]\<rparr>"

lemma demo_remote_queue: "pq_rep demo_remote []" "r_room demo_remote 3"
  by (simp add: demo_remote_def pq_rep_start)
    (simp add: r_room_def answers_ok_def demo_remote_def comm_remote_start_def r_used_def user_ptr_def)

lemma demo_buffer: "n \<le> 2 \<Longrightarrow> buffer_ready 0 [Some 4096] demo_nm (demo_remote\<lparr>cr_in := xs\<rparr>) 256 n"
proof -
  have "mapping_of [Some 4096] (256 + of_nat k) = None \<and> nm_priv demo_nm 0 (256 + of_nat k) = None" if "k < 2" for k :: nat
  proof -
    from that have "k = 0 \<or> k = 1" by arith
    then show ?thesis by (elim disjE) (simp_all add: mapping_of_def SYMMETRIC_HEAP_SIZE_def demo_nm_def)
  qed
  then show "n \<le> 2 \<Longrightarrow> buffer_ready 0 [Some 4096] demo_nm (demo_remote\<lparr>cr_in := xs\<rparr>) 256 n"
    by (simp add: buffer_ready_def priv_area_def user_ptr_def demo_remote_def comm_remote_start_def)
qed

lemma demo_work: "work_rep demo_queue []" "w_room demo_queue 2"
  by (simp add: demo_queue_def work_rep_start)
    (simp add: w_room_def answers_ok_def demo_queue_def work_start_def w_used_def user_ptr_def)

text \<open>
  The receiver reads from the wire exactly the packet that was written: the first 29
  bytes decode to the header fields, and the data follow.
\<close>

theorem packet_wire_roundtrip:
  "decode_header (take sizeof_packet (encode_packet p @ rest)) = p\<lparr>pk_data := []\<rparr> \<and>
    drop sizeof_packet (encode_packet p @ rest) = pk_data p @ rest"
  using decode_encode [of p rest] by blast

text \<open>
  C33: Under any order of insertions and removals that memory allows, the send queue neither
  loses, duplicates nor reorders packets and their destinations.
\<close>

theorem packet_queue_fifo:
  assumes "pq_rep st xs" and "r_room st (length (enqueued ops))"
  shows "\<exists>out st' rest. queue_run comm_thread_enqueue comm_thread_dequeue st ops = Some (out, st') \<and>
    pq_rep st' rest \<and> out @ rest = xs @ enqueued ops"
  using packet_fifo.run_fifo [OF assms] by simp

theorem packet_queue_fifo_witness:
  "\<exists>st' rest. queue_run comm_thread_enqueue comm_thread_dequeue demo_remote
      [Enq (1, 5), Enq (2, 6), Deq, Enq (1, 7), Deq] = Some ([(1, 5), (2, 6)], st') \<and>
    pq_rep st' rest \<and> rest = [(1, 7)]"
proof -
  let ?ops = "[Enq (1, 5), Enq (2, 6), Deq, Enq (1, 7), Deq] :: (c_int \<times> ptr) queue_op list"
  have "r_room demo_remote (length (enqueued ?ops))" using demo_remote_queue(2) by (simp add: numeral_3_eq_3)
  from packet_queue_fifo [OF demo_remote_queue(1) this] obtain out st' rest where
    r: "queue_run comm_thread_enqueue comm_thread_dequeue demo_remote ?ops = Some (out, st')"
      "pq_rep st' rest" "out @ rest = [(1, 5), (2, 6), (1, 7)]" by auto
  moreover have "map_option fst (queue_run comm_thread_enqueue comm_thread_dequeue demo_remote ?ops) =
      Some [(1, 5), (2, 6)]" by code_simp
  ultimately show ?thesis by auto
qed

text \<open>
  When the system takes every write in full, emptying the send queue returns and writes
  to each socket the packets for that PE, whole and in the order of their submission, with
  consecutive request numbers.
\<close>

theorem comm_thread_send_in_order:
  assumes "pq_rep st xs" and "sendable nd st xs ks" and "\<forall>n. wr n = n"
  shows "\<exists>st'. comm_thread_send nd wr st = Some st' \<and> pq_rep st' [] \<and>
    (\<forall>i < length (cr_out st). cr_out st' ! i =
      cr_out st ! i @ sent_to nd i (cr_request_indices st ! i) (zip (map fst xs) ks))"
  using comm_thread_send_all [OF assms(1,2), of wr] assms(3) by blast

theorem comm_thread_send_in_order_witness:
  "\<exists>st st'. comm_thread_enqueue demo_remote (1, 1024) = Some st \<and>
    comm_thread_send demo_peers (\<lambda>n. n) st = Some st' \<and> length (cr_out st' ! 0) = 31"
proof -
  have "r_room demo_remote (Suc 2)" using demo_remote_queue(2) by (simp add: numeral_3_eq_3 numeral_2_eq_2)
  then obtain st where st: "comm_thread_enqueue demo_remote (1, 1024) = Some st"
    using comm_thread_enqueue_total [OF demo_remote_queue(1)] by blast
  note e = comm_thread_enqueue_Some [OF demo_remote_queue(1) st]
  let ?k = "\<lparr>pk_handler = 0, pk_origin = 0, pk_request_index = 0, pk_size = 2, pk_heap_offset = 16, pk_data = [7, 8]\<rparr>"
  have "sendable demo_peers st [(1, 1024)] [?k]"
    using e(2) by (simp add: queue_only_def sendable_def demo_remote_def comm_remote_start_def
        remote_index_def comm_node_map_def demo_peers_def)
  from comm_thread_send_in_order [OF e(1) [simplified] this, of "\<lambda>n. n"] e(2) st show ?thesis
    by (auto simp: queue_only_def demo_remote_def comm_remote_start_def remote_index_def
        comm_node_map_def demo_peers_def length_encode_packet sizeof_packet_def)
qed

text \<open>
  A packet that has arrived whole is received whole: its data lie in a buffer of private
  memory, a job with its header fields and that buffer is the last one in the worker's
  queue, and what follows on the socket stays there.
\<close>

theorem receive_whole_packet:
  assumes "cr_in st ! i = encode_packet k @ rest" and "i < length (cr_in st)"
    and "length (pk_data k) = unat (pk_size k)" and "unat (pk_size k) < 2 ^ 63"
    and "buffer_ready me bases nm st buf (unat (pk_size k))"
    and "work_rep ws js" and "w_room ws 2"
  shows "\<exists>nm' st' ws'. receive_from junk me bases i (nm, st, ws) = Some (nm', st', ws') \<and>
    nm_heap nm' = nm_heap nm \<and> load_bytes nm' me bases buf (unat (pk_size k)) = Some (pk_data k) \<and>
    cr_in st' ! i = rest \<and>
    work_rep ws' (js @ [\<lparr>j_handler = pk_handler k, j_dest_pe = cr_my_pe st, j_origin_pe = pk_origin k,
      j_dest = pk_heap_offset k, j_src = buf, j_size = pk_size k\<rparr>])"
  using receive_from_packet [OF assms] .

theorem receive_whole_packet_witness:
  "\<exists>nm' st' ws' js. receive_from (\<lambda>_. 0) 0 [Some 4096] 0
      (demo_nm, demo_remote\<lparr>cr_in := [encode_packet demo_packet]\<rparr>, demo_queue) = Some (nm', st', ws') \<and>
    load_bytes nm' 0 [Some 4096] 256 2 = Some [7, 8] \<and> work_rep ws' js \<and> length js = 1"
  using receive_whole_packet [of "demo_remote\<lparr>cr_in := [encode_packet demo_packet]\<rparr>" 0 demo_packet "[]" 0
      "[Some 4096]" demo_nm 256 demo_queue "[]" "\<lambda>_. 0"] demo_buffer [of 2] demo_work
  by (fastforce simp: demo_packet_def)

text \<open>
  C34: a packet of which only the header has arrived is not waited for. A job is submitted
  whose source buffer holds whatever \<open>malloc\<close> left there, and the socket is at the start of
  the data, which the next round reads as a header.
\<close>

theorem receive_incomplete_packet:
  assumes "cr_in st ! i = take sizeof_packet (encode_packet k)" and "i < length (cr_in st)"
    and "unat (pk_size k) < 2 ^ 63"
    and "buffer_ready me bases nm st buf (unat (pk_size k))"
    and "work_rep ws js" and "w_room ws 2"
  shows "\<exists>nm' st' ws'. receive_from junk me bases i (nm, st, ws) = Some (nm', st', ws') \<and>
    cr_in st' ! i = [] \<and>
    (\<forall>j < unat (pk_size k). nm_priv nm' me (buf + of_nat j) = Some (junk (buf + of_nat j))) \<and>
    work_rep ws' (js @ [\<lparr>j_handler = pk_handler k, j_dest_pe = cr_my_pe st, j_origin_pe = pk_origin k,
      j_dest = pk_heap_offset k, j_src = buf, j_size = pk_size k\<rparr>])"
  using receive_from_header_only [OF assms] .

theorem receive_incomplete_packet_witness:
  "\<exists>nm' st' ws' js. receive_from (\<lambda>_. 9) 0 [Some 4096] 0
      (demo_nm, demo_remote\<lparr>cr_in := [take 29 (encode_packet demo_packet)]\<rparr>, demo_queue) = Some (nm', st', ws') \<and>
    nm_priv nm' 0 256 = Some 9 \<and> work_rep ws' js \<and> length js = 1"
  using receive_incomplete_packet [of "demo_remote\<lparr>cr_in := [take 29 (encode_packet demo_packet)]\<rparr>" 0 demo_packet 0
      "[Some 4096]" demo_nm 256 demo_queue "[]" "\<lambda>_. 9"] demo_buffer [of 2] demo_work
  by (fastforce simp: demo_packet_def sizeof_packet_def)

end
