(* ===== verification/Wireup.thy ===== *)
theory Wireup
  imports Comm_Node
begin

text \<open>
  Wiring up the sockets, in \<open>comm/comm_remote.c\<close>: the connections that each PE makes and
  accepts, level by level. \<open>remote i\<close> says that the locality map has PE \<open>i\<close> on another
  node. PEs are numbers below \<open>n\<close>, so the code's bit tests and shifts on \<open>int\<close> are \<open>mod\<close>
  and powers of 2 (there are far fewer PEs than \<open>2 ^ 30\<close>).

  A connection is a handshake: the client connects to the server's command port, waits for a
  byte, sends its number and connects to the data port; the server accepts, sends the byte,
  reads the number and accepts on the data port. One action stands for one side of it.
\<close>

section \<open>Definitions\<close>

definition PORT_BASE :: nat where "PORT_BASE = 36500"

text \<open>The command and data ports of the two servers of a PE, and the length of their backlog.\<close>

definition comm_remote_open_servers :: "nat \<Rightarrow> nat \<Rightarrow> nat \<times> nat \<times> nat" where
  "comm_remote_open_servers my_pe n_pes = (PORT_BASE + 2 * my_pe, PORT_BASE + 2 * my_pe + 1, n_pes)"

datatype wire_action =
    Connect nat nat nat \<comment> \<open>the PE, its command port and its data port\<close>
  | Accept nat \<comment> \<open>the loop counter, the PE that is expected\<close>

text \<open>\<open>for (i = a; i < n; i += s)\<close>\<close>

function strided :: "nat \<Rightarrow> nat \<Rightarrow> nat \<Rightarrow> nat list" where
  "strided a n s = (if a < n \<and> 0 < s then a # strided (a + s) n s else [])"
  by auto
termination by (relation "measure (\<lambda>(a, n, s). n - a)") auto

declare strided.simps [simp del]

definition wire_client :: "(nat \<Rightarrow> bool) \<Rightarrow> nat \<Rightarrow> nat \<Rightarrow> nat \<Rightarrow> wire_action list" where
  "wire_client remote my_pe n stride =
     map (\<lambda>pe. Connect pe (PORT_BASE + 2 * pe) (PORT_BASE + 2 * pe + 1))
       (filter remote (strided (if 2 < stride \<and> my_pe mod 2 = 1 then 1 else 0) n stride))"

definition wire_server :: "(nat \<Rightarrow> bool) \<Rightarrow> nat \<Rightarrow> nat \<Rightarrow> nat \<Rightarrow> wire_action list" where
  "wire_server remote my_pe n stride =
     map Accept (filter remote (strided (my_pe mod 2 + stride div 2) n stride))"

text \<open>\<open>ceil(log2(n))\<close> for a positive \<open>n\<close>.\<close>

fun ceil_log2 :: "nat \<Rightarrow> nat" where
  "ceil_log2 n = (if n \<le> 1 then 0 else Suc (ceil_log2 ((n + 1) div 2)))"

declare ceil_log2.simps [simp del]

text \<open>The loop of \<open>comm_remote_wireup\<close> from a level on, with \<open>k\<close> levels left; it ends when \<open>complete\<close> is set.\<close>

fun wireup_from :: "(nat \<Rightarrow> bool) \<Rightarrow> nat \<Rightarrow> nat \<Rightarrow> nat \<Rightarrow> nat \<Rightarrow> (nat \<times> wire_action) list" where
  "wireup_from remote my_pe n 0 level = []"
| "wireup_from remote my_pe n (Suc k) level =
     (if my_pe mod 2 = 0 \<and> my_pe mod (2 * 2 ^ level) = 0 then
        map (Pair level) (wire_server remote my_pe n (2 * 2 ^ level)) @
        wireup_from remote my_pe n k (Suc level)
      else if 0 < level \<and> my_pe mod 2 = 1 \<and> my_pe mod (2 * 2 ^ level) = 1 then
        map (Pair level) (wire_server remote my_pe n (2 * 2 ^ level)) @
        wireup_from remote my_pe n k (Suc level)
      else
        map (Pair level) (wire_client remote my_pe n (2 * 2 ^ level)) @
        (if 0 < level then [] else wireup_from remote my_pe n k (Suc level)))"

definition comm_remote_wireup :: "(nat \<Rightarrow> bool) \<Rightarrow> nat \<Rightarrow> nat \<Rightarrow> (nat \<times> wire_action) list" where
  "comm_remote_wireup remote my_pe n = wireup_from remote my_pe n (ceil_log2 n) 0"

section \<open>Which actions a PE performs\<close>

lemma set_strided: "0 < s \<Longrightarrow> i \<in> set (strided a n s) \<longleftrightarrow> a \<le> i \<and> i < n \<and> (i - a) mod s = 0"
proof (induction a n s rule: strided.induct)
  case (1 a n s)
  show ?case
  proof (cases "a < n")
    case True
    have "(i - a) mod s = 0 \<longleftrightarrow> i = a \<or> (a + s \<le> i \<and> (i - (a + s)) mod s = 0)" if "a \<le> i"
    proof (cases "a + s \<le> i")
      case True
      then have "i - a = (i - (a + s)) + s" by simp
      then have "(i - a) mod s = (i - (a + s)) mod s" by (metis mod_add_self2)
      with True 1(2) show ?thesis by auto
    next
      case False
      with that show ?thesis by (auto simp: mod_less)
    qed
    with 1 True show ?thesis by (subst strided.simps) auto
  qed (subst strided.simps, auto)
qed

lemma distinct_strided: "distinct (strided a n s)"
proof (induction a n s rule: strided.induct)
  case (1 a n s)
  have "a \<notin> set (strided (a + s) n s)" if "0 < s" using that by (simp add: set_strided)
  with 1 show ?case by (subst strided.simps) auto
qed

lemma ceil_log2_bound: "n \<le> 2 ^ ceil_log2 n"
proof (induction n rule: ceil_log2.induct)
  case (1 n)
  show ?case
  proof (cases "n \<le> 1")
    case False
    with 1 have "(n + 1) div 2 \<le> 2 ^ ceil_log2 ((n + 1) div 2)" by simp
    then have "n \<le> 2 * 2 ^ ceil_log2 ((n + 1) div 2)" by linarith
    with False show ?thesis by (subst ceil_log2.simps) simp
  qed (subst ceil_log2.simps, simp)
qed

text \<open>The PEs that are clients and the ones that are servers at a level of the loop.\<close>

definition connects :: "nat \<Rightarrow> nat \<Rightarrow> nat \<Rightarrow> bool" where
  "connects l x y \<longleftrightarrow>
     (if l = 0 then x mod 2 = 1 \<and> y mod 2 = 0
      else x mod (2 * 2 ^ l) = x mod 2 + 2 ^ l \<and> y mod (2 * 2 ^ l) = x mod 2)"

text \<open>A PE is still in the loop at level \<open>l\<close> when its number ends in \<open>l - 1\<close> zeros, its last bit aside.\<close>

definition in_loop :: "nat \<Rightarrow> nat \<Rightarrow> bool" where
  "in_loop l x \<longleftrightarrow> l = 0 \<or> x mod 2 ^ l = x mod 2"

lemma mod_power_mod2: "0 < l \<Longrightarrow> x mod 2 ^ l mod 2 = (x :: nat) mod 2"
  by (simp add: mod_mod_cancel)

lemma mod_double:
  "x mod (2 * 2 ^ l) = (x :: nat) mod 2 ^ l \<or> x mod (2 * 2 ^ l) = x mod 2 ^ l + 2 ^ l"
  using mod_less_divisor [of 2 "x div 2 ^ l"]
  by (cases "x div 2 ^ l mod 2 = 0") (simp_all add: mod_mult2_eq mult.commute [of 2])

lemma mod_2_mod_power: "0 < l \<Longrightarrow> x mod 2 mod 2 ^ l = (x :: nat) mod 2"
proof -
  assume "0 < l"
  then have "(2 :: nat) \<le> 2 ^ l" using power_increasing [of 1 l "2 :: nat"] by simp
  moreover have "x mod 2 < 2" by simp
  ultimately have "x mod 2 < 2 ^ l" by linarith
  then show ?thesis by simp
qed

lemma mod_power_less:
  assumes "x mod 2 ^ m = (x :: nat) mod 2" and "0 < l" and "l \<le> m"
  shows "x mod 2 ^ l = x mod 2"
proof -
  have "x mod 2 ^ l = x mod 2 ^ m mod 2 ^ l" using assms(3) by (simp add: mod_mod_cancel le_imp_power_dvd)
  with assms(1,2) mod_2_mod_power [of l x] show ?thesis by simp
qed

lemma in_loop_Suc:
  "in_loop (Suc l) x \<longleftrightarrow> in_loop l x \<and> (l = 0 \<or> x mod (2 * 2 ^ l) = x mod 2)"
proof (cases l)
  case (Suc k)
  have "x mod (2 * 2 ^ l) mod 2 ^ l = x mod 2 ^ l" by (simp add: mod_mod_cancel)
  moreover have "x mod 2 mod 2 ^ l = x mod 2" using mod_2_mod_power [of l x] Suc by simp
  ultimately show ?thesis using Suc by (auto simp: in_loop_def)
qed (simp add: in_loop_def)

lemma in_loop_mono: "in_loop m x \<Longrightarrow> l \<le> m \<Longrightarrow> in_loop l x"
  using mod_power_less [of x m l] by (auto simp: in_loop_def)

definition server_at :: "nat \<Rightarrow> nat \<Rightarrow> bool" where
  "server_at l x \<longleftrightarrow> (if l = 0 then x mod 2 = 0 else x mod (2 * 2 ^ l) = x mod 2)"

definition actions_at :: "(nat \<Rightarrow> bool) \<Rightarrow> nat \<Rightarrow> nat \<Rightarrow> nat \<Rightarrow> wire_action list" where
  "actions_at remote x n l = (if server_at l x then wire_server remote x n (2 * 2 ^ l)
     else wire_client remote x n (2 * 2 ^ l))"

lemma wireup_from_step:
  "wireup_from remote x n (Suc k) l = map (Pair l) (actions_at remote x n l) @
    (if l = 0 \<or> server_at l x then wireup_from remote x n k (Suc l) else [])"
proof (cases "x mod 2 = 0")
  case True
  then show ?thesis by (auto simp: actions_at_def server_at_def)
next
  case False
  then have "x mod 2 = 1" by simp
  then show ?thesis by (auto simp: actions_at_def server_at_def)
qed

declare wireup_from.simps(2) [simp del]

lemma set_wireup_from:
  assumes "in_loop lv x"
  shows "(l, a) \<in> set (wireup_from remote x n k lv) \<longleftrightarrow>
    lv \<le> l \<and> l < lv + k \<and> in_loop l x \<and> a \<in> set (actions_at remote x n l)"
  using assms
proof (induction k arbitrary: lv)
  case (Suc k)
  show ?case
  proof (cases "lv = 0 \<or> server_at lv x")
    case True
    then have "in_loop (Suc lv) x" using Suc.prems by (auto simp: in_loop_Suc server_at_def split: if_splits)
    from Suc.IH [OF this] True Suc.prems show ?thesis
      by (auto simp: wireup_from_step Suc_le_eq order_le_less)
  next
    case False
    then have "\<not> in_loop (Suc lv) x" by (auto simp: in_loop_Suc server_at_def split: if_splits)
    then have "\<not> in_loop m x" if "lv < m" for m using in_loop_mono [of m x "Suc lv"] that by auto
    with False Suc.prems show ?thesis by (auto simp: wireup_from_step order_le_less)
  qed
qed simp

lemma mod_eq_iff_strided:
  "a < s \<Longrightarrow> a \<le> y \<and> (y - a) mod s = 0 \<longleftrightarrow> y mod s = (a :: nat)"
proof
  assume a: "a < s" and "a \<le> y \<and> (y - a) mod s = 0"
  then obtain k where "y = a + s * k" by (auto simp: mod_eq_0_iff_dvd dvd_def) (metis add.commute le_add_diff_inverse)
  with a show "y mod s = a" by simp
next
  assume "a < s" "y mod s = a"
  then have "a \<le> y" "y - a = s * (y div s)" by (auto simp: minus_mod_eq_mult_div [symmetric])
  then show "a \<le> y \<and> (y - a) mod s = 0" by simp
qed

lemma client_connects:
  assumes "in_loop l x"
  shows "Connect y c d \<in> set (actions_at remote x n l) \<longleftrightarrow>
    connects l x y \<and> y < n \<and> remote y \<and> c = PORT_BASE + 2 * y \<and> d = PORT_BASE + 2 * y + 1"
proof (cases "l = 0")
  case True
  have "y \<in> set (strided 0 n 2) \<longleftrightarrow> y < n \<and> y mod 2 = 0" by (simp add: set_strided)
  with True show ?thesis
    by (auto simp: actions_at_def server_at_def wire_client_def wire_server_def connects_def)
next
  case False
  have p: "(2 :: nat) \<le> 2 ^ l" using False power_increasing [of 1 l "2 :: nat"] by simp
  have start: "(if (2 :: nat) < 2 * 2 ^ l \<and> x mod 2 = 1 then 1 else 0) = x mod 2" using p by auto
  have a: "x mod 2 < 2 * 2 ^ l" using p by (rule_tac order_less_le_trans [of _ 2]) simp_all
  have "y \<in> set (strided (x mod 2) n (2 * 2 ^ l)) \<longleftrightarrow> y < n \<and> y mod (2 * 2 ^ l) = x mod 2"
    using set_strided [of "2 * 2 ^ l" y "x mod 2" n] mod_eq_iff_strided [OF a, of y] by auto
  moreover have "\<not> server_at l x \<longleftrightarrow> x mod (2 * 2 ^ l) = x mod 2 + 2 ^ l"
    using mod_double [of x l] assms False by (auto simp: server_at_def in_loop_def)
  ultimately show ?thesis
    using False start by (auto simp: actions_at_def wire_client_def wire_server_def connects_def)
qed

lemma server_accepts:
  assumes "in_loop l y"
  shows "Accept x \<in> set (actions_at remote y n l) \<longleftrightarrow> connects l x y \<and> x < n \<and> remote x"
proof (cases "l = 0")
  case True
  have "x \<in> set (strided 1 n 2) \<longleftrightarrow> x < n \<and> x mod 2 = 1"
    using set_strided [of 2 x 1 n] mod_eq_iff_strided [of 1 2 x] by auto
  with True show ?thesis
    by (auto simp: actions_at_def server_at_def wire_client_def wire_server_def connects_def)
next
  case False
  have p: "(2 :: nat) \<le> 2 ^ l" using False power_increasing [of 1 l "2 :: nat"] by simp
  have "y mod 2 < 2" by simp
  then have a: "y mod 2 + 2 ^ l < 2 * 2 ^ l" using p by linarith
  have i: "x \<in> set (strided (y mod 2 + 2 ^ l) n (2 * 2 ^ l)) \<longleftrightarrow> x < n \<and> x mod (2 * 2 ^ l) = y mod 2 + 2 ^ l"
    using set_strided [of "2 * 2 ^ l" x "y mod 2 + 2 ^ l" n] mod_eq_iff_strided [OF a, of x] by auto
  have "x mod 2 = y mod 2" if "x mod (2 * 2 ^ l) = y mod 2 + 2 ^ l"
  proof -
    have "x mod 2 = x mod (2 * 2 ^ l) mod 2" by (simp add: mod_mod_cancel)
    also have "\<dots> = (y mod 2 + 2 ^ l) mod 2" using that by simp
    also have "\<dots> = y mod 2" using False by (cases l) (simp_all add: mod_add_eq)
    finally show ?thesis .
  qed
  moreover have "x mod 2 = y mod 2" if "y mod (2 * 2 ^ l) = x mod 2"
    using arg_cong [OF that, of "\<lambda>z. z mod 2"] by (simp add: mod_mod_cancel)
  ultimately have "(server_at l y \<and> x mod (2 * 2 ^ l) = y mod 2 + 2 ^ l) = connects l x y"
    using False unfolding server_at_def connects_def by auto
  with i show ?thesis by (auto simp: actions_at_def wire_client_def wire_server_def)
qed

lemma connects_parity:
  assumes "connects l x y" and "0 < l"
  shows "x mod 2 = y mod 2"
proof -
  have "y mod 2 = y mod (2 * 2 ^ l) mod 2" by (simp add: mod_mod_cancel)
  also have "y mod (2 * 2 ^ l) = x mod 2" using assms by (simp add: connects_def)
  finally show ?thesis by simp
qed

text \<open>The two sides of a connection are still in the loop at its level.\<close>

lemma connects_in_loop:
  assumes "connects l x y"
  shows "in_loop l x" and "in_loop l y"
proof -
  have "z mod 2 ^ l = z mod 2" if "0 < l" "z mod (2 * 2 ^ l) = z mod 2 \<or> z mod (2 * 2 ^ l) = z mod 2 + 2 ^ l"
    for z :: nat
  proof -
    have "z mod 2 ^ l = z mod (2 * 2 ^ l) mod 2 ^ l" by (simp add: mod_mod_cancel)
    with that mod_2_mod_power [of l z] show ?thesis by auto
  qed
  moreover note connects_parity [OF assms]
  ultimately have "0 < l \<Longrightarrow> x mod 2 ^ l = x mod 2 \<and> y mod 2 ^ l = y mod 2"
    using assms by (simp add: connects_def)
  then show "in_loop l x" "in_loop l y" by (auto simp: in_loop_def)
qed

lemma set_wireup_connect:
  "(l, Connect y c d) \<in> set (comm_remote_wireup remote x n) \<longleftrightarrow>
    l < ceil_log2 n \<and> connects l x y \<and> y < n \<and> remote y \<and> c = PORT_BASE + 2 * y \<and> d = PORT_BASE + 2 * y + 1"
proof -
  have "in_loop 0 x" by (simp add: in_loop_def)
  from set_wireup_from [OF this] client_connects [of l x] connects_in_loop(1) [of l x y]
  show ?thesis by (auto simp: comm_remote_wireup_def)
qed

lemma set_wireup_accept:
  "(l, Accept x) \<in> set (comm_remote_wireup remote y n) \<longleftrightarrow>
    l < ceil_log2 n \<and> connects l x y \<and> x < n \<and> remote x"
proof -
  have "in_loop 0 y" by (simp add: in_loop_def)
  from set_wireup_from [OF this] server_accepts [of l y] connects_in_loop(2) [of l x y]
  show ?thesis by (auto simp: comm_remote_wireup_def)
qed

lemma connects_unique: "connects l x y \<Longrightarrow> connects m x y \<Longrightarrow> l = m"
proof (rule ccontr)
  have lt: False if c: "connects l x y" "connects m x y" "l < m" for l m
  proof (cases "l = 0")
    case True
    with c have "x mod 2 = 1" "y mod 2 = 0" by (auto simp: connects_def)
    with connects_parity [OF c(2)] c(3) show False by simp
  next
    case False
    have x: "x mod 2 ^ m = x mod 2" using connects_in_loop(1) [OF c(2)] c(3) by (auto simp: in_loop_def)
    have "x mod 2 ^ Suc l = x mod 2" by (rule mod_power_less [OF x]) (use c(3) in simp_all)
    then have "x mod (2 * 2 ^ l) = x mod 2" by simp
    moreover have "x mod (2 * 2 ^ l) = x mod 2 + 2 ^ l" using c(1) False unfolding connects_def by simp
    ultimately show False by simp
  qed
  assume "connects l x y" "connects m x y" "l \<noteq> m"
  then show False using lt [of l m] lt [of m l] by (meson linorder_neqE_nat)
qed

lemma connects_one_way: "connects l x y \<Longrightarrow> \<not> connects m y x"
proof
  have no: False if c: "connects l x y" "connects m y x" "l \<le> m" for l m x y
  proof (cases "m = 0")
    case True
    with c show False by (simp add: connects_def)
  next
    case False
    then have x: "x mod 2 ^ Suc m = x mod 2"
      using c(2) connects_parity [OF c(2)] by (simp add: connects_def)
    show False
    proof (cases "l = 0")
      case True
      with c(1,2) False x show False by (simp add: connects_def)
    next
      case False
      have "x mod 2 ^ Suc l = x mod 2" by (rule mod_power_less [OF x]) (use c(3) in simp_all)
      with c(1) False show False by (simp add: connects_def)
    qed
  qed
  assume "connects l x y" "connects m y x"
  then show False using no [of l x y m] no [of m y x l] by (cases "l \<le> m") auto
qed

text \<open>
  Whether one of two PEs connects to the other, without the levels: their last bits differ,
  or the numbers of zeros before the last bit do.
\<close>

definition connected :: "nat \<Rightarrow> nat \<Rightarrow> nat \<Rightarrow> bool" where
  "connected n x y \<longleftrightarrow> (\<exists>l c d. (l, Connect y c d) \<in> set (comm_remote_wireup (\<lambda>_. True) x n) \<or>
     (l, Connect x c d) \<in> set (comm_remote_wireup (\<lambda>_. True) y n))"

lemma connected_levels:
  assumes "x < n" and "y < n"
  shows "connected n x y \<longleftrightarrow> (\<exists>l < ceil_log2 n. connects l x y \<or> connects l y x)"
  using assms by (auto simp: connected_def set_wireup_connect)

lemma mod_halves: "x mod (4 * 2 ^ j) = 2 * (x div 2 mod (2 * 2 ^ j)) + (x :: nat) mod 2"
  using mod_mult2_eq [of x 2 "2 * 2 ^ j"] by simp

lemma connects_Suc:
  "connects (Suc j) x y \<longleftrightarrow> x mod 2 = y mod 2 \<and> x div 2 mod (2 * 2 ^ j) = 2 ^ j \<and> 2 ^ Suc j dvd y div 2"
proof -
  have half: "2 * a + y mod 2 = x mod 2 \<longleftrightarrow> x mod 2 = y mod 2 \<and> a = 0" for a by presburger
  have "y mod (4 * 2 ^ j) = x mod 2 \<longleftrightarrow> x mod 2 = y mod 2 \<and> y div 2 mod (2 * 2 ^ j) = 0"
    unfolding mod_halves by (rule half)
  moreover have "x mod (4 * 2 ^ j) = x mod 2 + 2 * 2 ^ j \<longleftrightarrow> x div 2 mod (2 * 2 ^ j) = 2 ^ j"
    unfolding mod_halves by auto
  moreover have "connects (Suc j) x y \<longleftrightarrow> x mod (4 * 2 ^ j) = x mod 2 + 2 * 2 ^ j \<and> y mod (4 * 2 ^ j) = x mod 2"
    by (simp add: connects_def)
  ultimately show ?thesis unfolding dvd_eq_mod_eq_0 power_Suc by argo
qed

lemma lowest_bit: "2 ^ j dvd a \<Longrightarrow> \<not> 2 ^ Suc j dvd a \<Longrightarrow> a mod (2 * 2 ^ j) = (2 ^ j :: nat)"
proof -
  assume "2 ^ j dvd a" "\<not> 2 ^ Suc j dvd a"
  then obtain k where k: "a = 2 ^ j * k" "\<not> 2 dvd k" by (auto elim!: dvdE)
  have "a mod (2 ^ j * 2) = 2 ^ j * (k mod 2)" unfolding k(1) by (rule mult_mod_right [symmetric])
  also have "k mod 2 = 1" using k(2) by presburger
  finally show ?thesis by (simp add: mult.commute)
qed

lemma connects_below:
  assumes "connects l x y" and "x < n" and "y < n"
  shows "l < ceil_log2 n"
proof -
  have "2 ^ l < n"
  proof (cases l)
    case 0
    with assms show ?thesis by (cases "x = 0"; cases "y = 0") (auto simp: connects_def)
  next
    case (Suc j)
    hence "2 ^ j \<le> x div 2" using assms(1) unfolding Suc connects_Suc by (metis mod_less_eq_dividend)
    thus ?thesis using assms(2) Suc by simp
  qed
  also have "n \<le> 2 ^ ceil_log2 n" by (rule ceil_log2_bound)
  finally show ?thesis by simp
qed

lemma connects_zeros:
  assumes "x mod 2 = y mod 2" and "2 ^ k dvd y div 2" "\<not> 2 ^ k dvd x div 2"
  shows "\<exists>l. connects l x y"
proof -
  define m where "m = (LEAST i. \<not> 2 ^ i dvd x div 2)"
  have m: "\<not> 2 ^ m dvd x div 2" "m \<le> k" 
    unfolding m_def using LeastI [of "\<lambda>i. \<not> 2 ^ i dvd x div 2" k] Least_le [of "\<lambda>i. \<not> 2 ^ i dvd x div 2" k] assms(3) by blast+
  then obtain j where j: "m = Suc j" by (cases m) auto
  have "2 ^ j dvd x div 2" using not_less_Least [of j "\<lambda>i. \<not> 2 ^ i dvd x div 2"] j m_def by auto
  moreover have "2 ^ Suc j dvd y div 2" using assms(2) m(2) j by (meson le_imp_power_dvd dvd_trans)
  ultimately have "connects (Suc j) x y" using lowest_bit m(1) assms(1) unfolding j connects_Suc by blast
  thus ?thesis ..
qed

section \<open>Properties\<close>

text \<open>
  C35: the two sides agree. For PEs on different nodes, one connects to the other at a level
  exactly when the other expects it at this level, and it connects to the ports of the
  other's servers: no PE waits for a connection that is never made, nor makes one that is
  never accepted.
\<close>

theorem wireup_sides_agree:
  assumes "x < n" and "y < n" and "rx y = ry x"
  shows "((l, Connect y c d) \<in> set (comm_remote_wireup rx x n)) =
    ((l, Accept x) \<in> set (comm_remote_wireup ry y n) \<and> (c, d, n) = comm_remote_open_servers y n)"
  using assms by (auto simp: set_wireup_connect set_wireup_accept comm_remote_open_servers_def)

theorem wireup_sides_agree_witness:
  "((1, Connect 1 36502 36503) \<in> set (comm_remote_wireup (\<lambda>_. True) 3 4)) =
    ((1, Accept 3) \<in> set (comm_remote_wireup (\<lambda>_. True) 1 4))"
  using wireup_sides_agree [of 3 4 1 "\<lambda>_. True" "\<lambda>_. True" 1 36502 36503]
  by (simp add: comm_remote_open_servers_def PORT_BASE_def)

text \<open>
  C36: No two PEs are connected twice: a PE connects to another at one level at most, and
  then the other never connects to it. So no socket is overwritten by a second connection.
\<close>

theorem wireup_connects_once:
  assumes "(l, Connect y c d) \<in> set (comm_remote_wireup rx x n)"
  shows "((m, Connect y c' d') \<in> set (comm_remote_wireup rx x n) \<longrightarrow> m = l \<and> c' = c \<and> d' = d) \<and>
    (m, Connect x c' d') \<notin> set (comm_remote_wireup ry y n)"
  using assms connects_unique [of l x y m] connects_one_way [of l x y m]
  by (auto simp: set_wireup_connect)

theorem wireup_connects_once_witness:
  "(0, Connect 3 36506 36507) \<notin> set (comm_remote_wireup (\<lambda>_. True) 2 4)"
proof -
  have "ceil_log2 4 = 2" by (simp add: ceil_log2.simps)
  then have "(0, Connect 2 36504 36505) \<in> set (comm_remote_wireup (\<lambda>_. True) 3 4)"
    by (simp add: set_wireup_connect connects_def PORT_BASE_def)
  from wireup_connects_once [OF this, of 0 36506 36507 "\<lambda>_. True"] show ?thesis by simp
qed

text \<open>
  C37: which PEs have a connection, for any number of them, each on a node of its own: two
  PEs do exactly when their numbers differ in the last bit, or without it in the number of
  zeros at the end. So PE 0, to which every other one puts in the barrier, is connected to all
  of them, and so is every PE to the next; but PEs 2 and 6 are not, nor 3 and 7.
\<close>

theorem wireup_connected_pairs:
  assumes "x < n" and "y < n" and "x \<noteq> y"
  shows "connected n x y \<longleftrightarrow> x mod 2 \<noteq> y mod 2 \<or> (\<exists>k. (2 ^ k dvd x div 2) \<noteq> (2 ^ k dvd y div 2))"
proof -
  have "connected n x y \<longleftrightarrow> (\<exists>l. connects l x y \<or> connects l y x)"
    using connected_levels [OF assms(1,2)] connects_below assms(1,2) by blast
  also have "\<dots> \<longleftrightarrow> x mod 2 \<noteq> y mod 2 \<or> (\<exists>k. (2 ^ k dvd x div 2) \<noteq> (2 ^ k dvd y div 2))"
  proof
    assume "\<exists>l. connects l x y \<or> connects l y x"
    then obtain l where l: "connects l x y \<or> connects l y x" by blast
    show "x mod 2 \<noteq> y mod 2 \<or> (\<exists>k. (2 ^ k dvd x div 2) \<noteq> (2 ^ k dvd y div 2))"
    proof (cases l)
      case 0
      with l show ?thesis by (auto simp: connects_def)
    next
      case (Suc j)
      have "(2 ^ Suc j dvd x div 2) \<noteq> (2 ^ Suc j dvd y div 2)"
        using l unfolding Suc connects_Suc by (auto simp: dvd_eq_mod_eq_0)
      thus ?thesis by blast
    qed
  next
    assume r: "x mod 2 \<noteq> y mod 2 \<or> (\<exists>k. (2 ^ k dvd x div 2) \<noteq> (2 ^ k dvd y div 2))"
    show "\<exists>l. connects l x y \<or> connects l y x"
    proof (cases "x mod 2 = y mod 2")
      case True
      with r obtain k where "(2 ^ k dvd x div 2) \<noteq> (2 ^ k dvd y div 2)" by blast
      with True connects_zeros [of x y k] connects_zeros [of y x k] show ?thesis by metis
    next
      case False
      hence "connects 0 x y \<or> connects 0 y x" by (auto simp: connects_def)
      thus ?thesis by blast
    qed
  qed
  finally show ?thesis .
qed

theorem wireup_connected_pairs_witness: "connected 9 0 8 \<and> connected 9 4 5 \<and> \<not> connected 9 3 7"
proof -
  have "(2 ^ k dvd (3 :: nat) div 2) = (2 ^ k dvd (7 :: nat) div 2)" for k
    by (cases k) (auto dest: dvd_mult_left)
  moreover have "(3 :: nat) mod 2 = 7 mod 2" "(4 :: nat) mod 2 \<noteq> 5 mod 2" by simp_all
  moreover have "(2 ^ 3 dvd (0 :: nat) div 2) \<noteq> (2 ^ 3 dvd (8 :: nat) div 2)" by simp
  moreover have "(3 :: nat) < 9" "(7 :: nat) < 9" "(3 :: nat) \<noteq> 7" "(4 :: nat) < 9" "(5 :: nat) < 9" "(4 :: nat) \<noteq> 5"
    "(0 :: nat) < 9" "(8 :: nat) < 9" "(0 :: nat) \<noteq> 8" by simp_all
  moreover note wireup_connected_pairs [of 3 9 7] wireup_connected_pairs [of 4 9 5] wireup_connected_pairs [of 0 9 8]
  ultimately show ?thesis by blast
qed

text \<open>
  With at most six PEs, all on nodes of their own, every two of them are connected.
\<close>

theorem wireup_complete_six:
  assumes "n \<le> 6" and "x < n" and "y < n" and "x \<noteq> y"
  shows "\<exists>l c d. (l, Connect y c d) \<in> set (comm_remote_wireup (\<lambda>_. True) x n) \<or>
    (l, Connect x c d) \<in> set (comm_remote_wireup (\<lambda>_. True) y n)"
proof -
  have "list_all (\<lambda>n. list_all (\<lambda>x. list_all (\<lambda>y. x = y \<or>
      list_ex (\<lambda>l. connects l x y \<or> connects l y x) [0 ..< ceil_log2 n]) [0 ..< n]) [0 ..< n]) [0 ..< 7]"
    by code_simp
  then have "\<exists>l < ceil_log2 n. connects l x y \<or> connects l y x"
    using assms unfolding list_all_iff list_ex_iff
    by (drule_tac bspec [of _ _ n], simp, drule_tac bspec [of _ _ x], simp, drule_tac bspec [of _ _ y], simp, auto)
  with assms show ?thesis by (auto simp: set_wireup_connect)
qed

theorem wireup_complete_six_witness:
  "\<exists>l c d. (l, Connect 5 c d) \<in> set (comm_remote_wireup (\<lambda>_. True) 3 6) \<or>
    (l, Connect 3 c d) \<in> set (comm_remote_wireup (\<lambda>_. True) 5 6)"
  by (rule wireup_complete_six) simp_all

text \<open>
  With seven PEs or more, PE 2 and PE 6 are never connected, wherever they run: their
  sockets stay uninitialised when they are on different nodes.
\<close>

theorem wireup_misses_pair:
  assumes "7 \<le> n"
  shows "(l, Connect 6 c d) \<notin> set (comm_remote_wireup rx 2 n) \<and>
    (l, Connect 2 c d) \<notin> set (comm_remote_wireup ry 6 n) \<and>
    (l, Accept 6) \<notin> set (comm_remote_wireup rx 2 n) \<and> (l, Accept 2) \<notin> set (comm_remote_wireup ry 6 n)"
proof -
  have "\<not> connects l 2 6 \<and> \<not> connects l 6 2"
  proof (cases "l = 0 \<or> l = 1")
    case False
    then have "l = Suc (Suc (l - 2))" by linarith
    then obtain k where "l = Suc (Suc k)" by (rule that)
    then have "4 \<le> (2 :: nat) ^ l" by simp
    moreover from this have "(2 :: nat) mod (2 * 2 ^ l) = 2" by (intro mod_less) linarith
    ultimately have "(2 :: nat) mod (2 * 2 ^ l) = 2" "4 \<le> (2 :: nat) ^ l" by blast+
    then show ?thesis by (auto simp: connects_def)
  qed (auto simp: connects_def)
  then show ?thesis by (auto simp: set_wireup_connect set_wireup_accept)
qed

theorem wireup_misses_pair_witness:
  "(2, Connect 6 36512 36513) \<notin> set (comm_remote_wireup (\<lambda>_. True) 2 7)"
  using wireup_misses_pair [of 7] by simp

end
