(* ===== verification/Network.thy ===== *)
theory Network
  imports Prelude
begin

unbundle bit_operations_syntax

text \<open>
  The sockets of \<open>network/network.c\<close>. The operating system is the function from the number
  of calls made so far to the answer of the next one, and every call made is recorded, so
  that a lemma about all such functions is one about all the answers the system can give.
  Socket objects live in a store of their own, in which only the ones that \<open>malloc\<close> returned
  can be freed. Undefined behaviour is \<open>None\<close>; \<open>malloc\<close> is taken to succeed, since the code
  does not test its result. \<open>perror\<close> and \<open>printf\<close> are not modelled.
\<close>

section \<open>Definitions\<close>

text \<open>The members of \<open>sockaddr_in\<close> and the constants of Linux that the code uses.\<close>

record sockaddr_in =
  sin_family :: "16 word"
  sin_port :: "16 word"
  sin_addr :: "32 word"

record socket_t =
  sk_fd :: c_int
  sk_addr :: sockaddr_in

definition AF_INET :: "16 word" where "AF_INET = 2"
definition INADDR_ANY :: "32 word" where "INADDR_ANY = 0"
definition O_NONBLOCK :: c_int where "O_NONBLOCK = 2048"

text \<open>\<open>htons\<close> on a little-endian machine.\<close>

definition htons :: "16 word \<Rightarrow> 16 word" where
  "htons x = push_bit 8 x OR drop_bit 8 x"

datatype net_call =
    Call_socket
  | Call_setsockopt c_int
  | Call_bind c_int sockaddr_in
  | Call_listen c_int c_int
  | Call_accept c_int
  | Call_connect c_int sockaddr_in
  | Call_read c_int size_t
  | Call_write c_int "byte list"
  | Call_close c_int
  | Call_getfl c_int
  | Call_setfl c_int c_int

text \<open>
  The answers, the address \<open>accept\<close> stores and the bytes \<open>read\<close> gives (\<open>None\<close> for an error) at
  each call; the calls made; the socket objects, which of them \<open>malloc\<close> returned, what a new
  one holds and where it is.
\<close>

record net =
  net_answer :: "nat \<Rightarrow> c_int"
  net_written :: "nat \<Rightarrow> c_long"
  net_peer :: "nat \<Rightarrow> sockaddr_in"
  net_read :: "nat \<Rightarrow> byte list option"
  net_calls :: "net_call list"
  net_socks :: "nat \<Rightarrow> socket_t option"
  net_owned :: "nat \<Rightarrow> bool"
  net_junk :: socket_t
  net_next :: nat

definition os_call :: "net_call \<Rightarrow> net \<Rightarrow> c_int \<times> net" where
  "os_call c n = (net_answer n (length (net_calls n)), n\<lparr>net_calls := net_calls n @ [c]\<rparr>)"

definition put_sock :: "nat \<Rightarrow> socket_t \<Rightarrow> net \<Rightarrow> net" where
  "put_sock p s n = n\<lparr>net_socks := (net_socks n)(p \<mapsto> s)\<rparr>"

definition malloc_sock :: "net \<Rightarrow> nat \<times> net" where
  "malloc_sock n = (net_next n, put_sock (net_next n) (net_junk n)
     (n\<lparr>net_owned := (net_owned n)(net_next n := True), net_next := Suc (net_next n)\<rparr>))"

definition free_sock :: "nat \<Rightarrow> net \<Rightarrow> net option" where
  "free_sock p n = (if net_owned n p
     then Some (n\<lparr>net_socks := (net_socks n)(p := None), net_owned := (net_owned n)(p := False)\<rparr>) else None)"

definition network_init_socket :: "nat \<Rightarrow> net \<Rightarrow> (c_int \<times> net) option" where
  "network_init_socket p n = do {
     s \<leftarrow> net_socks n p;
     let s = s\<lparr>sk_addr := \<lparr>sin_family = AF_INET, sin_port = 0, sin_addr = INADDR_ANY\<rparr>\<rparr>;
     let (fd, n) = os_call Call_socket n;
     let n = put_sock p (s\<lparr>sk_fd := fd\<rparr>) n;
     if fd = 0 then Some (0, n) else Some (1, n)
   }"

definition network_create_socket :: "net \<Rightarrow> (nat option \<times> net) option" where
  "network_create_socket n = do {
     let (p, n) = malloc_sock n;
     (r, n) \<leftarrow> network_init_socket p n;
     if r = 0 then do {
       n \<leftarrow> free_sock p n;
       Some (None, n)
     } else Some (Some p, n)
   }"

definition network_create_server :: "c_int \<Rightarrow> c_int \<Rightarrow> net \<Rightarrow> (nat option \<times> net) option" where
  "network_create_server port n_listen n = do {
     (r, n) \<leftarrow> network_create_socket n;
     (case r of
        None \<Rightarrow> Some (None, n)
      | Some p \<Rightarrow> do {
          s \<leftarrow> net_socks n p;
          let (e, n) = os_call (Call_setsockopt (sk_fd s)) n;
          if e \<noteq> 0 then Some (None, n) else do {
            let s = s\<lparr>sk_addr := (sk_addr s)\<lparr>sin_port := htons (ucast port)\<rparr>\<rparr>;
            let (e, n) = os_call (Call_bind (sk_fd s) (sk_addr s)) (put_sock p s n);
            if sint e < 0 then Some (None, n) else do {
              let (e, n) = os_call (Call_listen (sk_fd s) n_listen) n;
              if sint e < 0 then Some (None, n) else Some (Some p, n)
            }
          }
        })
   }"

text \<open>\<open>accept\<close> stores the peer's address when it succeeds; its answer is stored as \<open>fd\<close> first.\<close>

definition network_accept_2 :: "nat \<Rightarrow> nat \<Rightarrow> net \<Rightarrow> (c_int \<times> net) option" where
  "network_accept_2 server p n = do {
     sv \<leftarrow> net_socks n server;
     s \<leftarrow> net_socks n p;
     let peer = net_peer n (length (net_calls n));
     let (fd, n) = os_call (Call_accept (sk_fd sv)) n;
     if fd = - 1 then do {
       n \<leftarrow> free_sock p (put_sock p (s\<lparr>sk_fd := fd\<rparr>) n);
       Some (0, n)
     } else Some (1, put_sock p \<lparr>sk_fd = fd, sk_addr = peer\<rparr> n)
   }"

definition network_accept :: "nat \<Rightarrow> net \<Rightarrow> (nat option \<times> net) option" where
  "network_accept server n = do {
     let (p, n) = malloc_sock n;
     (r, n) \<leftarrow> network_accept_2 server p n;
     if r = 0 then Some (None, n) else Some (Some p, n)
   }"

definition network_connect :: "nat \<Rightarrow> 32 word \<Rightarrow> c_int \<Rightarrow> net \<Rightarrow> (c_int \<times> net) option" where
  "network_connect p host port n = do {
     s \<leftarrow> net_socks n p;
     let s = s\<lparr>sk_addr := (sk_addr s)\<lparr>sin_addr := host, sin_port := htons (ucast port)\<rparr>\<rparr>;
     let (e, n) = os_call (Call_connect (sk_fd s) (sk_addr s)) (put_sock p s n);
     if e = - 1 then Some (0, n) else Some (1, n)
   }"

text \<open>The result of \<open>read\<close> and the bytes it stores in the buffer.\<close>

definition network_receive :: "nat \<Rightarrow> size_t \<Rightarrow> net \<Rightarrow> (c_long \<times> byte list \<times> net) option" where
  "network_receive p n_bytes n = do {
     s \<leftarrow> net_socks n p;
     let r = net_read n (length (net_calls n));
     let (_, n) = os_call (Call_read (sk_fd s) n_bytes) n;
     (case r of
        None \<Rightarrow> Some (- 1, [], n)
      | Some bs \<Rightarrow> let bs = take (unat n_bytes) bs in Some (of_nat (length bs), bs, n))
   }"

definition network_send :: "nat \<Rightarrow> byte list \<Rightarrow> net \<Rightarrow> (c_long \<times> net) option" where
  "network_send p buf n = do {
     s \<leftarrow> net_socks n p;
     let bytes_written = net_written n (length (net_calls n));
     let (_, n) = os_call (Call_write (sk_fd s) buf) n;
     Some (bytes_written, n)
   }"

definition network_close :: "nat \<Rightarrow> net \<Rightarrow> net option" where
  "network_close p n = do {
     s \<leftarrow> net_socks n p;
     let (_, n) = os_call (Call_close (sk_fd s)) n;
     free_sock p n
   }"

definition network_set_blocking :: "nat \<Rightarrow> c_int \<Rightarrow> net \<Rightarrow> (c_int \<times> net) option" where
  "network_set_blocking p blocking n = do {
     s \<leftarrow> net_socks n p;
     let (flags, n) = os_call (Call_getfl (sk_fd s)) n;
     let flags = (if blocking \<noteq> 0 then flags AND NOT O_NONBLOCK else flags OR O_NONBLOCK);
     let (e, n) = os_call (Call_setfl (sk_fd s) flags) n;
     Some (if e = 0 then 1 else 0, n)
   }"

text \<open>
  \<open>__comm_remote_close_servers\<close> of \<open>comm/comm_remote.c\<close>, on its two variables. Only the first
  one is tested; closing the second when it is NULL is undefined.
\<close>

definition comm_remote_close_servers ::
    "nat option \<times> nat option \<Rightarrow> net \<Rightarrow> ((nat option \<times> nat option) \<times> net) option" where
  "comm_remote_close_servers sv n = (case fst sv of
     None \<Rightarrow> Some (sv, n)
   | Some cmd \<Rightarrow> do {
       n \<leftarrow> network_close cmd n;
       data \<leftarrow> snd sv;
       n \<leftarrow> network_close data n;
       Some ((None, None), n)
     })"

section \<open>Lemmas\<close>

lemma htons_bit: "bit (htons x) i \<longleftrightarrow> i < 16 \<and> (if i < 8 then bit x (i + 8) else bit x (i - 8))"
  by (auto simp: htons_def bit_simps add.commute dest: bit_imp_le_length)

lemma htons_htons [simp]: "htons (htons x) = x"
  by (rule bit_word_eqI) (auto simp: htons_bit)

lemma net_simps [simp]:
  "fst (os_call c n) = net_answer n (length (net_calls n))"
  "net_calls (snd (os_call c n)) = net_calls n @ [c]"
  "net_socks (snd (os_call c n)) = net_socks n"
  "net_owned (snd (os_call c n)) = net_owned n"
  "net_answer (snd (os_call c n)) = net_answer n"
  "net_next (snd (os_call c n)) = net_next n"
  "net_calls (put_sock p s n) = net_calls n"
  "net_socks (put_sock p s n) = (net_socks n)(p \<mapsto> s)"
  "net_owned (put_sock p s n) = net_owned n"
  "net_answer (put_sock p s n) = net_answer n"
  "net_next (put_sock p s n) = net_next n"
  by (simp_all add: os_call_def put_sock_def)

lemma malloc_sock_simps [simp]:
  "fst (malloc_sock n) = net_next n"
  "net_calls (snd (malloc_sock n)) = net_calls n"
  "net_socks (snd (malloc_sock n)) = (net_socks n)(net_next n \<mapsto> net_junk n)"
  "net_owned (snd (malloc_sock n)) = (net_owned n)(net_next n := True)"
  "net_answer (snd (malloc_sock n)) = net_answer n"
  "net_peer (snd (malloc_sock n)) = net_peer n"
  by (simp_all add: malloc_sock_def put_sock_def)

lemma free_sock_owned [simp]:
  "net_owned n p \<Longrightarrow> free_sock p n =
     Some (n\<lparr>net_socks := (net_socks n)(p := None), net_owned := (net_owned n)(p := False)\<rparr>)"
  by (simp add: free_sock_def)

definition any_addr :: "16 word \<Rightarrow> sockaddr_in" where
  "any_addr port = \<lparr>sin_family = AF_INET, sin_port = port, sin_addr = INADDR_ANY\<rparr>"

lemma init_socket_value:
  assumes "net_socks n p = Some s"
  shows "network_init_socket p n =
    (let fd = net_answer n (length (net_calls n)) in
     Some (if fd = 0 then 0 else 1, put_sock p \<lparr>sk_fd = fd, sk_addr = any_addr 0\<rparr> (snd (os_call Call_socket n))))"
  using assms by (cases s) (simp add: network_init_socket_def any_addr_def Let_def split_beta)

lemma create_socket_value:
  "network_create_socket n =
    (let fd = net_answer n (length (net_calls n)); p = net_next n;
         m = put_sock p \<lparr>sk_fd = fd, sk_addr = any_addr 0\<rparr> (snd (os_call Call_socket (snd (malloc_sock n))))
     in Some (if fd = 0
       then (None, m\<lparr>net_socks := (net_socks m)(p := None), net_owned := (net_owned m)(p := False)\<rparr>)
       else (Some p, m)))"
  by (simp add: network_create_socket_def split_beta init_socket_value Let_def)

lemma create_socket_some:
  assumes "net_answer n (length (net_calls n)) \<noteq> 0"
  obtains m where "network_create_socket n = Some (Some (net_next n), m)"
    and "net_socks m (net_next n) =
      Some \<lparr>sk_fd = net_answer n (length (net_calls n)), sk_addr = any_addr 0\<rparr>"
    and "net_calls m = net_calls n @ [Call_socket]" and "net_answer m = net_answer n"
    and "net_owned m (net_next n)"
  using assms by (auto simp: create_socket_value Let_def)

lemma create_server_value:
  fixes n :: net and port :: c_int
  defines "a \<equiv> \<lambda>i. net_answer n (length (net_calls n) + i)"
    and "addr \<equiv> any_addr (htons (ucast port))"
    and "p \<equiv> net_next n"
  shows "\<exists>m. network_create_server port nl n =
      Some (if a 0 \<noteq> 0 \<and> a 1 = 0 \<and> \<not> sint (a 2) < 0 \<and> \<not> sint (a 3) < 0 then Some p else None, m) \<and>
    net_calls m = net_calls n @ [Call_socket] @ (if a 0 = 0 then [] else Call_setsockopt (a 0) #
      (if a 1 \<noteq> 0 then [] else Call_bind (a 0) addr #
      (if sint (a 2) < 0 then [] else [Call_listen (a 0) nl]))) \<and>
    (if a 0 = 0 then net_socks m p = None else net_owned m p \<and>
      net_socks m p = Some \<lparr>sk_fd = a 0, sk_addr = (if a 1 = 0 then addr else any_addr 0)\<rparr>)"
proof (cases "a 0 = 0")
  case True
  thus ?thesis by (simp add: network_create_server_def create_socket_value a_def p_def Let_def)
next
  case False
  hence "net_answer n (length (net_calls n)) \<noteq> 0" by (simp add: a_def)
  then obtain m where m: "network_create_socket n = Some (Some p, m)"
    "net_socks m p = Some \<lparr>sk_fd = a 0, sk_addr = any_addr 0\<rparr>"
    "net_calls m = net_calls n @ [Call_socket]" "net_answer m = net_answer n" "net_owned m p"
    by (rule create_socket_some) (simp add: a_def p_def)
  let ?l = "length (net_calls n)"
  have l: "a 1 = net_answer n (Suc ?l)" "a 2 = net_answer n (Suc (Suc ?l))" "a 3 = net_answer n (Suc (Suc (Suc ?l)))"
    by (simp_all add: a_def numeral_3_eq_3)
  have addr: "addr = (any_addr 0)\<lparr>sin_port := htons (ucast port)\<rparr>" by (simp add: addr_def any_addr_def)
  show ?thesis
    using False m(2-5) unfolding network_create_server_def m(1) l addr
    by (cases "net_answer n (Suc ?l) = 0"; cases "sint (net_answer n (Suc (Suc ?l))) < 0";
        cases "sint (net_answer n (Suc (Suc (Suc ?l)))) < 0")
      (simp_all add: split_beta Let_def)
qed

text \<open>Both wiring up and finalizing close the servers; the second time changes nothing.\<close>

lemma comm_remote_close_servers_twice:
  "comm_remote_close_servers sv n = Some (sv', n') \<Longrightarrow> comm_remote_close_servers sv' n' = Some (sv', n')"
  by (auto simp: comm_remote_close_servers_def bind_eq_Some_conv split: option.splits)

section \<open>Properties\<close>

text \<open>
  \<open>network_create_server\<close> returns a socket exactly when \<open>socket\<close> does not answer 0 and
  the three other calls succeed; then it has made the four calls in order, on the new
  descriptor, and the socket is bound to the port in network byte order.
\<close>

theorem network_create_server_result:
  fixes n :: net and port n_listen :: c_int
  defines "a \<equiv> \<lambda>i. net_answer n (length (net_calls n) + i)"
    and "addr \<equiv> any_addr (htons (ucast port))"
  defines "ok \<equiv> a 0 \<noteq> 0 \<and> a 1 = 0 \<and> \<not> sint (a 2) < 0 \<and> \<not> sint (a 3) < 0"
  shows "\<exists>m. network_create_server port n_listen n = Some (if ok then Some (net_next n) else None, m) \<and>
    (if ok then net_socks m (net_next n) = Some \<lparr>sk_fd = a 0, sk_addr = addr\<rparr> \<and>
       net_calls m = net_calls n @
         [Call_socket, Call_setsockopt (a 0), Call_bind (a 0) addr, Call_listen (a 0) n_listen]
     else True)"
  using create_server_value [of port n_listen n] unfolding a_def addr_def ok_def by fastforce

text \<open>
  A server that cannot be set up leaves its socket behind: neither the object is freed
  nor the descriptor closed.
\<close>

theorem network_create_server_leaks:
  fixes n :: net
  defines "a \<equiv> \<lambda>i. net_answer n (length (net_calls n) + i)"
  assumes "a 0 \<noteq> 0" and "network_create_server port n_listen n = Some (None, m)"
  shows "net_owned m (net_next n) \<and> (\<exists>cs. net_calls m = net_calls n @ Call_socket # cs \<and>
    Call_close (a 0) \<notin> set cs)"
proof -
  obtain m' where "network_create_server port n_listen n = Some (
      if a 0 \<noteq> 0 \<and> a 1 = 0 \<and> \<not> sint (a 2) < 0 \<and> \<not> sint (a 3) < 0 then Some (net_next n) else None, m')"
    and v: "net_owned m' (net_next n)" "net_calls m' = net_calls n @ [Call_socket] @ Call_setsockopt (a 0) #
      (if a 1 \<noteq> 0 then [] else Call_bind (a 0) (any_addr (htons (ucast port))) #
      (if sint (a 2) < 0 then [] else [Call_listen (a 0) n_listen]))"
    using create_server_value [of port n_listen n] assms(2) unfolding a_def by auto
  hence "m' = m" using assms(3) by simp
  thus ?thesis using v by auto
qed

text \<open>
  The test of the descriptor in \<open>network_init_socket\<close> is against 0, so a failing
  \<open>socket\<close>, which answers -1, counts as a success, and the descriptor 0 as a failure.
\<close>

theorem network_init_socket_test:
  assumes "net_socks n p = Some s"
  shows "\<exists>m. network_init_socket p n = Some (if net_answer n (length (net_calls n)) = 0 then 0 else 1, m) \<and>
    map_option sk_fd (net_socks m p) = Some (net_answer n (length (net_calls n)))"
  by (simp add: init_socket_value [OF assms] Let_def)

text \<open>
  \<open>network_accept\<close> returns a new socket with the accepted descriptor and the address of
  the peer, or frees the object it made and returns NULL when \<open>accept\<close> fails.
\<close>

theorem network_accept_result:
  fixes n :: net
  defines "k \<equiv> length (net_calls n)"
  assumes "net_socks n server = Some sv" and "server \<noteq> net_next n"
  shows "\<exists>m. network_accept server n = Some (if net_answer n k = - 1 then None else Some (net_next n), m) \<and>
    net_calls m = net_calls n @ [Call_accept (sk_fd sv)] \<and>
    net_socks m = (net_socks n)(net_next n := (if net_answer n k = - 1 then None
      else Some \<lparr>sk_fd = net_answer n k, sk_addr = net_peer n k\<rparr>))"
  using assms(2,3)
  by (cases "net_answer n k = - 1") (simp_all add: network_accept_def network_accept_2_def k_def split_beta Let_def)

text \<open>
  \<open>network_accept_2\<close> frees the socket it was given when \<open>accept\<close> fails; for a socket that
  is not from \<open>malloc\<close>, as the one \<open>__comm_remote_wire_server\<close> has on its stack, that is
  undefined.
\<close>

theorem network_accept_2_frees_argument:
  assumes "net_socks n server = Some sv" and "net_socks n p = Some s" and "\<not> net_owned n p"
    and "net_answer n (length (net_calls n)) = - 1"
  shows "network_accept_2 server p n = None"
  using assms by (simp add: network_accept_2_def split_beta Let_def free_sock_def)

text \<open>
  \<open>network_set_blocking\<close> sets the flags the descriptor had, with \<open>O_NONBLOCK\<close> set or
  cleared and every other flag kept.
\<close>

theorem network_set_blocking_flags:
  fixes n :: net
  defines "k \<equiv> length (net_calls n)"
  assumes "net_socks n p = Some s"
  shows "\<exists>m fl. network_set_blocking p blocking n = Some (if net_answer n (Suc k) = 0 then 1 else 0, m) \<and>
    net_calls m = net_calls n @ [Call_getfl (sk_fd s), Call_setfl (sk_fd s) fl] \<and>
    (\<forall>i < 32. bit fl i = (if i = 11 then blocking = 0 else bit (net_answer n k) i))"
proof -
  have mask: "bit O_NONBLOCK i \<longleftrightarrow> i = 11" if "i < 32" for i
  proof -
    have "O_NONBLOCK = push_bit 11 1" by (simp add: O_NONBLOCK_def)
    hence "bit O_NONBLOCK i \<longleftrightarrow> bit (push_bit 11 1 :: c_int) i" by (rule arg_cong)
    also have "\<dots> \<longleftrightarrow> i = 11" using that by (simp only: bit_push_bit_iff bit_1_iff) auto
    finally show ?thesis .
  qed
  show ?thesis
    using assms(2) mask
    by (cases "blocking = 0") (auto simp: network_set_blocking_def k_def split_beta Let_def bit_simps)
qed

section \<open>Witnesses\<close>

text \<open>A system that answers the given numbers, then 0, and one socket on the stack.\<close>

definition demo_net :: "c_int list \<Rightarrow> net" where
  "demo_net as = \<lparr>net_answer = \<lambda>k. if k < length as then as ! k else 0, net_written = \<lambda>_. 0,
     net_peer = \<lambda>_. any_addr 0, net_read = \<lambda>_. None, net_calls = [],
     net_socks = [0 \<mapsto> \<lparr>sk_fd = 4, sk_addr = any_addr 0\<rparr>], net_owned = \<lambda>_. False,
     net_junk = \<lparr>sk_fd = 7, sk_addr = any_addr 1\<rparr>, net_next = 1\<rparr>"

theorem network_create_server_leaks_witness:
  "\<exists>m. network_create_server 36500 4 (demo_net [5, 0, -1]) = Some (None, m) \<and> net_owned m 1"
proof -
  obtain m where m: "network_create_server 36500 4 (demo_net [5, 0, -1]) = Some (None, m)"
    using create_server_value [of 36500 4 "demo_net [5, 0, -1]"] by (auto simp: demo_net_def)
  have "net_owned m (net_next (demo_net [5, 0, -1]))"
    using network_create_server_leaks [OF _ m] by (simp add: demo_net_def)
  thus ?thesis using m by (simp add: demo_net_def)
qed

theorem network_init_socket_test_witness:
  "\<exists>m. network_init_socket 0 (demo_net [-1]) = Some (1, m) \<and> map_option sk_fd (net_socks m 0) = Some (- 1)"
  using network_init_socket_test [of "demo_net [-1]" 0 "\<lparr>sk_fd = 4, sk_addr = any_addr 0\<rparr>"]
  by (simp add: demo_net_def)

theorem network_accept_result_witness:
  "\<exists>m. network_accept 0 (demo_net [9]) = Some (Some 1, m) \<and>
     net_socks m 1 = Some \<lparr>sk_fd = 9, sk_addr = any_addr 0\<rparr>"
  using network_accept_result [of "demo_net [9]" 0 "\<lparr>sk_fd = 4, sk_addr = any_addr 0\<rparr>"]
  by (auto simp: demo_net_def)

theorem network_accept_2_frees_argument_witness: "network_accept_2 0 0 (demo_net [-1]) = None"
  by (rule network_accept_2_frees_argument) (simp_all add: demo_net_def)

theorem network_set_blocking_flags_witness:
  "\<exists>m fl. network_set_blocking 0 0 (demo_net [2]) = Some (1, m) \<and> bit fl 11 \<and>
     net_calls m = [Call_getfl 4, Call_setfl 4 fl]"
  using network_set_blocking_flags [of "demo_net [2]" 0 "\<lparr>sk_fd = 4, sk_addr = any_addr 0\<rparr>" 0]
  by (auto simp: demo_net_def)

end
