(* ===== verification/Wire_Sockets.thy ===== *)
theory Wire_Sockets
  imports Wireup Network
begin

text \<open>
  Wiring up the sockets at one PE, as \<open>comm/comm_remote.c\<close> does it: the bodies of
  \<open>__comm_remote_wire_client\<close> and \<open>__comm_remote_wire_server\<close> with every call of
  \<open>network.c\<close> that they make, on the answers that the system gives, and what
  \<open>comm_remote_wireup\<close> does before and after the levels. \<open>Wireup\<close> has the plan that they
  follow, \<open>Handshake\<close> how all PEs wait for each other.

  The array of sockets is one object of \<open>malloc\<close>, its elements are at consecutive addresses
  of the store of \<open>Network\<close> and cannot be freed one by one; nor can the variable \<open>sock\<close> of
  the server. \<open>None\<close> is undefined behaviour, or a connection that is refused for ever.
\<close>

section \<open>Definitions\<close>

text \<open>The static variables for the sockets.\<close>

record wire_state =
  ws_my_pe :: c_int
  ws_n_pes :: c_int
  ws_n_remote_pes :: c_int
  ws_server_cmd :: "nat option"
  ws_server_data :: "nat option"
  ws_sockets_cmd :: nat
  ws_sockets_data :: nat

text \<open>\<open>PORT_BASE + 2*pe + k\<close>\<close>

definition port :: "nat \<Rightarrow> nat \<Rightarrow> c_int" where
  "port pe k = of_nat (PORT_BASE + 2 * pe + k)"

definition open_servers :: "wire_state \<Rightarrow> net \<Rightarrow> (wire_state \<times> net) option" where
  "open_servers w n = do {
     (c, n) \<leftarrow> network_create_server (port (unat (ws_my_pe w)) 0) (ws_n_pes w) n;
     (d, n) \<leftarrow> network_create_server (port (unat (ws_my_pe w)) 1) (ws_n_pes w) n;
     Some (w\<lparr>ws_server_cmd := c, ws_server_data := d\<rparr>, n)
   }"

text \<open>What \<open>comm_remote_init\<close> does with these variables.\<close>

definition wire_init :: "c_int \<Rightarrow> c_int \<Rightarrow> c_int \<Rightarrow> wire_state \<times> net \<Rightarrow> (wire_state \<times> net) option" where
  "wire_init my_pe n_pes n_remote_pes x = (let (w, n) = x in
     open_servers (w\<lparr>ws_my_pe := my_pe, ws_n_pes := n_pes, ws_n_remote_pes := n_remote_pes\<rparr>) n)"

text \<open>\<open>while (0 == (status = network_connect(...)))\<close>\<close>

partial_function (option) connect_until :: "nat \<Rightarrow> 32 word \<Rightarrow> c_int \<Rightarrow> net \<Rightarrow> (c_int \<times> net) option" where
  "connect_until p host pt n = do {
     (status, n) \<leftarrow> network_connect p host pt n;
     if status = 0 then connect_until p host pt n else Some (status, n)
   }"

declare connect_until.simps [code]

text \<open>\<open>&array[index]\<close>, for one of the two arrays of \<open>__n_remote_pes\<close> elements.\<close>

definition sock_elem :: "wire_state \<Rightarrow> nat \<Rightarrow> c_int \<Rightarrow> nat option" where
  "sock_elem w base i = (if 0 \<le> sint i \<and> sint i < sint (ws_n_remote_pes w) then Some (base + nat (sint i)) else None)"

text \<open>\<open>map->host->addr\<close>\<close>

definition host_addr :: "node_state \<Rightarrow> locality_map_t \<Rightarrow> 32 word option" where
  "host_addr nd mp = do {
     h \<leftarrow> (if lm_host mp < length (nd_nodes nd) then nd_nodes nd ! lm_host mp else None);
     Some (hm_addr h)
   }"

text \<open>The loop of \<open>__comm_remote_wire_client\<close>, for the values of \<open>pe\<close>.\<close>

fun client_loop :: "node_state \<Rightarrow> wire_state \<Rightarrow> nat list \<Rightarrow> net \<Rightarrow> net option" where
  "client_loop nd w [] n = Some n"
| "client_loop nd w (pe # pes) n = do {
     mp \<leftarrow> comm_node_map nd (of_nat pe);
     if lm_type mp = PE_TYPE_LOCAL then client_loop nd w pes n
     else do {
       sock_cmd \<leftarrow> sock_elem w (ws_sockets_cmd w) (lm_index mp);
       sock_data \<leftarrow> sock_elem w (ws_sockets_data w) (lm_index mp);
       (_, n) \<leftarrow> network_init_socket sock_cmd n;
       (_, n) \<leftarrow> network_init_socket sock_data n;
       addr \<leftarrow> host_addr nd mp;
       (status, n) \<leftarrow> connect_until sock_cmd addr (port pe 0) n;
       if status \<noteq> 1 then Some n
       else do {
         (_, _, n) \<leftarrow> network_receive sock_cmd 1 n;
         (_, n) \<leftarrow> network_send sock_cmd (bytes_of_nat 4 (unat (ws_my_pe w))) n;
         (_, n) \<leftarrow> network_connect sock_data addr (port pe 1) n;
         client_loop nd w pes n
       }
     }
   }"

definition comm_remote_wire_client :: "node_state \<Rightarrow> wire_state \<Rightarrow> nat \<Rightarrow> net \<Rightarrow> net option" where
  "comm_remote_wire_client nd w stride n =
     client_loop nd w (strided (if 2 < stride \<and> unat (ws_my_pe w) mod 2 = 1 then 1 else 0) (unat (ws_n_pes w)) stride) n"

text \<open>
  The loop of \<open>__comm_remote_wire_server\<close>, for the values of \<open>i\<close>; \<open>sock\<close> is the address of
  its variable of that name, \<open>pe\<close> the bytes of the other one. A number that is not read whole
  leaves the rest of these bytes as they are.
\<close>

fun server_loop :: "node_state \<Rightarrow> wire_state \<Rightarrow> nat \<Rightarrow> nat list \<Rightarrow> byte list \<Rightarrow> net \<Rightarrow> net option" where
  "server_loop nd w sock [] pe n = Some n"
| "server_loop nd w sock (i # is) pe n = do {
     mp \<leftarrow> comm_node_map nd (of_nat i);
     if lm_type mp = PE_TYPE_LOCAL then server_loop nd w sock is pe n
     else do {
       cmd \<leftarrow> ws_server_cmd w;
       (_, n) \<leftarrow> network_accept_2 cmd sock n;
       (_, n) \<leftarrow> network_send sock [0] n;
       (_, bs, n) \<leftarrow> network_receive sock 4 n;
       let pe = bs @ drop (length bs) pe;
       mp \<leftarrow> comm_node_map nd (of_nat (nat_of_bytes pe));
       sock_cmd \<leftarrow> sock_elem w (ws_sockets_cmd w) (lm_index mp);
       s \<leftarrow> net_socks n sock;
       let n = put_sock sock_cmd s n;
       data \<leftarrow> ws_server_data w;
       sock_data \<leftarrow> sock_elem w (ws_sockets_data w) (lm_index mp);
       (_, n) \<leftarrow> network_accept_2 data sock_data n;
       server_loop nd w sock is pe n
     }
   }"

text \<open>The variables of the call: \<open>sock\<close> and \<open>pe\<close> are not initialised, \<open>sock\<close> is gone at the end.\<close>

definition comm_remote_wire_server :: "node_state \<Rightarrow> wire_state \<Rightarrow> byte list \<Rightarrow> nat \<Rightarrow> net \<Rightarrow> net option" where
  "comm_remote_wire_server nd w junk stride n = do {
     let sock = net_next n;
     let n = put_sock sock (net_junk n) (n\<lparr>net_next := Suc sock\<rparr>);
     n \<leftarrow> server_loop nd w sock (strided (unat (ws_my_pe w) mod 2 + stride div 2) (unat (ws_n_pes w)) stride) junk n;
     Some (n\<lparr>net_socks := (net_socks n)(sock := None)\<rparr>)
   }"

text \<open>\<open>malloc(k * sizeof(socket_t))\<close>\<close>

definition malloc_socks :: "nat \<Rightarrow> net \<Rightarrow> nat \<times> net" where
  "malloc_socks k n = (net_next n, n\<lparr>net_next := net_next n + k,
     net_socks := (\<lambda>p. if net_next n \<le> p \<and> p < net_next n + k then Some (net_junk n) else net_socks n p)\<rparr>)"

text \<open>The levels, as in \<open>Wireup\<close>.\<close>

fun wireup_levels :: "node_state \<Rightarrow> wire_state \<Rightarrow> byte list \<Rightarrow> nat \<Rightarrow> nat \<Rightarrow> net \<Rightarrow> net option" where
  "wireup_levels nd w junk 0 level n = Some n"
| "wireup_levels nd w junk (Suc k) level n = (let my_pe = unat (ws_my_pe w) in
     if my_pe mod 2 = 0 \<and> my_pe mod (2 * 2 ^ level) = 0 then do {
       n \<leftarrow> comm_remote_wire_server nd w junk (2 * 2 ^ level) n;
       wireup_levels nd w junk k (Suc level) n
     } else if 0 < level \<and> my_pe mod 2 = 1 \<and> my_pe mod (2 * 2 ^ level) = 1 then do {
       n \<leftarrow> comm_remote_wire_server nd w junk (2 * 2 ^ level) n;
       wireup_levels nd w junk k (Suc level) n
     } else do {
       n \<leftarrow> comm_remote_wire_client nd w (2 * 2 ^ level) n;
       if 0 < level then Some n else wireup_levels nd w junk k (Suc level) n
     })"

fun unblock_sockets :: "wire_state \<Rightarrow> nat list \<Rightarrow> net \<Rightarrow> net option" where
  "unblock_sockets w [] n = Some n"
| "unblock_sockets w (i # is) n = do {
     (_, n) \<leftarrow> network_set_blocking (ws_sockets_cmd w + i) 0 n;
     (_, n) \<leftarrow> network_set_blocking (ws_sockets_data w + i) 0 n;
     unblock_sockets w is n
   }"

definition wireup_sockets :: "node_state \<Rightarrow> byte list \<Rightarrow> wire_state \<Rightarrow> net \<Rightarrow> (wire_state \<times> net) option" where
  "wireup_sockets nd junk w n = do {
     let (c, n) = malloc_socks (nat (sint (ws_n_remote_pes w))) n;
     let (d, n) = malloc_socks (nat (sint (ws_n_remote_pes w))) n;
     let w = w\<lparr>ws_sockets_cmd := c, ws_sockets_data := d\<rparr>;
     n \<leftarrow> wireup_levels nd w junk (ceil_log2 (unat (ws_n_pes w))) 0 n;
     (sv, n) \<leftarrow> comm_remote_close_servers (ws_server_cmd w, ws_server_data w) n;
     let w = w\<lparr>ws_server_cmd := fst sv, ws_server_data := snd sv\<rparr>;
     n \<leftarrow> unblock_sockets w [0 ..< nat (sint (ws_n_remote_pes w))] n;
     Some (w, n)
   }"

section \<open>What the calls of the network leave\<close>

text \<open>The answers, the objects that can be freed and the junk are the same, calls are added.\<close>

definition net_grows :: "net \<Rightarrow> net \<Rightarrow> bool" where
  "net_grows n m \<longleftrightarrow> net_answer m = net_answer n \<and> net_peer m = net_peer n \<and> net_read m = net_read n \<and>
     net_owned m = net_owned n \<and> net_junk m = net_junk n \<and> net_next m = net_next n \<and>
     (\<exists>cs. net_calls m = net_calls n @ cs) \<and> (\<forall>p. net_socks n p \<noteq> None \<longrightarrow> net_socks m p \<noteq> None)"

lemma net_grows_refl [simp]: "net_grows n n"
  by (simp add: net_grows_def)

lemma net_grows_trans [trans]: "net_grows n m \<Longrightarrow> net_grows m k \<Longrightarrow> net_grows n k"
  unfolding net_grows_def by (metis append_assoc)

lemma net_more [simp]:
  "net_peer (snd (os_call c n)) = net_peer n" "net_read (snd (os_call c n)) = net_read n"
  "net_junk (snd (os_call c n)) = net_junk n" "net_peer (put_sock p s n) = net_peer n"
  "net_read (put_sock p s n) = net_read n" "net_junk (put_sock p s n) = net_junk n"
  by (simp_all add: os_call_def put_sock_def)

lemma init_socket_ok:
  assumes "net_socks n p = Some s"
  obtains r m where "network_init_socket p n = Some (r, m)" "net_grows n m" "net_calls m = net_calls n @ [Call_socket]"
    "net_socks m = (net_socks n)(p \<mapsto> \<lparr>sk_fd = net_answer n (length (net_calls n)), sk_addr = any_addr 0\<rparr>)"
  using assms by (auto simp: init_socket_value [OF assms] Let_def net_grows_def)

text \<open>The address of a peer.\<close>

definition peer_addr :: "32 word \<Rightarrow> c_int \<Rightarrow> sockaddr_in" where
  "peer_addr host pt = \<lparr>sin_family = AF_INET, sin_port = htons (ucast pt), sin_addr = host\<rparr>"

lemma sin_family_peer_addr [simp]: "sin_family (peer_addr host pt) = AF_INET"
  by (simp add: peer_addr_def)

lemma connect_value:
  assumes "net_socks n p = Some s" and "sin_family (sk_addr s) = AF_INET"
  shows "network_connect p host pt n =
    Some (if net_answer n (length (net_calls n)) = - 1 then 0 else 1,
      snd (os_call (Call_connect (sk_fd s) (peer_addr host pt)) (put_sock p (s\<lparr>sk_addr := peer_addr host pt\<rparr>) n)))"
proof -
  have "(sk_addr s)\<lparr>sin_addr := host, sin_port := htons (ucast pt)\<rparr> = peer_addr host pt"
    using assms(2) by (cases "sk_addr s") (simp add: peer_addr_def)
  with assms(1) show ?thesis by (simp add: network_connect_def Let_def split_beta)
qed

lemma connect_ok:
  assumes "net_socks n p = Some s" and "sin_family (sk_addr s) = AF_INET"
  obtains m where
    "network_connect p host pt n = Some (if net_answer n (length (net_calls n)) = - 1 then 0 else 1, m)"
    "net_grows n m" "net_calls m = net_calls n @ [Call_connect (sk_fd s) (peer_addr host pt)]"
    "net_socks m = (net_socks n)(p \<mapsto> s\<lparr>sk_addr := peer_addr host pt\<rparr>)"
  by (rule that [OF connect_value [OF assms]]) (simp_all add: net_grows_def)

lemma receive_ok:
  assumes "net_socks n p = Some s"
  obtains r bs m where "network_receive p k n = Some (r, bs, m)" "net_grows n m"
    "net_calls m = net_calls n @ [Call_read (sk_fd s) k]" "net_socks m = net_socks n"
    "bs = (case net_read n (length (net_calls n)) of None \<Rightarrow> [] | Some xs \<Rightarrow> take (unat k) xs)"
proof -
  have "\<exists>r. network_receive p k n = Some (r, (case net_read n (length (net_calls n)) of None \<Rightarrow> []
      | Some xs \<Rightarrow> take (unat k) xs), snd (os_call (Call_read (sk_fd s) k) n))"
    using assms by (cases "net_read n (length (net_calls n))") (simp_all add: network_receive_def Let_def split_beta)
  then obtain r where r: "network_receive p k n = Some (r, (case net_read n (length (net_calls n)) of None \<Rightarrow> []
      | Some xs \<Rightarrow> take (unat k) xs), snd (os_call (Call_read (sk_fd s) k) n))" by blast
  show thesis by (rule that [OF r]) (simp_all add: net_grows_def)
qed

lemma send_ok:
  assumes "net_socks n p = Some s"
  obtains r m where "network_send p buf n = Some (r, m)" "net_grows n m"
    "net_calls m = net_calls n @ [Call_write (sk_fd s) buf]" "net_socks m = net_socks n"
proof -
  have "network_send p buf n = Some (net_written n (length (net_calls n)), snd (os_call (Call_write (sk_fd s) buf) n))"
    using assms by (simp add: network_send_def Let_def split_beta)
  thus thesis by (rule that) (simp_all add: net_grows_def)
qed

lemma accept_2_ok:
  assumes "net_socks n server = Some sv" and "net_socks n p = Some s"
    and "net_answer n (length (net_calls n)) \<noteq> - 1"
  obtains r m where "network_accept_2 server p n = Some (r, m)" "net_grows n m"
    "net_calls m = net_calls n @ [Call_accept (sk_fd sv)]"
    "net_socks m = (net_socks n)(p \<mapsto> \<lparr>sk_fd = net_answer n (length (net_calls n)), sk_addr = net_peer n (length (net_calls n))\<rparr>)"
proof -
  have "network_accept_2 server p n = Some (1, put_sock p
      \<lparr>sk_fd = net_answer n (length (net_calls n)), sk_addr = net_peer n (length (net_calls n))\<rparr> (snd (os_call (Call_accept (sk_fd sv)) n)))"
    using assms by (simp add: network_accept_2_def Let_def split_beta)
  thus thesis by (rule that) (simp_all add: net_grows_def)
qed

section \<open>The client\<close>

text \<open>A refused connection is tried again, with the same call, until it is accepted.\<close>

lemma connect_until_ok:
  assumes "net_socks n p = Some s" and "sin_family (sk_addr s) = AF_INET"
    and "\<And>i. i < k \<Longrightarrow> net_answer n (length (net_calls n) + i) = - 1"
    and "net_answer n (length (net_calls n) + k) \<noteq> - 1"
  shows "\<exists>m. connect_until p host pt n = Some (1, m) \<and> net_grows n m \<and>
    net_calls m = net_calls n @ replicate (Suc k) (Call_connect (sk_fd s) (peer_addr host pt)) \<and>
    net_socks m = (net_socks n)(p \<mapsto> s\<lparr>sk_addr := peer_addr host pt\<rparr>)"
  using assms
proof (induction k arbitrary: n s)
  case 0
  from connect_ok [OF 0(1,2), of host pt] 0(4) show ?case by (subst connect_until.simps) fastforce
next
  case (Suc k)
  obtain m where m: "network_connect p host pt n = Some (0, m)" "net_grows n m"
    "net_calls m = net_calls n @ [Call_connect (sk_fd s) (peer_addr host pt)]"
    "net_socks m = (net_socks n)(p \<mapsto> s\<lparr>sk_addr := peer_addr host pt\<rparr>)"
    using connect_ok [OF Suc.prems(1,2), of host pt] Suc.prems(3) [of 0] by auto
  have a: "net_answer m = net_answer n" using m(2) by (simp add: net_grows_def)
  have "net_answer m (length (net_calls m) + i) = - 1" if "i < k" for i
    using Suc.prems(3) [of "Suc i"] that by (simp add: a m(3))
  moreover have "net_answer m (length (net_calls m) + k) \<noteq> - 1" using Suc.prems(4) by (simp add: a m(3))
  ultimately obtain m' where m': "connect_until p host pt m = Some (1, m')" "net_grows m m'"
    "net_calls m' = net_calls m @ replicate (Suc k) (Call_connect (sk_fd s) (peer_addr host pt))"
    "net_socks m' = (net_socks n)(p \<mapsto> s\<lparr>sk_addr := peer_addr host pt\<rparr>)"
    using Suc.IH [of m "s\<lparr>sk_addr := peer_addr host pt\<rparr>"] m(4) by (auto simp: fun_eq_iff simp del: replicate_Suc)
  from m(1,3) m' net_grows_trans [OF m(2) m'(2)] show ?case by (subst connect_until.simps) simp
qed

text \<open>The system does not refuse for ever.\<close>

definition not_refused_forever :: "net \<Rightarrow> bool" where
  "not_refused_forever n \<longleftrightarrow> (\<forall>i. \<exists>j \<ge> i. net_answer n j \<noteq> - 1)"

text \<open>How often it refuses, from the call number \<open>l\<close> on.\<close>

definition refusals :: "net \<Rightarrow> nat \<Rightarrow> nat" where
  "refusals n l = (LEAST k. net_answer n (l + k) \<noteq> - 1)"

lemma refusals:
  assumes "not_refused_forever n"
  shows "i < refusals n l \<Longrightarrow> net_answer n (l + i) = - 1" and "net_answer n (l + refusals n l) \<noteq> - 1"
proof -
  obtain j where "l \<le> j" "net_answer n j \<noteq> - 1" using assms by (auto simp: not_refused_forever_def)
  hence ex: "\<exists>k. net_answer n (l + k) \<noteq> - 1" by (metis le_add_diff_inverse)
  show "net_answer n (l + refusals n l) \<noteq> - 1" unfolding refusals_def by (rule LeastI_ex [OF ex])
  show "i < refusals n l \<Longrightarrow> net_answer n (l + i) = - 1"
    unfolding refusals_def using not_less_Least [of i "\<lambda>k. net_answer n (l + k) \<noteq> - 1"] by blast
qed

text \<open>The arrays of sockets and the table of localities are as the initialization leaves them.\<close>

definition arrays_ok :: "wire_state \<Rightarrow> net \<Rightarrow> bool" where
  "arrays_ok w n \<longleftrightarrow> (\<forall>i < nat (sint (ws_n_remote_pes w)). net_socks n (ws_sockets_cmd w + i) \<noteq> None \<and>
     net_socks n (ws_sockets_data w + i) \<noteq> None) \<and>
     ws_sockets_cmd w + nat (sint (ws_n_remote_pes w)) \<le> ws_sockets_data w"

definition table_ok :: "node_state \<Rightarrow> wire_state \<Rightarrow> bool" where
  "table_ok nd w \<longleftrightarrow> (\<forall>pe < unat (ws_n_pes w). \<exists>mp. comm_node_map nd (of_nat pe) = Some mp \<and>
     (lm_type mp \<noteq> PE_TYPE_LOCAL \<longrightarrow>
       0 \<le> sint (lm_index mp) \<and> sint (lm_index mp) < sint (ws_n_remote_pes w) \<and> host_addr nd mp \<noteq> None))"

definition on_other_node :: "node_state \<Rightarrow> nat \<Rightarrow> bool" where
  "on_other_node nd pe \<longleftrightarrow> (case comm_node_map nd (of_nat pe) of None \<Rightarrow> False | Some mp \<Rightarrow> lm_type mp \<noteq> PE_TYPE_LOCAL)"

definition pe_addr :: "node_state \<Rightarrow> nat \<Rightarrow> 32 word" where
  "pe_addr nd pe = (case comm_node_map nd (of_nat pe) of None \<Rightarrow> 0
     | Some mp \<Rightarrow> (case host_addr nd mp of None \<Rightarrow> 0 | Some a \<Rightarrow> a))"

lemma arrays_ok_grows: "arrays_ok w n \<Longrightarrow> net_grows n m \<Longrightarrow> arrays_ok w m"
  unfolding arrays_ok_def net_grows_def by blast

lemma not_refused_grows: "not_refused_forever n \<Longrightarrow> net_grows n m \<Longrightarrow> not_refused_forever m"
  unfolding not_refused_forever_def net_grows_def by metis

lemma sock_elem_ok:
  assumes "arrays_ok w n" and "0 \<le> sint i" "sint i < sint (ws_n_remote_pes w)"
  obtains c d where "sock_elem w (ws_sockets_cmd w) i = Some c" "sock_elem w (ws_sockets_data w) i = Some d"
    "c \<noteq> d" "net_socks n c \<noteq> None" "net_socks n d \<noteq> None"
proof -
  have "nat (sint i) < nat (sint (ws_n_remote_pes w))" using assms(2,3) by simp
  with assms show thesis
    by (intro that [of "ws_sockets_cmd w + nat (sint i)" "ws_sockets_data w + nat (sint i)"])
      (auto simp: sock_elem_def arrays_ok_def)
qed

text \<open>
  The calls for the connections of a plan, from the call number \<open>l\<close> on. The two descriptors
  are the answers to the calls of \<open>socket\<close>, the connection to the command port is made once
  more than it is refused.
\<close>

fun client_calls :: "node_state \<Rightarrow> c_int \<Rightarrow> net \<Rightarrow> nat \<Rightarrow> wire_action list \<Rightarrow> net_call list" where
  "client_calls nd me n l [] = []"
| "client_calls nd me n l (Accept i # as) = client_calls nd me n l as"
| "client_calls nd me n l (Connect pe c d # as) =
     (let f = net_answer n l; g = net_answer n (l + 1); k = refusals n (l + 2) in
      [Call_socket, Call_socket] @ replicate (Suc k) (Call_connect f (peer_addr (pe_addr nd pe) (of_nat c))) @
      [Call_read f 1, Call_write f (bytes_of_nat 4 (unat me)), Call_connect g (peer_addr (pe_addr nd pe) (of_nat d))] @
      client_calls nd me n (l + k + 6) as)"

lemma client_calls_cong:
  "net_answer m = net_answer n \<Longrightarrow> client_calls nd me m l as = client_calls nd me n l as"
  by (induction nd me m l as rule: client_calls.induct) (simp_all add: refusals_def Let_def)

text \<open>One turn of the loop for a PE of another node.\<close>

lemma client_turn:
  assumes mp: "comm_node_map nd (of_nat pe) = Some mp" "lm_type mp \<noteq> PE_TYPE_LOCAL"
    and idx: "0 \<le> sint (lm_index mp)" "sint (lm_index mp) < sint (ws_n_remote_pes w)"
    and addr: "host_addr nd mp = Some addr"
    and ok: "arrays_ok w n" "not_refused_forever n"
  defines "l \<equiv> length (net_calls n)"
  defines "f \<equiv> net_answer n l" and "g \<equiv> net_answer n (l + 1)" and "k \<equiv> refusals n (l + 2)"
  shows "\<exists>m. client_loop nd w (pe # pes) n = client_loop nd w pes m \<and> net_grows n m \<and>
    net_calls m = net_calls n @ [Call_socket, Call_socket] @ replicate (Suc k) (Call_connect f (peer_addr addr (port pe 0))) @
      [Call_read f 1, Call_write f (bytes_of_nat 4 (unat (ws_my_pe w))), Call_connect g (peer_addr addr (port pe 1))]"
proof -
  obtain c d where e: "sock_elem w (ws_sockets_cmd w) (lm_index mp) = Some c"
    "sock_elem w (ws_sockets_data w) (lm_index mp) = Some d" "c \<noteq> d" "net_socks n c \<noteq> None" "net_socks n d \<noteq> None"
    by (rule sock_elem_ok [OF ok(1) idx])
  from e(4) obtain sc where sc: "net_socks n c = Some sc" by blast
  obtain r1 n1 where n1: "network_init_socket c n = Some (r1, n1)" "net_grows n n1" "net_calls n1 = net_calls n @ [Call_socket]"
    "net_socks n1 = (net_socks n)(c \<mapsto> \<lparr>sk_fd = net_answer n (length (net_calls n)), sk_addr = any_addr 0\<rparr>)"
    by (rule init_socket_ok [OF sc])
  from e(3,5) n1(4) obtain sd where sd: "net_socks n1 d = Some sd" by auto
  obtain r2 n2 where n2: "network_init_socket d n1 = Some (r2, n2)" "net_grows n1 n2" "net_calls n2 = net_calls n1 @ [Call_socket]"
    "net_socks n2 = (net_socks n1)(d \<mapsto> \<lparr>sk_fd = net_answer n1 (length (net_calls n1)), sk_addr = any_addr 0\<rparr>)"
    by (rule init_socket_ok [OF sd])
  have any: "sin_family (any_addr 0) = AF_INET" by (simp add: any_addr_def)
  have c2: "net_socks n2 c = Some \<lparr>sk_fd = f, sk_addr = any_addr 0\<rparr>" using e(3) n1(4) n2(4) by (simp add: f_def l_def)
  have g2: "net_grows n n2" using net_grows_trans [OF n1(2) n2(2)] .
  have a2: "net_answer n2 = net_answer n" "net_answer n1 = net_answer n" "length (net_calls n2) = l + 2"
    using g2 n1(2) by (simp_all add: net_grows_def l_def n1(3) n2(3))
  have k: "net_answer n2 (length (net_calls n2) + i) = - 1" if "i < k" for i
    using refusals(1) [OF ok(2)] that unfolding a2 k_def by blast
  have k': "net_answer n2 (length (net_calls n2) + k) \<noteq> - 1"
    using refusals(2) [OF ok(2)] unfolding a2 k_def by blast
  obtain n3 where n3: "connect_until c addr (port pe 0) n2 = Some (1, n3)" "net_grows n2 n3"
      "net_calls n3 = net_calls n2 @ replicate (Suc k) (Call_connect f (peer_addr addr (port pe 0)))"
      "net_socks n3 = (net_socks n2)(c \<mapsto> \<lparr>sk_fd = f, sk_addr = peer_addr addr (port pe 0)\<rparr>)"
    using connect_until_ok [OF c2 _ k k', of addr "port pe 0"] any by auto
  have c3: "net_socks n3 c = Some \<lparr>sk_fd = f, sk_addr = peer_addr addr (port pe 0)\<rparr>" using n3(4) by simp
  obtain r4 bs n4 where n4: "network_receive c 1 n3 = Some (r4, bs, n4)" "net_grows n3 n4"
      "net_calls n4 = net_calls n3 @ [Call_read f 1]" "net_socks n4 = net_socks n3"
    by (rule receive_ok [OF c3, of 1]) simp
  obtain r5 n5 where n5: "network_send c (bytes_of_nat 4 (unat (ws_my_pe w))) n4 = Some (r5, n5)" "net_grows n4 n5"
      "net_calls n5 = net_calls n4 @ [Call_write f (bytes_of_nat 4 (unat (ws_my_pe w)))]" "net_socks n5 = net_socks n4"
    by (rule send_ok [OF c3 [folded n4(4)], of "bytes_of_nat 4 (unat (ws_my_pe w))"]) simp
  have d5: "net_socks n5 d = Some \<lparr>sk_fd = g, sk_addr = any_addr 0\<rparr>"
    using e(3) n2(4) n3(4) n4(4) n5(4) by (simp add: g_def l_def a2(2) n1(3))
  obtain r6 n6 where n6: "network_connect d addr (port pe 1) n5 = Some (r6, n6)" "net_grows n5 n6"
      "net_calls n6 = net_calls n5 @ [Call_connect g (peer_addr addr (port pe 1))]"
    using connect_ok [OF d5, of addr "port pe 1"] any by (metis socket_t.select_convs)
  have "client_loop nd w (pe # pes) n = client_loop nd w pes n6"
    using mp e n1(1) n2(1) n3(1) n4(1) n5(1) n6(1) addr by simp
  moreover have "net_grows n n6" using g2 n3(2) n4(2) n5(2) n6(2) by (meson net_grows_trans)
  moreover have "net_calls n6 = net_calls n @ [Call_socket, Call_socket] @
      replicate (Suc k) (Call_connect f (peer_addr addr (port pe 0))) @
      [Call_read f 1, Call_write f (bytes_of_nat 4 (unat (ws_my_pe w))), Call_connect g (peer_addr addr (port pe 1))]"
    by (simp add: n1(3) n2(3) n3(3) n4(3) n5(3) n6(3))
  ultimately show ?thesis by blast
qed

lemma client_loop_calls:
  assumes tab: "table_ok nd w" and pes: "\<And>pe. pe \<in> set pes \<Longrightarrow> pe < unat (ws_n_pes w)"
    and ok: "arrays_ok w n" "not_refused_forever n"
  shows "\<exists>m. client_loop nd w pes n = Some m \<and> net_grows n m \<and>
    net_calls m = net_calls n @ client_calls nd (ws_my_pe w) n (length (net_calls n))
      (map (\<lambda>pe. Connect pe (PORT_BASE + 2 * pe) (PORT_BASE + 2 * pe + 1)) (filter (on_other_node nd) pes))"
  using pes ok
proof (induction pes arbitrary: n)
  case (Cons pe pes)
  let ?plan = "\<lambda>pes. map (\<lambda>pe. Connect pe (PORT_BASE + 2 * pe) (PORT_BASE + 2 * pe + 1)) (filter (on_other_node nd) pes)"
  obtain mp where mp: "comm_node_map nd (of_nat pe) = Some mp"
    and rem: "lm_type mp \<noteq> PE_TYPE_LOCAL \<Longrightarrow> 0 \<le> sint (lm_index mp) \<and> sint (lm_index mp) < sint (ws_n_remote_pes w) \<and>
      host_addr nd mp \<noteq> None"
    using tab Cons.prems(1) [of pe] unfolding table_ok_def by (metis list.set_intros(1))
  show ?case
  proof (cases "lm_type mp = PE_TYPE_LOCAL")
    case True
    with mp Cons show ?thesis by (simp add: on_other_node_def)
  next
    case False
    then obtain a where a: "host_addr nd mp = Some a" using rem by blast
    let ?l = "length (net_calls n)"
    let ?f = "net_answer n ?l" and ?g = "net_answer n (?l + 1)" and ?k = "refusals n (?l + 2)"
    obtain n1 where n1: "client_loop nd w (pe # pes) n = client_loop nd w pes n1" "net_grows n n1"
      "net_calls n1 = net_calls n @ [Call_socket, Call_socket] @ replicate (Suc ?k) (Call_connect ?f (peer_addr a (port pe 0))) @
        [Call_read ?f 1, Call_write ?f (bytes_of_nat 4 (unat (ws_my_pe w))), Call_connect ?g (peer_addr a (port pe 1))]"
      using client_turn [OF mp False _ _ a Cons.prems(2,3), of pes] rem [OF False] by blast
    obtain m where m: "client_loop nd w pes n1 = Some m" "net_grows n1 m"
      "net_calls m = net_calls n1 @ client_calls nd (ws_my_pe w) n1 (length (net_calls n1)) (?plan pes)"
      using Cons.IH [of n1] Cons.prems(1) arrays_ok_grows [OF Cons.prems(2) n1(2)]
        not_refused_grows [OF Cons.prems(3) n1(2)] by auto
    have same_answers: "net_answer n1 = net_answer n" using n1(2) by (simp add: net_grows_def)
    have len: "length (net_calls n1) = ?l + ?k + 6" by (simp add: n1(3))
    have same: "client_calls nd (ws_my_pe w) n1 (length (net_calls n1)) (?plan pes) =
        client_calls nd (ws_my_pe w) n (?l + ?k + 6) (?plan pes)"
      unfolding len by (rule client_calls_cong [OF same_answers])
    have "on_other_node nd pe" "pe_addr nd pe = a" using mp False a by (simp_all add: on_other_node_def pe_addr_def)
    hence "net_calls m = net_calls n @ client_calls nd (ws_my_pe w) n ?l (?plan (pe # pes))"
      unfolding m(3) same by (simp add: n1(3) Let_def port_def)
    with n1(1) m(1) net_grows_trans [OF n1(2) m(2)] show ?thesis by auto
  qed
qed simp

section \<open>The server\<close>

definition in_arrays :: "wire_state \<Rightarrow> nat \<Rightarrow> bool" where
  "in_arrays w p \<longleftrightarrow> (\<exists>i < nat (sint (ws_n_remote_pes w)). p = ws_sockets_cmd w + i \<or> p = ws_sockets_data w + i)"

text \<open>The two servers listen on \<open>fc\<close> and \<open>fd\<close>, and they and \<open>sock\<close> are objects of their own.\<close>

definition listening :: "wire_state \<Rightarrow> nat \<Rightarrow> c_int \<Rightarrow> c_int \<Rightarrow> net \<Rightarrow> bool" where
  "listening w sock fc fd n \<longleftrightarrow> net_socks n sock \<noteq> None \<and> \<not> in_arrays w sock \<and>
     (\<exists>c. ws_server_cmd w = Some c \<and> c \<noteq> sock \<and> \<not> in_arrays w c \<and> map_option sk_fd (net_socks n c) = Some fc) \<and>
     (\<exists>d. ws_server_data w = Some d \<and> d \<noteq> sock \<and> \<not> in_arrays w d \<and> map_option sk_fd (net_socks n d) = Some fd)"

definition pe_index :: "node_state \<Rightarrow> nat \<Rightarrow> nat" where
  "pe_index nd pe = nat (sint (lm_index (the (comm_node_map nd (of_nat pe)))))"

text \<open>From its call number \<open>l\<close> on the system accepts a client that sends the number \<open>x\<close>.\<close>

definition greets :: "node_state \<Rightarrow> wire_state \<Rightarrow> net \<Rightarrow> nat \<Rightarrow> nat \<Rightarrow> bool" where
  "greets nd w n l x \<longleftrightarrow> net_answer n l \<noteq> - 1 \<and> net_answer n (l + 3) \<noteq> - 1 \<and>
     net_read n (l + 2) = Some (bytes_of_nat 4 x) \<and> x < unat (ws_n_pes w) \<and> on_other_node nd x"

definition server_calls :: "c_int \<Rightarrow> c_int \<Rightarrow> c_int \<Rightarrow> net_call list" where
  "server_calls fc fd f = [Call_accept fc, Call_write f [0], Call_read f 4, Call_accept fd]"

lemma length_server_calls [simp]: "length (server_calls fc fd f) = 4"
  by (simp add: server_calls_def)

definition accepted :: "net \<Rightarrow> nat \<Rightarrow> socket_t" where
  "accepted n l = \<lparr>sk_fd = net_answer n l, sk_addr = net_peer n l\<rparr>"

lemma on_other_nodeD:
  assumes "table_ok nd w" and "on_other_node nd x" "x < unat (ws_n_pes w)"
  obtains mp where "comm_node_map nd (of_nat x) = Some mp" "lm_type mp \<noteq> PE_TYPE_LOCAL" "0 \<le> sint (lm_index mp)"
    "sint (lm_index mp) < sint (ws_n_remote_pes w)" "pe_index nd x = nat (sint (lm_index mp))"
    "pe_index nd x < nat (sint (ws_n_remote_pes w))"
proof -
  obtain mp where mp: "comm_node_map nd (of_nat x) = Some mp" "lm_type mp \<noteq> PE_TYPE_LOCAL"
    using assms(2) by (auto simp: on_other_node_def split: option.splits)
  from assms(1,3) have "0 \<le> sint (lm_index mp) \<and> sint (lm_index mp) < sint (ws_n_remote_pes w)"
    unfolding table_ok_def using mp by fastforce
  with mp show thesis by (intro that [of mp]) (simp_all add: pe_index_def)
qed

lemma server_turn:
  assumes tab: "table_ok nd w" and i: "comm_node_map nd (of_nat i) = Some mp" "lm_type mp \<noteq> PE_TYPE_LOCAL"
    and ok: "arrays_ok w n" "listening w sock fc fd n" and x: "greets nd w n l x" and l: "l = length (net_calls n)"
    and ix: "ix = pe_index nd x" and pe: "length pe = 4"
  shows "\<exists>m. server_loop nd w sock (i # is) pe n = server_loop nd w sock is (bytes_of_nat 4 x) m \<and> net_grows n m \<and>
    net_calls m = net_calls n @ server_calls fc fd (net_answer n l) \<and>
    net_socks m = (net_socks n)(sock \<mapsto> accepted n l, ws_sockets_cmd w + ix \<mapsto> accepted n l, ws_sockets_data w + ix \<mapsto> accepted n (l + 3))"
proof -
  have xn: "x < unat (ws_n_pes w)" "on_other_node nd x" using x by (simp_all add: greets_def)
  obtain mx where mx: "comm_node_map nd (of_nat x) = Some mx" "lm_type mx \<noteq> PE_TYPE_LOCAL" "0 \<le> sint (lm_index mx)"
      "sint (lm_index mx) < sint (ws_n_remote_pes w)" "ix = nat (sint (lm_index mx))" "ix < nat (sint (ws_n_remote_pes w))"
    unfolding ix by (rule on_other_nodeD [OF tab xn(2,1)])
  obtain c sc d sd s0 where c: "ws_server_cmd w = Some c" "c \<noteq> sock" "\<not> in_arrays w c" "net_socks n c = Some sc" "sk_fd sc = fc"
    and d: "ws_server_data w = Some d" "d \<noteq> sock" "\<not> in_arrays w d" "net_socks n d = Some sd" "sk_fd sd = fd"
    and s0: "net_socks n sock = Some s0" "\<not> in_arrays w sock"
    using ok(2) by (auto simp: listening_def)
  let ?c = "ws_sockets_cmd w + ix" and ?d = "ws_sockets_data w + ix"
  have arr: "in_arrays w ?c" "in_arrays w ?d" using mx(6) by (auto simp: in_arrays_def)
  have ne: "?c \<noteq> d" "?d \<noteq> d" "?d \<noteq> sock" "?c \<noteq> sock" using arr d(3) s0(2) by auto
  have e: "sock_elem w (ws_sockets_cmd w) (lm_index mx) = Some ?c" "sock_elem w (ws_sockets_data w) (lm_index mx) = Some ?d"
    using mx(3-5) by (simp_all add: sock_elem_def)
  have there: "net_socks n ?d \<noteq> None" using ok(1) mx(6) by (simp add: arrays_ok_def)
  have "net_answer n (length (net_calls n)) \<noteq> - 1" using x l by (simp add: greets_def)
  then obtain r1 n1 where n1: "network_accept_2 c sock n = Some (r1, n1)" "net_grows n n1"
    "net_calls n1 = net_calls n @ [Call_accept fc]" "net_socks n1 = (net_socks n)(sock \<mapsto> accepted n l)"
    by (rule accept_2_ok [OF c(4) s0(1)]) (simp add: c(5) l accepted_def)
  have s1: "net_socks n1 sock = Some (accepted n l)" using n1(4) by simp
  have f: "sk_fd (accepted n l) = net_answer n l" by (simp add: accepted_def)
  obtain r2 n2 where n2: "network_send sock [0] n1 = Some (r2, n2)" "net_grows n1 n2"
    "net_calls n2 = net_calls n1 @ [Call_write (net_answer n l) [0]]" "net_socks n2 = net_socks n1"
    by (rule send_ok [OF s1, of "[0]"]) (simp add: f)
  have g2: "net_grows n n2" using net_grows_trans [OF n1(2) n2(2)] .
  have rd: "net_read n2 (length (net_calls n2)) = Some (bytes_of_nat 4 x)"
    using x g2 n1(3) n2(3) l by (simp add: greets_def net_grows_def)
  obtain r3 bs n3 where n3: "network_receive sock 4 n2 = Some (r3, bs, n3)" "net_grows n2 n3"
    "net_calls n3 = net_calls n2 @ [Call_read (net_answer n l) 4]" "net_socks n3 = net_socks n1" "bs = bytes_of_nat 4 x"
    by (rule receive_ok [OF s1 [folded n2(4)], of 4]) (simp add: f n2(4) rd)
  have g3: "net_grows n n3" using net_grows_trans [OF g2 n3(2)] .
  have "x < 256 ^ 4" using xn(1) unsigned_less [of "ws_n_pes w", where 'a = nat] by simp
  hence pe': "bs @ drop (length bs) pe = bytes_of_nat 4 x" "nat_of_bytes (bytes_of_nat 4 x) = x"
    using n3(5) pe by (simp_all add: nat_of_bytes_of_nat)
  define n4 where "n4 = put_sock ?c (accepted n l) n3"
  have n4: "net_calls n4 = net_calls n3" "net_socks n4 = (net_socks n1)(?c \<mapsto> accepted n l)" "net_grows n3 n4"
    using n3(4) by (auto simp: n4_def net_grows_def)
  have g4: "net_grows n n4" using net_grows_trans [OF g3 n4(3)] .
  have l4: "length (net_calls n4) = l + 3" using n1(3) n2(3) n3(3) n4(1) l by simp
  have d4: "net_socks n4 d = Some sd" "net_socks n4 ?d \<noteq> None" using d(2,4) ne there n1(4) n4(2) by auto
  have "net_answer n4 (length (net_calls n4)) \<noteq> - 1" using x g4 l4 by (simp add: greets_def net_grows_def)
  moreover obtain s5 where "net_socks n4 ?d = Some s5" using d4(2) by blast
  moreover have "\<lparr>sk_fd = net_answer n4 (length (net_calls n4)), sk_addr = net_peer n4 (length (net_calls n4))\<rparr> = accepted n (l + 3)"
    using g4 l4 by (simp add: accepted_def net_grows_def)
  ultimately obtain r5 n5 where n5: "network_accept_2 d ?d n4 = Some (r5, n5)" "net_grows n4 n5"
    "net_calls n5 = net_calls n4 @ [Call_accept fd]" "net_socks n5 = (net_socks n4)(?d \<mapsto> accepted n (l + 3))"
    using d4(1) d(5) by (metis accept_2_ok)
  have "net_socks n3 sock = Some (accepted n l)" using s1 n3(4) by simp
  hence "server_loop nd w sock (i # is) pe n = server_loop nd w sock is (bytes_of_nat 4 x) n5"
    using i c(1) d(1) n1(1) n2(1) n3(1) n5(1) e mx(1) pe' by (simp add: n4_def Let_def)
  moreover have "net_calls n5 = net_calls n @ server_calls fc fd (net_answer n l)"
    by (simp add: server_calls_def n1(3) n2(3) n3(3) n4(1) n5(3))
  moreover have "net_socks n5 = (net_socks n)(sock \<mapsto> accepted n l, ?c \<mapsto> accepted n l, ?d \<mapsto> accepted n (l + 3))"
    by (simp add: n1(4) n4(2) n5(4))
  ultimately show ?thesis using net_grows_trans [OF g4 n5(2)] by blast
qed

lemma listening_updates:
  assumes "listening w sock fc fd n" and "net_socks m = (net_socks n)(sock \<mapsto> a, p \<mapsto> b, q \<mapsto> c)" "in_arrays w p" "in_arrays w q"
  shows "listening w sock fc fd m"
  using assms unfolding listening_def by (auto simp: fun_upd_other)

text \<open>The loop: four calls for each PE of another node, and where the sockets are stored.\<close>

definition sockets_of :: "node_state \<Rightarrow> wire_state \<Rightarrow> nat \<Rightarrow> socket_t \<Rightarrow> socket_t \<Rightarrow> net \<Rightarrow> bool" where
  "sockets_of nd w x c d m \<longleftrightarrow> net_socks m (ws_sockets_cmd w + pe_index nd x) = Some c \<and>
     net_socks m (ws_sockets_data w + pe_index nd x) = Some d"

lemma server_loop_calls:
  assumes tab: "table_ok nd w"
    and "\<And>i. i \<in> set is \<Longrightarrow> i < unat (ws_n_pes w)" and "arrays_ok w n" "listening w sock fc fd n" "length pe = 4"
    and "length xs = length (filter (on_other_node nd) is)" "distinct (map (pe_index nd) xs)"
    and "\<And>j. j < length xs \<Longrightarrow> greets nd w n (length (net_calls n) + 4 * j) (xs ! j)"
  shows "\<exists>m. server_loop nd w sock is pe n = Some m \<and> net_grows n m \<and>
    net_calls m = net_calls n @ concat (map (\<lambda>j. server_calls fc fd (net_answer n (length (net_calls n) + 4 * j))) [0 ..< length xs]) \<and>
    (\<forall>j < length xs. sockets_of nd w (xs ! j) (accepted n (length (net_calls n) + 4 * j))
       (accepted n (length (net_calls n) + 4 * j + 3)) m) \<and>
    (\<forall>p. p \<noteq> sock \<and> (\<forall>x \<in> set xs. p \<noteq> ws_sockets_cmd w + pe_index nd x \<and> p \<noteq> ws_sockets_data w + pe_index nd x) \<longrightarrow>
       net_socks m p = net_socks n p)"
  using assms(2-)
proof (induction "is" arbitrary: n xs pe)
  case (Cons i "is")
  let ?l = "length (net_calls n)"
  have "i < unat (ws_n_pes w)" using Cons.prems(1) by simp
  then obtain mp where mp: "comm_node_map nd (of_nat i) = Some mp" using tab by (auto simp: table_ok_def)
  show ?case
  proof (cases "lm_type mp = PE_TYPE_LOCAL")
    case True
    hence "\<not> on_other_node nd i" using mp by (simp add: on_other_node_def)
    with True mp Cons.IH [of n pe xs] Cons.prems show ?thesis by simp
  next
    case False
    hence "on_other_node nd i" using mp by (simp add: on_other_node_def)
    then obtain x ys where xs: "xs = x # ys" "length ys = length (filter (on_other_node nd) is)"
      using Cons.prems(5) by (cases xs) auto
    have gr: "greets nd w n ?l x" using Cons.prems(7) [of 0] xs by simp
    obtain n1 where n1: "server_loop nd w sock (i # is) pe n = server_loop nd w sock is (bytes_of_nat 4 x) n1" "net_grows n n1"
      "net_calls n1 = net_calls n @ server_calls fc fd (net_answer n ?l)"
      "net_socks n1 = (net_socks n)(sock \<mapsto> accepted n ?l, ws_sockets_cmd w + pe_index nd x \<mapsto> accepted n ?l,
         ws_sockets_data w + pe_index nd x \<mapsto> accepted n (?l + 3))"
      using server_turn [OF tab mp False Cons.prems(2,3) gr refl refl Cons.prems(4)] by blast
    have l1: "length (net_calls n1) = ?l + 4" using n1(3) by (simp add: server_calls_def)
    have same: "net_answer n1 = net_answer n" "net_peer n1 = net_peer n" "net_read n1 = net_read n"
      using n1(2) by (simp_all add: net_grows_def)
    obtain mx where mx: "pe_index nd x < nat (sint (ws_n_remote_pes w))"
      using gr tab by (auto simp: greets_def elim: on_other_nodeD)
    hence arr: "in_arrays w (ws_sockets_cmd w + pe_index nd x)" "in_arrays w (ws_sockets_data w + pe_index nd x)"
      by (auto simp: in_arrays_def)
    have idx: "pe_index nd y < nat (sint (ws_n_remote_pes w))" if "y \<in> set ys" for y
    proof -
      from that obtain j where "j < length ys" "ys ! j = y" unfolding in_set_conv_nth by blast
      hence "greets nd w n (?l + 4 * Suc j) y" using Cons.prems(7) [of "Suc j"] xs by simp
      thus ?thesis using tab by (auto simp: greets_def elim: on_other_nodeD)
    qed
    have gr1: "greets nd w n1 (length (net_calls n1) + 4 * j) (ys ! j)" if "j < length ys" for j
      using Cons.prems(7) [of "Suc j"] that xs by (simp add: l1 greets_def same add.commute add.left_commute)
    obtain m where m: "server_loop nd w sock is (bytes_of_nat 4 x) n1 = Some m" "net_grows n1 m"
      "net_calls m = net_calls n1 @ concat (map (\<lambda>j. server_calls fc fd (net_answer n1 (length (net_calls n1) + 4 * j))) [0 ..< length ys])"
      "\<forall>j < length ys. sockets_of nd w (ys ! j) (accepted n1 (length (net_calls n1) + 4 * j))
         (accepted n1 (length (net_calls n1) + 4 * j + 3)) m"
      "\<forall>p. p \<noteq> sock \<and> (\<forall>y \<in> set ys. p \<noteq> ws_sockets_cmd w + pe_index nd y \<and> p \<noteq> ws_sockets_data w + pe_index nd y) \<longrightarrow>
         net_socks m p = net_socks n1 p"
      using Cons.IH [of n1 "bytes_of_nat 4 x" ys, OF _ arrays_ok_grows [OF Cons.prems(2) n1(2)]
          listening_updates [OF Cons.prems(3) n1(4) arr] _ xs(2) _ gr1] Cons.prems(1,6) xs by auto
    have dist: "pe_index nd y \<noteq> pe_index nd x" if "y \<in> set ys" for y
      using Cons.prems(6) imageI [OF that, of "pe_index nd"] unfolding xs(1) by fastforce
    have gap: "ws_sockets_cmd w + i \<noteq> ws_sockets_data w + j" if "i < nat (sint (ws_n_remote_pes w))" for i j
      using Cons.prems(2) that unfolding arrays_ok_def by linarith
    have sock: "ws_sockets_cmd w + pe_index nd x \<noteq> sock" "ws_sockets_data w + pe_index nd x \<noteq> sock"
      using Cons.prems(3) arr by (auto simp: listening_def)
    have frame: "net_socks m p = net_socks n1 p"
      if p: "p = ws_sockets_cmd w + pe_index nd x \<or> p = ws_sockets_data w + pe_index nd x" for p
    proof -
      have "p \<noteq> ws_sockets_cmd w + pe_index nd y \<and> p \<noteq> ws_sockets_data w + pe_index nd y" if y: "y \<in> set ys" for y
        using p dist [OF y] gap [OF idx [OF y], of "pe_index nd x"] gap [OF mx, of "pe_index nd y"] by auto
      moreover have "p \<noteq> sock" using p sock by auto
      ultimately show ?thesis using m(5) by blast
    qed
    have first: "sockets_of nd w x (accepted n ?l) (accepted n (?l + 3)) m"
      using frame n1(4) gap [OF mx, of "pe_index nd x"] by (simp add: sockets_of_def)
    have rest: "sockets_of nd w (ys ! j) (accepted n (?l + 4 * Suc j)) (accepted n (?l + 4 * Suc j + 3)) m" if "j < length ys" for j
      using m(4) that by (simp add: l1 accepted_def same add.commute add.left_commute)
    have all: "\<forall>j < length xs. sockets_of nd w (xs ! j) (accepted n (?l + 4 * j)) (accepted n (?l + 4 * j + 3)) m"
    proof (intro allI impI)
      fix j assume "j < length xs"
      thus "sockets_of nd w (xs ! j) (accepted n (?l + 4 * j)) (accepted n (?l + 4 * j + 3)) m"
        using first rest xs(1) by (cases j) simp_all
    qed
    have up: "[0 ..< length xs] = 0 # map Suc [0 ..< length ys]" by (simp add: xs(1) upt_conv_Cons map_Suc_upt del: upt_Suc)
    have calls: "net_calls m = net_calls n @ concat (map (\<lambda>j. server_calls fc fd (net_answer n (?l + 4 * j))) [0 ..< length xs])"
      unfolding up m(3) by (simp add: n1(3) l1 same o_def add.commute add.left_commute)
    have other: "\<forall>p. p \<noteq> sock \<and> (\<forall>y \<in> set xs. p \<noteq> ws_sockets_cmd w + pe_index nd y \<and> p \<noteq> ws_sockets_data w + pe_index nd y) \<longrightarrow>
       net_socks m p = net_socks n p"
      using m(5) n1(4) xs(1) by simp
    have run: "server_loop nd w sock (i # is) pe n = Some m" using n1(1) m(1) by simp
    show ?thesis
      by (rule exI [of _ m], intro conjI) (rule run net_grows_trans [OF n1(2) m(2)] calls all other)+
  qed
qed simp

section \<open>The last calls\<close>

lemma unblock_sockets_calls:
  assumes "\<And>i. i \<in> set is \<Longrightarrow> i < nat (sint (ws_n_remote_pes w))"
  shows "arrays_ok w n \<Longrightarrow> \<exists>m cs. unblock_sockets w is n = Some m \<and> net_socks m = net_socks n \<and> net_calls m = net_calls n @ cs \<and>
    (\<forall>i \<in> set is. \<forall>p \<in> {ws_sockets_cmd w + i, ws_sockets_data w + i}. \<exists>s fl. net_socks n p = Some s \<and>
       bit fl 11 \<and> Call_setfl (sk_fd s) fl \<in> set cs)"
  using assms
proof (induction "is" arbitrary: n)
  case (Cons i "is")
  obtain s d where s: "net_socks n (ws_sockets_cmd w + i) = Some s" "net_socks n (ws_sockets_data w + i) = Some d"
    using Cons.prems(1) Cons.prems(2) [of i] unfolding arrays_ok_def by (metis list.set_intros(1) not_None_eq)
  obtain n1 fl where n1: "network_set_blocking (ws_sockets_cmd w + i) 0 n = Some n1" "net_socks (snd n1) = net_socks n"
      "net_calls (snd n1) = net_calls n @ [Call_getfl (sk_fd s), Call_setfl (sk_fd s) fl]" "bit fl 11"
    using network_set_blocking_flags [OF s(1), of 0] by (force simp: network_set_blocking_def s(1) Let_def split_beta)
  obtain n2 gl where n2: "network_set_blocking (ws_sockets_data w + i) 0 (snd n1) = Some n2" "net_socks (snd n2) = net_socks n"
      "net_calls (snd n2) = net_calls (snd n1) @ [Call_getfl (sk_fd d), Call_setfl (sk_fd d) gl]" "bit gl 11"
    using network_set_blocking_flags [of "snd n1" "ws_sockets_data w + i" d 0] s(2) n1(2)
    by (force simp: network_set_blocking_def Let_def split_beta)
  have "arrays_ok w (snd n2)" using Cons.prems(1) n2(2) by (simp add: arrays_ok_def)
  from Cons.IH [OF this] Cons.prems(2) obtain m cs where m: "unblock_sockets w is (snd n2) = Some m" "net_socks m = net_socks n"
    "net_calls m = net_calls (snd n2) @ cs"
    "\<forall>i \<in> set is. \<forall>p \<in> {ws_sockets_cmd w + i, ws_sockets_data w + i}. \<exists>s fl. net_socks n p = Some s \<and>
       bit fl 11 \<and> Call_setfl (sk_fd s) fl \<in> set cs"
    using n2(2) by auto
  show ?case
    using m s n1 n2 by (intro exI [of _ m] exI [of _ "[Call_getfl (sk_fd s), Call_setfl (sk_fd s) fl, Call_getfl (sk_fd d),
      Call_setfl (sk_fd d) gl] @ cs"]) (auto simp: split_beta)
qed simp

lemma wire_init_remote: "wire_init me n k (w, net) = Some (w', net') \<Longrightarrow> ws_n_remote_pes w' = k"
  by (auto simp: wire_init_def open_servers_def bind_eq_Some_conv)

text \<open>
  What is true whenever \<open>comm_remote_wireup\<close> returns: the servers are closed, and there are two
  sockets for every remote PE, both of them non-blocking.
\<close>

definition sockets_ready :: "wire_state \<Rightarrow> net \<Rightarrow> bool" where
  "sockets_ready w n \<longleftrightarrow> ws_server_cmd w = None \<and>
     (\<forall>i < nat (sint (ws_n_remote_pes w)). \<forall>p \<in> {ws_sockets_cmd w + i, ws_sockets_data w + i}.
       \<exists>s fl. net_socks n p = Some s \<and> bit fl 11 \<and> Call_setfl (sk_fd s) fl \<in> set (net_calls n))"

lemma set_blocking_returns:
  assumes "network_set_blocking p 0 n = Some (r, m)"
  obtains s fl where "net_socks n p = Some s" "net_socks m = net_socks n" "bit fl 11"
    "net_calls m = net_calls n @ [Call_getfl (sk_fd s), Call_setfl (sk_fd s) fl]"
proof -
  obtain s where s: "net_socks n p = Some s"
    using assms by (auto simp: network_set_blocking_def bind_eq_Some_conv)
  from network_set_blocking_flags [OF s, of 0] assms show thesis
    by (intro that [OF s]) (auto simp: network_set_blocking_def s Let_def split_beta)
qed

lemma unblock_sockets_returns:
  assumes "unblock_sockets w is n = Some m"
  shows "net_socks m = net_socks n \<and> set (net_calls n) \<subseteq> set (net_calls m) \<and>
    (\<forall>i \<in> set is. \<forall>p \<in> {ws_sockets_cmd w + i, ws_sockets_data w + i}. \<exists>s fl. net_socks m p = Some s \<and>
       bit fl 11 \<and> Call_setfl (sk_fd s) fl \<in> set (net_calls m))"
  using assms
proof (induction "is" arbitrary: n)
  case (Cons i "is")
  then obtain r1 n1 r2 n2 where n: "network_set_blocking (ws_sockets_cmd w + i) 0 n = Some (r1, n1)"
      "network_set_blocking (ws_sockets_data w + i) 0 n1 = Some (r2, n2)" "unblock_sockets w is n2 = Some m"
    by (auto simp: bind_eq_Some_conv)
  obtain s fl where s: "net_socks n (ws_sockets_cmd w + i) = Some s" "net_socks n1 = net_socks n" "bit fl 11"
    "net_calls n1 = net_calls n @ [Call_getfl (sk_fd s), Call_setfl (sk_fd s) fl]" by (rule set_blocking_returns [OF n(1)])
  obtain d gl where d: "net_socks n1 (ws_sockets_data w + i) = Some d" "net_socks n2 = net_socks n1" "bit gl 11"
    "net_calls n2 = net_calls n1 @ [Call_getfl (sk_fd d), Call_setfl (sk_fd d) gl]" by (rule set_blocking_returns [OF n(2)])
  note IH = Cons.IH [OF n(3)]
  have "{Call_setfl (sk_fd s) fl, Call_setfl (sk_fd d) gl} \<subseteq> set (net_calls m)" using IH s(4) d(4) by auto
  with IH s d show ?case by (auto 0 4)
qed simp

lemma wireup_sockets_ready:
  assumes "wireup_sockets nd junk w n = Some (w', n')"
  shows "sockets_ready w' n' \<and> ws_n_remote_pes w' = ws_n_remote_pes w"
proof -
  let ?k = "nat (sint (ws_n_remote_pes w))"
  obtain c d v m1 sv m2 where run: "v = w\<lparr>ws_sockets_cmd := c, ws_sockets_data := d\<rparr>"
    "comm_remote_close_servers (ws_server_cmd v, ws_server_data v) m1 = Some (sv, m2)"
    "w' = v\<lparr>ws_server_cmd := fst sv, ws_server_data := snd sv\<rparr>" "unblock_sockets w' [0 ..< ?k] m2 = Some n'"
    using assms by (auto simp: wireup_sockets_def Let_def split_beta bind_eq_Some_conv)
  have "fst sv = None"
    using run(2) by (auto simp: comm_remote_close_servers_def bind_eq_Some_conv split: option.splits)
  with run(1,3) unblock_sockets_returns [OF run(4), THEN conjunct2, THEN conjunct2]
  show ?thesis by (simp add: sockets_ready_def)
qed

section \<open>Properties\<close>

lemma strided_less: "i \<in> set (strided a n s) \<Longrightarrow> i < n"
  by (induction a n s rule: strided.induct) (subst (asm) (2) strided.simps, auto split: if_splits)

text \<open>
  C14: the client's side of a level, on any answers of the system that do not refuse a
  connection for ever, makes for each connection of its plan, in order, exactly the calls of
  the handshake: two sockets, the connection of the first to the PE's address and command
  port once more than it is refused, the byte read from and the own number written to it, and
  the connection of the second to the data port; then it returns. Every call gets an answer
  here: that the byte which is read comes at all, is \<open>wireup_completes\<close> of \<open>Handshake\<close>.
\<close>

theorem wire_client_returns:
  assumes "table_ok nd w" and "arrays_ok w n" and "not_refused_forever n"
  shows "\<exists>m. comm_remote_wire_client nd w stride n = Some m \<and>
    net_calls m = net_calls n @ client_calls nd (ws_my_pe w) n (length (net_calls n))
      (wire_client (on_other_node nd) (unat (ws_my_pe w)) (unat (ws_n_pes w)) stride)"
proof -
  let ?pes = "strided (if 2 < stride \<and> unat (ws_my_pe w) mod 2 = 1 then 1 else 0) (unat (ws_n_pes w)) stride"
  have "pe < unat (ws_n_pes w)" if "pe \<in> set ?pes" for pe using that by (rule strided_less)
  from client_loop_calls [OF assms(1) this assms(2,3)] show ?thesis
    unfolding comm_remote_wire_client_def wire_client_def by blast
qed

text \<open>
  C15: the server's side of a level makes four calls for each connection of its plan, and
  stores each pair of sockets under the index of the PE whose number was read from the
  first, whatever the order in which the clients come.
\<close>

theorem wire_server_stores:
  fixes n :: net
  defines "l \<equiv> length (net_calls n)"
  assumes "table_ok nd w" and "arrays_ok w n" and "length junk = 4"
    and below: "ws_sockets_data w + nat (sint (ws_n_remote_pes w)) \<le> net_next n"
    and c: "ws_server_cmd w = Some c" "c < net_next n" "\<not> in_arrays w c" "map_option sk_fd (net_socks n c) = Some fc"
    and d: "ws_server_data w = Some d" "d < net_next n" "\<not> in_arrays w d" "map_option sk_fd (net_socks n d) = Some fd"
    and xs: "length xs = length (wire_server (on_other_node nd) (unat (ws_my_pe w)) (unat (ws_n_pes w)) stride)"
      "distinct (map (pe_index nd) xs)" "\<forall>j < length xs. greets nd w n (l + 4 * j) (xs ! j)"
  shows "\<exists>m. comm_remote_wire_server nd w junk stride n = Some m \<and>
    net_calls m = net_calls n @ concat (map (\<lambda>j. server_calls fc fd (net_answer n (l + 4 * j))) [0 ..< length xs]) \<and>
    (\<forall>j < length xs. sockets_of nd w (xs ! j) (accepted n (l + 4 * j)) (accepted n (l + 4 * j + 3)) m)"
proof -
  let ?sock = "net_next n"
  define k where "k = put_sock ?sock (net_junk n) (n\<lparr>net_next := Suc ?sock\<rparr>)"
  have k: "net_calls k = net_calls n" "net_socks k = (net_socks n)(?sock \<mapsto> net_junk n)" "net_answer k = net_answer n"
    "net_peer k = net_peer n" "net_read k = net_read n" by (simp_all add: k_def)
  have out: "\<not> in_arrays w ?sock" using below assms(3) unfolding in_arrays_def arrays_ok_def by auto
  have "arrays_ok w k" using assms(3) by (simp add: arrays_ok_def k(2))
  moreover have "listening w ?sock fc fd k" using c d out by (simp add: listening_def k(2))
  moreover have "greets nd w k (length (net_calls k) + 4 * j) (xs ! j)" if "j < length xs" for j
    using xs(3) that by (simp add: greets_def k l_def)
  moreover have "length xs = length (filter (on_other_node nd)
      (strided (unat (ws_my_pe w) mod 2 + stride div 2) (unat (ws_n_pes w)) stride))"
    using xs(1) by (simp add: wire_server_def)
  ultimately obtain m where m: "server_loop nd w ?sock (strided (unat (ws_my_pe w) mod 2 + stride div 2) (unat (ws_n_pes w)) stride) junk k = Some m"
    "net_calls m = net_calls k @ concat (map (\<lambda>j. server_calls fc fd (net_answer k (length (net_calls k) + 4 * j))) [0 ..< length xs])"
    "\<forall>j < length xs. sockets_of nd w (xs ! j) (accepted k (length (net_calls k) + 4 * j)) (accepted k (length (net_calls k) + 4 * j + 3)) m"
    using server_loop_calls [OF assms(2) strided_less _ _ assms(4) _ xs(2),
        where ?a4 = "\<lambda>_. unat (ws_my_pe w) mod 2 + stride div 2" and ?s4 = "\<lambda>_. stride"] by blast
  have apart: "ws_sockets_cmd w + pe_index nd (xs ! j) \<noteq> ?sock" "ws_sockets_data w + pe_index nd (xs ! j) \<noteq> ?sock" if "j < length xs" for j
  proof -
    have "pe_index nd (xs ! j) < nat (sint (ws_n_remote_pes w))"
      using xs(3) that assms(2) by (auto simp: greets_def elim: on_other_nodeD)
    thus "ws_sockets_cmd w + pe_index nd (xs ! j) \<noteq> ?sock" "ws_sockets_data w + pe_index nd (xs ! j) \<noteq> ?sock"
      using out by (auto simp: in_arrays_def)
  qed
  have "comm_remote_wire_server nd w junk stride n = Some (m\<lparr>net_socks := (net_socks m)(?sock := None)\<rparr>)"
    using m(1) by (simp add: comm_remote_wire_server_def Let_def k_def)
  thus ?thesis using m(2,3) apart by (auto simp: k l_def sockets_of_def accepted_def)
qed

text \<open>
  A connection that is always refused is tried for ever. \<open>network_connect\<close> reports every
  error in the same way, also that the descriptor is -1 because \<open>socket\<close> failed.
\<close>

lemma connect_until_refused:
  assumes "\<And>i. net_answer n i = - 1"
  shows "connect_until p host pt n = None"
proof -
  have no: "\<not> (\<forall>i. net_answer n i = - 1)" if "connect_until p host pt n = Some r" for r
  proof (rule connect_until.raw_induct [where P = "\<lambda>p host pt n r. \<not> (\<forall>i. net_answer n i = - 1)", OF _ that])
    fix f p host pt n r
    assume rec: "\<And>p host pt n r. f p host pt n = Some r \<Longrightarrow> \<not> (\<forall>i. net_answer n i = - 1)"
      and r: "do { (status, n) \<leftarrow> network_connect p host pt n; if status = 0 then f p host pt n else Some (status, n) } = Some r"
    then obtain st m where m: "network_connect p host pt n = Some (st, m)"
      "(if st = 0 then f p host pt m else Some (st, m)) = Some r"
      by (auto simp: bind_eq_Some_conv)
    have a: "net_answer m = net_answer n" "st = (if net_answer n (length (net_calls n)) = - 1 then 0 else 1)"
      using m(1) by (auto simp: network_connect_def bind_eq_Some_conv Let_def split_beta split: if_splits)
    show "\<not> (\<forall>i. net_answer n i = - 1)"
    proof
      assume all: "\<forall>i. net_answer n i = - 1"
      hence "f p host pt m = Some r" using m(2) a(2) by simp
      from rec [OF this] all show False by (simp add: a(1))
    qed
  qed
  show ?thesis using assms no by (cases "connect_until p host pt n") auto
qed

section \<open>Two PEs on two nodes\<close>

text \<open>
  The tables and variables of PE \<open>me\<close>, and a system that answers 7 to every call but the
  third, which it refuses, and gives the number 1 to every \<open>read\<close>.
\<close>

definition two_nodes :: "nat \<Rightarrow> node_state" where
  "two_nodes me = \<lparr>nd_region = NULL, nd_size = 0, nd_p_sync = NULL, nd_nodes_at = NULL, nd_map_at = NULL,
     nd_nodes = [Some \<lparr>hm_hostname = ''a'', hm_addr = 1\<rparr>, Some \<lparr>hm_hostname = ''b'', hm_addr = 2\<rparr>],
     nd_map = map (\<lambda>pe. Some \<lparr>lm_type = (if pe = me then PE_TYPE_LOCAL else PE_TYPE_REMOTE), lm_index = 0, lm_host = pe\<rparr>) [0, 1]\<rparr>"

definition two_wires :: "nat \<Rightarrow> wire_state" where
  "two_wires me = \<lparr>ws_my_pe = of_nat me, ws_n_pes = 2, ws_n_remote_pes = 1, ws_server_cmd = Some 0, ws_server_data = Some 1,
     ws_sockets_cmd = 2, ws_sockets_data = 3\<rparr>"

definition two_net :: net where
  "two_net = \<lparr>net_answer = (\<lambda>i. if i = 2 then - 1 else 7), net_written = (\<lambda>_. 0), net_peer = (\<lambda>_. any_addr 0),
     net_read = (\<lambda>_. Some (bytes_of_nat 4 1)), net_calls = [], net_socks = (\<lambda>p. if p < 4 then Some \<lparr>sk_fd = of_nat p, sk_addr = any_addr 0\<rparr> else None),
     net_owned = (\<lambda>p. p < 2), net_junk = \<lparr>sk_fd = 0, sk_addr = any_addr 0\<rparr>, net_next = 4\<rparr>"

lemma two_nodes_table: "me < 2 \<Longrightarrow> table_ok (two_nodes me) (two_wires me)"
  by (auto simp: table_ok_def two_nodes_def two_wires_def comm_node_map_def host_addr_def less_2_cases_iff)

lemma two_nodes_arrays: "arrays_ok (two_wires me) two_net"
  by (simp add: arrays_ok_def two_wires_def two_net_def)

lemma two_net_simps:
  "net_next two_net = 4" "net_calls two_net = []" "net_answer two_net 0 = 7" "net_answer two_net 3 = 7"
  "net_peer two_net i = any_addr 0" "map_option sk_fd (net_socks two_net 0) = Some 0"
  "map_option sk_fd (net_socks two_net 1) = Some 1"
  by (simp_all add: two_net_def)

lemma two_wires_simps:
  "unat (ws_my_pe (two_wires 1)) = 1" "ws_my_pe (two_wires 1) = 1" "unat (ws_n_pes (two_wires 1)) = 2"
  "unat (ws_my_pe (two_wires 0)) = 0" "unat (ws_n_pes (two_wires 0)) = 2" "sint (ws_n_remote_pes (two_wires 0)) = 1"
  "ws_server_cmd (two_wires 0) = Some 0" "ws_server_data (two_wires 0) = Some 1"
  "ws_sockets_cmd (two_wires 0) = 2" "ws_sockets_data (two_wires 0) = 3"
  by (simp_all add: two_wires_def)

theorem wire_client_returns_witness:
  "\<exists>m. comm_remote_wire_client (two_nodes 1) (two_wires 1) 2 two_net = Some m \<and>
    net_calls m = [Call_socket, Call_socket, Call_connect 7 (peer_addr 1 36500), Call_connect 7 (peer_addr 1 36500),
      Call_read 7 1, Call_write 7 [1, 0, 0, 0], Call_connect 7 (peer_addr 1 36501)]"
proof -
  have fair: "not_refused_forever two_net"
    unfolding not_refused_forever_def
  proof
    fix i show "\<exists>j \<ge> i. net_answer two_net j \<noteq> - 1" by (intro exI [of _ "i + 3"]) (simp add: two_net_def)
  qed
  have "filter (on_other_node (two_nodes 1)) (strided 0 2 2) = [0]" by code_simp
  hence plan: "wire_client (on_other_node (two_nodes 1)) 1 2 2 = [Connect 0 36500 36501]"
    by (simp add: wire_client_def PORT_BASE_def)
  have once: "refusals two_net (Suc (Suc 0)) = Suc 0"
    unfolding refusals_def by (rule Least_equality) (auto simp: two_net_def Suc_le_eq intro!: Nat.gr0I)
  have addr: "pe_addr (two_nodes 1) 0 = 1" by (simp add: pe_addr_def two_nodes_def comm_node_map_def host_addr_def)
  have ans: "net_answer two_net 1 = 7" by (simp add: two_net_def)
  have bytes: "bytes_of_nat 4 1 = [1, 0, 0, 0]" by code_simp
  have "(1 :: nat) < 2" by simp
  from wire_client_returns [OF two_nodes_table [OF this] two_nodes_arrays fair, of 2]
  show ?thesis unfolding two_wires_simps two_net_simps append_Nil unat_1 plan
    by (simp add: two_net_simps once addr ans bytes Let_def del: One_nat_def)
qed

theorem wire_server_stores_witness:
  "\<exists>m. comm_remote_wire_server (two_nodes 0) (two_wires 0) [0, 0, 0, 0] 2 two_net = Some m \<and>
    net_calls m = [Call_accept 0, Call_write 7 [0], Call_read 7 4, Call_accept 1] \<and>
    net_socks m 2 = Some \<lparr>sk_fd = 7, sk_addr = any_addr 0\<rparr> \<and> net_socks m 3 = Some \<lparr>sk_fd = 7, sk_addr = any_addr 0\<rparr>"
proof -
  have plan: "wire_server (on_other_node (two_nodes 0)) 0 2 2 = [Accept 1]" by code_simp
  have gr: "greets (two_nodes 0) (two_wires 0) two_net 0 1"
    by (simp add: greets_def two_net_def two_wires_def two_nodes_def on_other_node_def comm_node_map_def PE_TYPE_LOCAL_def PE_TYPE_REMOTE_def)
  have ix: "pe_index (two_nodes 0) 1 = 0" by (simp add: pe_index_def two_nodes_def comm_node_map_def)
  have "\<exists>m. comm_remote_wire_server (two_nodes 0) (two_wires 0) [0, 0, 0, 0] 2 two_net = Some m \<and>
    net_calls m = net_calls two_net @ concat (map (\<lambda>j. server_calls 0 1 (net_answer two_net (length (net_calls two_net) + 4 * j))) [0 ..< length [1 :: nat]]) \<and>
    (\<forall>j < length [1 :: nat]. sockets_of (two_nodes 0) (two_wires 0) ([1] ! j) (accepted two_net (length (net_calls two_net) + 4 * j))
      (accepted two_net (length (net_calls two_net) + 4 * j + 3)) m)"
    by (rule wire_server_stores [OF two_nodes_table two_nodes_arrays, where c = 0 and d = 1])
      (simp_all add: two_net_simps two_wires_simps in_arrays_def plan gr ix del: One_nat_def)
  thus ?thesis by (simp add: two_net_simps two_wires_simps server_calls_def sockets_of_def accepted_def ix del: One_nat_def)
qed

end
