(* ===== verification/Comm.thy ===== *)
theory Comm
  imports Comm_Local Comm_Remote Wire_Sockets
begin

text \<open>
  \<open>comm/comm.c\<close>: the communication layer of one PE, which sends every access to the local or
  the remote layer by the locality of the PE it is meant for, and the symmetric heap behind
  \<open>shmem_malloc\<close>. The state of a PE puts together the static variables of the layers below.
  The barrier is in \<open>Barrier\<close>.
\<close>

section \<open>Definitions\<close>

record pe_state =
  ps_node :: node_state
  ps_local :: comm_local_state
  ps_remote :: remote_state
  ps_work :: work_state
  ps_psync :: ptr
  ps_store :: cmem
  ps_maps :: "ptr \<Rightarrow> size_t option"

text \<open>
  \<open>comm_init\<close>: \<open>region\<close> is the answer of \<open>malloc\<close> in the node layer, \<open>opens\<close>, \<open>var\<close> and \<open>at\<close>
  those of the system in the local layer; the variables of the sockets are beside the state.
\<close>

definition comm_init :: "ptr \<Rightarrow> (string \<Rightarrow> c_int \<times> ptr) \<Rightarrow> ptr \<Rightarrow> ptr \<Rightarrow>
    c_int \<Rightarrow> c_int \<Rightarrow> c_int \<Rightarrow> c_int \<Rightarrow> c_int \<Rightarrow> pe_state \<times> wire_state \<times> net \<Rightarrow> (pe_state \<times> wire_state \<times> net) option" where
  "comm_init region opens var at my_local_pe n_local_pes my_pe n_pes n_nodes x = do {
     let (s, ws) = x;
     let nd = comm_node_init region my_local_pe n_local_pes n_pes n_nodes;
     (cl, st) \<leftarrow> comm_local_init my_local_pe n_local_pes opens var at (ps_store s);
     let cr = comm_remote_init my_pe n_pes (n_pes - n_local_pes) (ps_remote s);
     ws \<leftarrow> wire_init my_pe n_pes (n_pes - n_local_pes) ws;
     Some (s\<lparr>ps_node := nd, ps_local := cl, ps_store := st, ps_remote := cr\<rparr>, ws)
   }"

definition comm_map_locality :: "(string \<Rightarrow> 32 word list option) \<Rightarrow> string \<Rightarrow> string list \<Rightarrow>
    c_int list list \<Rightarrow> c_int \<Rightarrow> c_int list \<Rightarrow> pe_state \<Rightarrow> pe_state option" where
  "comm_map_locality gh host hosts pes n_hosts n_pes s = do {
     nd \<leftarrow> comm_node_map_locality gh host hosts pes n_hosts n_pes (ps_node s);
     Some (s\<lparr>ps_node := nd\<rparr>)
   }"

definition comm_symmetric_heap :: "pe_state \<Rightarrow> shared_heap_t option" where
  "comm_symmetric_heap s = comm_local_heap (ps_local s)"

definition set_heap :: "shared_heap_t \<Rightarrow> cmem \<Rightarrow> pe_state \<Rightarrow> pe_state" where
  "set_heap h st s = s\<lparr>ps_local := (ps_local s)\<lparr>cl_symmetric_heap := Some h\<rparr>, ps_store := st\<rparr>"

definition comm_heap_malloc :: "pe_state \<Rightarrow> size_t \<Rightarrow> (ptr \<times> pe_state) option" where
  "comm_heap_malloc s sz = do {
     h \<leftarrow> comm_symmetric_heap s;
     (p, h, st) \<leftarrow> shared_heap_malloc h (ps_store s) sz;
     Some (p, set_heap h st s)
   }"

definition comm_heap_free :: "pe_state \<Rightarrow> ptr \<Rightarrow> pe_state option" where
  "comm_heap_free s p = do {
     h \<leftarrow> comm_symmetric_heap s;
     (h, st) \<leftarrow> shared_heap_free h (ps_store s) p;
     Some (set_heap h st s)
   }"

definition comm_start :: "pe_state \<Rightarrow> pe_state" where
  "comm_start s = s\<lparr>ps_remote := comm_remote_start (ps_remote s), ps_work := work_start (ps_work s)\<rparr>"

text \<open>
  \<open>comm_wireup\<close>. \<open>wireup_sockets\<close> makes the connections, with every system call; the streams
  of bytes that they are from then on are those of \<open>comm_remote_sockets\<close>, still empty. The
  array for the barriers holds an \<open>int\<close> for every PE and is cleared. \<open>junk\<close> is what the
  variables of the wire-up hold before they are set.
\<close>

definition comm_wireup :: "(string \<Rightarrow> c_int \<times> ptr) \<Rightarrow> ptr \<Rightarrow> byte list \<Rightarrow>
    node_mem \<times> pe_state \<times> wire_state \<times> net \<Rightarrow> (node_mem \<times> pe_state \<times> wire_state \<times> net) option" where
  "comm_wireup opens arr junk x = do {
     let (nm, s, w, net) = x;
     cl \<leftarrow> comm_local_wireup opens arr (ps_local s);
     ws \<leftarrow> wireup_sockets (ps_node s) junk w net;
     let cr = comm_remote_sockets (ps_remote s);
     let bytes = 4 * scast (comm_remote_n_pes cr);
     (p, s) \<leftarrow> comm_heap_malloc (s\<lparr>ps_local := cl, ps_remote := cr\<rparr>) bytes;
     nm \<leftarrow> store_bytes nm (cl_me cl) (cl_shared_memory cl) p (replicate (unat bytes) 0);
     Some (nm, comm_start (s\<lparr>ps_psync := p\<rparr>), ws)
   }"

definition comm_get :: "ptr \<Rightarrow> ptr \<Rightarrow> size_t \<Rightarrow> c_int \<Rightarrow> node_mem \<times> pe_state \<Rightarrow> (node_mem \<times> pe_state) option" where
  "comm_get dest source bytes dest_pe x = do {
     let (nm, s) = x;
     mp \<leftarrow> comm_node_map (ps_node s) dest_pe;
     if lm_type mp = PE_TYPE_LOCAL then do {
       nm \<leftarrow> comm_local_get (ps_node s) (ps_local s) dest_pe dest source bytes nm;
       Some (nm, s)
     }
     else Some (nm, s\<lparr>ps_remote := comm_remote_get dest_pe dest source bytes (ps_remote s)\<rparr>)
   }"

definition comm_put :: "ptr \<Rightarrow> ptr \<Rightarrow> size_t \<Rightarrow> c_int \<Rightarrow> node_mem \<times> pe_state \<Rightarrow> (node_mem \<times> pe_state) option" where
  "comm_put dest source bytes dest_pe x = do {
     let (nm, s) = x;
     mp \<leftarrow> comm_node_map (ps_node s) dest_pe;
     if lm_type mp = PE_TYPE_LOCAL then do {
       nm \<leftarrow> comm_local_put (ps_node s) (ps_local s) dest_pe dest source bytes nm;
       Some (nm, s)
     }
     else do {
       cr \<leftarrow> comm_remote_put nm (cl_me (ps_local s)) (cl_shared_memory (ps_local s))
         dest_pe dest source bytes (ps_remote s);
       Some (nm, s\<lparr>ps_remote := cr\<rparr>)
     }
   }"

definition comm_get_nbi :: "ptr \<Rightarrow> ptr \<Rightarrow> size_t \<Rightarrow> c_int \<Rightarrow> pe_state \<Rightarrow> pe_state option" where
  "comm_get_nbi dest source bytes dest_pe s = do {
     (_, ws) \<leftarrow> work_put (comm_remote_pe (ps_remote s)) (ps_work s) HANDLER_GET dest_pe dest source bytes;
     Some (s\<lparr>ps_work := ws\<rparr>)
   }"

definition comm_put_nbi :: "ptr \<Rightarrow> ptr \<Rightarrow> size_t \<Rightarrow> c_int \<Rightarrow> pe_state \<Rightarrow> pe_state option" where
  "comm_put_nbi dest source bytes dest_pe s = do {
     (_, ws) \<leftarrow> work_put (comm_remote_pe (ps_remote s)) (ps_work s) HANDLER_PUT dest_pe dest source bytes;
     Some (s\<lparr>ps_work := ws\<rparr>)
   }"

text \<open>The body of \<open>comm_flush\<close> is empty.\<close>

definition comm_flush :: "pe_state \<Rightarrow> pe_state" where
  "comm_flush s = s"

text \<open>The worker thread executes the next job of the PE, if there is one, with \<open>comm_put\<close>.\<close>

definition worker_turn :: "node_mem \<times> pe_state \<Rightarrow> (node_mem \<times> pe_state) option" where
  "worker_turn x = do {
     let (nm, s) = x;
     (j, ws) \<leftarrow> work_thread_turn (ps_work s);
     (case j of None \<Rightarrow> Some (nm, s\<lparr>ps_work := ws\<rparr>)
      | Some j \<Rightarrow> work_thread_execute comm_put j (nm, s\<lparr>ps_work := ws\<rparr>))
   }"

text \<open>
  \<open>comm_finalize\<close>. The layers are finalized before the array for the barriers is freed.
\<close>

definition comm_finalize :: "pe_state \<Rightarrow> pe_state option" where
  "comm_finalize s = do {
     let s = s\<lparr>ps_work := work_finalize (ps_work s), ps_remote := comm_remote_finalize (ps_remote s)\<rparr>;
     (cl, vm, st) \<leftarrow> comm_local_finalize (ps_local s) (ps_maps s) (ps_store s);
     let s = s\<lparr>ps_local := cl, ps_maps := vm, ps_store := st, ps_node := comm_node_finalize (ps_node s)\<rparr>;
     comm_heap_free s (ps_psync s)
   }"

section \<open>The heap of a PE is a next-fit heap\<close>

definition pe_rep :: "nat \<Rightarrow> pe_state \<Rightarrow> nf_state \<Rightarrow> bool" where
  "pe_rep k s a \<longleftrightarrow> (\<exists>h. cl_symmetric_heap (ps_local s) = Some h \<and> shared_heap_rep k (h, ps_store s) a)"

definition pe_base :: "pe_state \<Rightarrow> ptr" where
  "pe_base s = (case cl_symmetric_heap (ps_local s) of None \<Rightarrow> NULL | Some h \<Rightarrow> h_ptr (sh_heap h))"

lemma comm_heap_malloc_step:
  assumes "pe_rep (k + 3) s a"
  shows "\<exists>s'. comm_heap_malloc s n = Some (place (pe_base s) (fst (nf_malloc a (unat n))), s') \<and>
    pe_rep k s' (snd (nf_malloc a (unat n))) \<and> pe_base s' = pe_base s"
proof -
  obtain h where h: "cl_symmetric_heap (ps_local s) = Some h" "shared_heap_rep (k + 3) (h, ps_store s) a"
    using assms by (auto simp: pe_rep_def)
  from shared.alloc_refines [OF h(2), of n] h(1) show ?thesis
    by (fastforce simp: comm_heap_malloc_def comm_symmetric_heap_def comm_local_heap_def
        set_heap_def pe_rep_def pe_base_def)
qed

interpretation pe_heap: next_fit_heap comm_heap_malloc pe_base pe_rep
proof unfold_locales
  show "\<exists>s'. comm_heap_malloc s n = Some (place (pe_base s) (fst (nf_malloc a (unat n))), s') \<and>
      pe_rep k s' (snd (nf_malloc a (unat n))) \<and> pe_base s' = pe_base s"
    if "pe_rep (k + 3) s a" for k s a n
    using that by (rule comm_heap_malloc_step)
  show "nf_ok a \<and> 0 < unat (pe_base s) \<and> unat (pe_base s) + nf_size a < 2 ^ 63" if "pe_rep k s a" for k s a
    using that shared.rep_region by (fastforce simp: pe_rep_def pe_base_def)
qed

section \<open>Wiring up\<close>

text \<open>The mappings of the heaps of a node, seen by the PE number \<open>me\<close> of \<open>n\<close>.\<close>

definition node_maps :: "nat \<Rightarrow> nat \<Rightarrow> ptr \<Rightarrow> (nat \<Rightarrow> c_int) \<Rightarrow> (nat \<Rightarrow> ptr) \<Rightarrow> ptr option list" where
  "node_maps n me base fd at =
     map (\<lambda>i. if i = me then Some base else if fd i = - 1 then None else Some (at i)) [0 ..< n]"

lemma int_array_size:
  fixes n :: c_int
  assumes "0 \<le> sint n"
  shows "unat (4 * scast n :: size_t) = 4 * nat (sint n)"
proof -
  define m where "m = nat (sint n)"
  have n: "sint n = int m" using assms by (simp add: m_def)
  have "sint n < 2 ^ 31" using sint_lt [of n] by simp
  hence m: "m < 2 ^ 31" by (simp add: n)
  have "(scast n :: size_t) = of_nat m" by (simp add: scast_eq n)
  hence "(4 * scast n :: size_t) = of_nat (4 * m)" by simp
  moreover have "unat (of_nat (4 * m) :: size_t) = 4 * m"
    using m by (intro unat_of_nat_exact) simp
  ultimately show ?thesis by (simp only: m_def)
qed

lemma nf_malloc_first: "n \<le> m \<Longrightarrow> fst (nf_malloc (nf_init m) n) = Some 0"
  by (simp add: nf_malloc_def nf_init_def nf_pick_def nf_order_def nf_gap_def nf_end_def)

lemma comm_wireup_ready:
  fixes s :: pe_state
  defines "cl \<equiv> ps_local s" and "cr \<equiv> comm_remote_sockets (ps_remote s)"
  assumes h: "cl_symmetric_heap cl = Some h" "h_ptr (sh_heap h) = base"
      "shared_heap_rep (k + 3) (h, ps_store s) (nf_init SYMMETRIC_HEAP_SIZE)"
    and me: "0 \<le> sint (cl_my_local_pe cl)" "sint (cl_my_local_pe cl) < sint (cl_n_local_pes cl)"
    and arr: "0 < unat arr" "unat arr + 8 * nat (sint (cl_n_local_pes cl)) < 2 ^ 63"
    and opens: "\<And>i key. shared_mem_key_int (of_nat i) = Some key \<Longrightarrow> opens key = (fd i, at i)"
    and fd: "\<forall>i. fd i \<noteq> 0"
    and maps: "maps_ok (node_maps (nat (sint (cl_n_local_pes cl))) (cl_me cl) base fd at)"
    and n: "0 < sint (cr_n_pes cr)" "4 * nat (sint (cr_n_pes cr)) \<le> SYMMETRIC_HEAP_SIZE"
    and wire: "wireup_sockets (ps_node s) junk w net = Some ws"
  shows "\<exists>s'. comm_wireup opens arr junk (nm, s, w, net) =
      Some (put_heap nm (cl_me cl) 0 (replicate (4 * nat (sint (cr_n_pes cr))) 0), s', ws) \<and>
    pe_rep k s' (snd (nf_malloc (nf_init SYMMETRIC_HEAP_SIZE) (4 * nat (sint (cr_n_pes cr))))) \<and>
    pe_base s' = base \<and> ps_psync s' = base \<and> ps_remote s' = comm_remote_start cr \<and> ps_node s' = ps_node s"
proof -
  let ?n = "nat (sint (cl_n_local_pes cl))" and ?b = "4 * nat (sint (cr_n_pes cr))"
  obtain cl' where cl': "comm_local_wireup opens arr cl = Some cl'" "cl' = cl\<lparr>cl_shared_memory := cl_shared_memory cl'\<rparr>"
    "length (cl_shared_memory cl') = ?n" "\<forall>i < ?n. cl_shared_memory cl' ! i =
      (if i = cl_me cl then Some (h_ptr (sh_heap h)) else if fd i = - 1 then None else Some (at i))"
    using comm_local_wireup_maps [of cl h arr opens fd at, OF h(1) me arr opens fd] by blast
  have sm: "cl_shared_memory cl' = node_maps ?n (cl_me cl) base fd at"
    using cl'(3,4) h(2) by (intro nth_equalityI) (auto simp: node_maps_def)
  have sel: "cl_me cl' = cl_me cl" "cl_symmetric_heap cl' = Some h" using cl'(2) h(1) by (auto simp: cl_me_def dest: arg_cong [where f = cl_symmetric_heap] arg_cong [where f = cl_my_local_pe])
  have my: "cl_me cl < ?n" using me by (simp add: cl_me_def)
  let ?s = "s\<lparr>ps_local := cl', ps_remote := cr\<rparr>"
  have rep: "pe_rep (k + 3) ?s (nf_init SYMMETRIC_HEAP_SIZE)" "pe_base ?s = base"
    using sel(2) h by (simp_all add: pe_rep_def pe_base_def)
  have bytes: "unat (4 * scast (comm_remote_n_pes cr) :: size_t) = ?b"
    using n(1) by (simp add: comm_remote_n_pes_def int_array_size)
  obtain s1 where s1: "comm_heap_malloc ?s (4 * scast (comm_remote_n_pes cr)) = Some (base, s1)"
    "pe_rep k s1 (snd (nf_malloc (nf_init SYMMETRIC_HEAP_SIZE) ?b))" "pe_base s1 = base"
    using comm_heap_malloc_step [OF rep(1), of "4 * scast (comm_remote_n_pes cr)"] rep(2) n(2)
    by (auto simp: bytes nf_malloc_first place_def)
  have keep: "ps_remote s1 = cr" "ps_node s1 = ps_node s"
    using s1(1) by (auto simp: comm_heap_malloc_def set_heap_def bind_eq_Some_conv)
  have "store_bytes nm (cl_me cl) (node_maps ?n (cl_me cl) base fd at) (base + of_nat 0) (replicate ?b 0) =
      Some (put_heap nm (cl_me cl) 0 (replicate ?b 0))"
    by (rule store_bytes_heap [OF maps]) (use my n(2) in \<open>simp_all add: node_maps_def\<close>)
  hence "comm_wireup opens arr junk (nm, s, w, net) =
      Some (put_heap nm (cl_me cl) 0 (replicate ?b 0), comm_start (s1\<lparr>ps_psync := base\<rparr>), ws)"
    using cl'(1) s1(1) sel(1) sm wire by (simp add: comm_wireup_def cl_def bytes Let_def flip: cr_def)
  thus ?thesis using s1(2,3) keep by (simp add: comm_start_def pe_rep_def pe_base_def)
qed

text \<open>The array for the barriers is the first allocation; when it is undefined, so is the rest.\<close>

lemma comm_wireup_wild:
  assumes "cl_symmetric_heap (ps_local s) = Some h" and "\<And>n. heap_malloc (sh_heap h) (ps_store s) n = None"
  shows "comm_wireup opens arr junk (nm, s, w, net) = None"
  using assms
  by (auto simp: comm_wireup_def comm_local_wireup_def comm_heap_malloc_def comm_symmetric_heap_def comm_local_heap_def
      shared_heap_malloc_def Let_def bind_eq_None_conv)

section \<open>Delivery of a put to another node\<close>

lemma comm_put_remote_queued:
  assumes mp: "comm_node_map (ps_node s) pe = Some mp" "lm_type mp \<noteq> PE_TYPE_LOCAL"
    and q: "pq_rep (ps_remote s) zs" "r_room (ps_remote s) 2"
    and src: "load_bytes nm (cl_me (ps_local s)) (cl_shared_memory (ps_local s)) src (unat n) = Some xs"
  obtains p cr where "comm_put dest src n pe (nm, s) = Some (nm, s\<lparr>ps_remote := cr\<rparr>)"
    "pq_rep cr (zs @ [(pe, p)])" "cr_packets cr p = Some \<lparr>pk_handler = HANDLER_PUT, pk_origin = cr_my_pe (ps_remote s),
      pk_request_index = 0, pk_size = n, pk_heap_offset = dest, pk_data = xs\<rparr>"
    "cr_out cr = cr_out (ps_remote s)" "cr_request_indices cr = cr_request_indices (ps_remote s)"
proof -
  let ?st = "ps_remote s"
  let ?k = "\<lparr>pk_handler = HANDLER_PUT, pk_origin = cr_my_pe ?st, pk_request_index = 0, pk_size = n,
    pk_heap_offset = dest, pk_data = xs\<rparr>"
  have "answers_ok (r_used ?st) (cr_answers ?st) (Suc (Suc 0))" using q(2) by (simp add: r_room_def numeral_2_eq_2)
  then obtain p rest where p: "take_answer (r_used ?st) (cr_answers ?st) = (p, rest)" "p \<noteq> NULL"
    "answers_ok (\<lambda>q. r_used ?st q \<or> q = p) rest (Suc 0)" by (rule answers_okD) blast
  let ?st1 = "?st\<lparr>cr_answers := rest, cr_packets := (cr_packets ?st)(p \<mapsto> ?k)\<rparr>"
  have m: "malloc_packet ?st ?k = Some (p, ?st1)" using p by (simp add: malloc_packet_def)
  have r1: "pq_rep ?st1 zs" using q(1) pq_rep_cong [of ?st1 ?st] by simp
  have "r_room ?st1 (Suc 0)" unfolding r_room_def
    using answers_ok_weaken [OF p(3), of "r_used ?st1"] by (auto simp: r_used_def split: if_splits)
  then obtain cr where cr: "comm_thread_enqueue ?st1 (pe, p) = Some cr"
    using comm_thread_enqueue_total [OF r1] by blast
  note e = comm_thread_enqueue_Some [OF r1 cr]
  have "comm_put dest src n pe (nm, s) = Some (nm, s\<lparr>ps_remote := cr\<rparr>)"
    using mp src m cr by (simp add: comm_put_def comm_remote_put_def)
  with e show thesis by (intro that [of cr p]) (simp_all add: queue_only_def)
qed

lemma received_job_executes:
  assumes pe: "local_pe (ps_node s) (ps_local s) (j_dest_pe j) i b" and h: "j_handler j = HANDLER_PUT"
    and off: "j_dest j = of_nat off" "off + unat (j_size j) \<le> SYMMETRIC_HEAP_SIZE"
    and src: "priv_area (cl_shared_memory (ps_local s)) (j_src j) (unat (j_size j))"
      "load_bytes nm (cl_me (ps_local s)) (cl_shared_memory (ps_local s)) (j_src j) (unat (j_size j)) = Some xs"
    and ws: "work_rep (ps_work s) [j]"
  shows "\<exists>ws. worker_turn (nm, s) = Some (put_heap nm i off xs, s\<lparr>ps_work := ws\<rparr>)"
proof -
  obtain ws' where ws': "work_thread_turn (ps_work s) = Some (Some j, ws')"
    using work_thread_turn_Cons [OF ws] by blast
  obtain mp where mp: "comm_node_map (ps_node s) (j_dest_pe j) = Some mp" "lm_type mp = PE_TYPE_LOCAL"
    using pe by (auto simp: local_pe_def)
  have "comm_local_put (ps_node s) (ps_local s) (j_dest_pe j) (of_nat off) (j_src j) (j_size j) nm =
      Some (put_heap nm i off xs)" by (rule comm_local_put_stores [OF pe off(2) src])
  with mp off(1) have "work_thread_execute comm_put j (nm, s\<lparr>ps_work := ws'\<rparr>) =
      Some (put_heap nm i off xs, s\<lparr>ps_work := ws'\<rparr>)"
    by (simp add: work_thread_execute_def h comm_put_def)
  with ws' show ?thesis by (intro exI [of _ ws']) (simp add: worker_turn_def)
qed

section \<open>Properties\<close>

text \<open>The process the properties are evaluated on: PE 0 of two PEs on two nodes.\<close>

definition demo_pe :: pe_state where
  "demo_pe = \<lparr>ps_node = demo_table_node, ps_local = demo_local, ps_remote = demo_remote,
     ps_work = demo_queue, ps_psync = NULL, ps_store = demo_mem, ps_maps = Map.empty\<rparr>"

text \<open>
  C9: a put to a PE on another node is delivered. The packet that the sender's
  communication thread writes, once it has arrived, is received as a job, and the
  receiver's worker, executing it, stores the sender's bytes at the given offset of its own
  symmetric heap and changes no other byte of any heap.
\<close>

theorem comm_put_delivered:
  assumes mp: "comm_node_map (ps_node a) pe = Some mp" "lm_type mp \<noteq> PE_TYPE_LOCAL"
      "sint (lm_index mp) = int i"
    and out: "i < length (cr_out (ps_remote a))" "cr_out (ps_remote a) ! i = []"
      "length (cr_request_indices (ps_remote a)) = length (cr_out (ps_remote a))"
    and q: "pq_rep (ps_remote a) []" "r_room (ps_remote a) 2" and wr: "\<forall>n. wr n = n"
    and src: "load_bytes nma (cl_me (ps_local a)) (cl_shared_memory (ps_local a)) src (unat n) = Some xs"
    and off: "off + unat n \<le> SYMMETRIC_HEAP_SIZE"
    and b: "local_pe (ps_node b) (ps_local b) (cr_my_pe (ps_remote b)) hb base"
      "j < length (cr_in (ps_remote b))" "work_rep (ps_work b) []" "w_room (ps_work b) 2"
      "buffer_ready (cl_me (ps_local b)) (cl_shared_memory (ps_local b)) nmb (ps_remote b) buf (unat n)"
  shows "\<exists>a' cr nmb' crb wsb wsb'. comm_put (of_nat off) src n pe (nma, a) = Some (nma, a') \<and>
    comm_thread_send (ps_node a) wr (ps_remote a') = Some cr \<and>
    receive_from junk (cl_me (ps_local b)) (cl_shared_memory (ps_local b)) j
      (nmb, (ps_remote b)\<lparr>cr_in := (cr_in (ps_remote b))[j := cr_out cr ! i]\<rparr>, ps_work b) = Some (nmb', crb, wsb) \<and>
    worker_turn (nmb', b\<lparr>ps_remote := crb, ps_work := wsb\<rparr>) =
      Some (put_heap nmb' hb off xs, b\<lparr>ps_remote := crb, ps_work := wsb'\<rparr>) \<and>
    nm_heap nmb' = nm_heap nmb \<and> heap_bytes (put_heap nmb' hb off xs) hb off (unat n) = xs"
proof -
  let ?k = "\<lparr>pk_handler = HANDLER_PUT, pk_origin = cr_my_pe (ps_remote a), pk_request_index = 0,
    pk_size = n, pk_heap_offset = of_nat off, pk_data = xs\<rparr>"
  obtain p cr0 where put: "comm_put (of_nat off) src n pe (nma, a) = Some (nma, a\<lparr>ps_remote := cr0\<rparr>)"
    "pq_rep cr0 [(pe, p)]" "cr_packets cr0 p = Some ?k" "cr_out cr0 = cr_out (ps_remote a)"
    "cr_request_indices cr0 = cr_request_indices (ps_remote a)"
    by (rule comm_put_remote_queued [OF mp(1,2) q src]) (simp only: append_Nil)
  have ri: "remote_index (ps_node a) pe = Some i" using mp by (simp add: remote_index_def)
  have "sendable (ps_node a) cr0 [(pe, p)] [?k]" using put(3-5) ri out by (simp add: sendable_def)
  from comm_thread_send_all [OF put(2) this, of wr] wr put(4,5) out ri obtain cr where
    send: "comm_thread_send (ps_node a) wr cr0 = Some cr"
      "cr_out cr ! i = encode_packet (?k\<lparr>pk_request_index := cr_request_indices (ps_remote a) ! i + 1\<rparr>)"
    by auto
  let ?k' = "?k\<lparr>pk_request_index := cr_request_indices (ps_remote a) ! i + 1\<rparr>"
  let ?crb = "(ps_remote b)\<lparr>cr_in := (cr_in (ps_remote b))[j := cr_out cr ! i]\<rparr>"
  let ?me = "cl_me (ps_local b)" and ?bases = "cl_shared_memory (ps_local b)"
  let ?job = "\<lparr>j_handler = HANDLER_PUT, j_dest_pe = cr_my_pe (ps_remote b), j_origin_pe = cr_my_pe (ps_remote a),
    j_dest = of_nat off, j_src = buf, j_size = n\<rparr>"
  have len: "length xs = unat n" by (rule load_bytes_length [OF src])
  have small: "unat n < 2 ^ 63" using off by (simp add: SYMMETRIC_HEAP_SIZE_def)
  have ready: "buffer_ready ?me ?bases nmb ?crb buf (unat n)" using b(5) by (simp add: buffer_ready_def)
  have "cr_in ?crb ! j = encode_packet ?k' @ []" using b(2) send(2) by simp
  from receive_from_packet [OF this, of ?me ?bases nmb buf "ps_work b" "[]" junk] len small ready b(2-4)
  obtain nmb' crb wsb where rcv: "receive_from junk ?me ?bases j (nmb, ?crb, ps_work b) = Some (nmb', crb, wsb)"
    "nm_heap nmb' = nm_heap nmb" "load_bytes nmb' ?me ?bases buf (unat n) = Some xs" "work_rep wsb [?job]"
    by auto
  let ?b = "b\<lparr>ps_remote := crb, ps_work := wsb\<rparr>"
  have "\<exists>ws. worker_turn (nmb', ?b) = Some (put_heap nmb' hb off xs, ?b\<lparr>ps_work := ws\<rparr>)"
    by (rule received_job_executes [where j = ?job])
      (use b(1,5) off rcv(3,4) in \<open>simp_all add: buffer_ready_def\<close>)
  then obtain ws where "worker_turn (nmb', ?b) =
      Some (put_heap nmb' hb off xs, b\<lparr>ps_remote := crb, ps_work := ws\<rparr>)" by auto
  with put(1) send(1) rcv(1,2) heap_bytes_put_heap [of nmb' hb off xs] len show ?thesis
    by (intro exI [of _ "a\<lparr>ps_remote := cr0\<rparr>"] exI [of _ cr] exI [of _ nmb'] exI [of _ crb] exI [of _ wsb]
        exI [of _ ws]) simp
qed

theorem comm_put_delivered_witness:
  "\<exists>a' cr nmb' crb wsb s. comm_put 16 64 2 1 (demo_nm, demo_pe) = Some (demo_nm, a') \<and>
    comm_thread_send demo_table_node (\<lambda>n. n) (ps_remote a') = Some cr \<and>
    receive_from (\<lambda>_. 0) 0 [Some 4096] 0 (demo_nm, demo_remote\<lparr>cr_in := [cr_out cr ! 0]\<rparr>, demo_queue) =
      Some (nmb', crb, wsb) \<and>
    worker_turn (nmb', demo_pe\<lparr>ps_remote := crb, ps_work := wsb\<rparr>) = Some (put_heap nmb' 0 16 [64, 65], s)"
proof -
  have src: "load_bytes demo_nm (cl_me (ps_local demo_pe)) (cl_shared_memory (ps_local demo_pe)) 64
      (unat (2 :: size_t)) = Some [64, 65]"
    using demo_bytes_two by (simp add: demo_pe_def demo_local_def cl_me_def)
  have off: "16 + unat (2 :: size_t) \<le> SYMMETRIC_HEAP_SIZE" by (simp add: SYMMETRIC_HEAP_SIZE_def)
  have "r_room (ps_remote demo_pe) 2" using demo_remote_queue(2)
    by (auto simp: demo_pe_def r_room_def intro: answers_ok_mono)
  from comm_put_delivered [where a = demo_pe and pe = 1 and i = 0 and wr = "\<lambda>n. n" and junk = "\<lambda>_. 0"
      and b = demo_pe and hb = 0 and base = 4096 and j = 0 and buf = 256 and nmb = demo_nm,
      OF _ _ _ _ _ _ _ this _ src off] demo_remote_queue(1) demo_work demo_local_pe demo_buffer [of 2 "[[]]"]
  show ?thesis
    by (fastforce simp: demo_pe_def comm_node_map_def demo_table_node_def demo_remote_def
        comm_remote_start_def demo_local_def cl_me_def)
qed

text \<open>
  C39: getting from a PE on another node returns at once and transfers nothing: no byte of
  memory changes and nothing is queued. The nonblocking get transfers nothing either, from
  any PE: its job, when the worker executes it, changes no memory.
\<close>

theorem comm_get_remote_nothing:
  assumes mp: "comm_node_map (ps_node s) pe = Some mp" "lm_type mp \<noteq> PE_TYPE_LOCAL"
    and ws: "work_rep (ps_work s) []" "w_room (ps_work s) 2"
  shows "comm_get dest src n pe (nm, s) = Some (nm, s) \<and>
    (\<exists>s1 s2. comm_get_nbi dest src n qe s = Some s1 \<and> worker_turn (nm, s1) = Some (nm, s2) \<and>
      ps_remote s2 = ps_remote s)"
proof -
  let ?j = "\<lparr>j_handler = HANDLER_GET, j_dest_pe = qe, j_origin_pe = comm_remote_pe (ps_remote s),
    j_dest = dest, j_src = src, j_size = n\<rparr>"
  have "w_room (ps_work s) (0 + 2)" using ws(2) by (simp add: numeral_2_eq_2)
  then obtain ws1 where w: "work_put_remote (ps_work s) HANDLER_GET qe (comm_remote_pe (ps_remote s)) dest src n =
      Some (0, ws1)" using work_put_remote_total [OF ws(1), of 0] by blast
  have "work_rep ws1 [?j]" using work_put_remote_Some(1) [OF ws(1) w] by simp
  then obtain ws2 where "work_thread_turn ws1 = Some (Some ?j, ws2)" using work_thread_turn_Cons by blast
  then have "worker_turn (nm, s\<lparr>ps_work := ws1\<rparr>) = Some (nm, s\<lparr>ps_work := ws2\<rparr>)"
    by (simp add: worker_turn_def work_thread_execute_def HANDLER_GET_def HANDLER_PUT_def)
  with w mp show ?thesis
    by (simp add: comm_get_def comm_remote_get_def comm_get_nbi_def work_put_eq)
qed

theorem comm_get_remote_nothing_witness:
  "comm_get 64 16 2 1 (demo_nm, demo_pe) = Some (demo_nm, demo_pe) \<and>
    (\<exists>s1 s2. comm_get_nbi 64 16 2 0 demo_pe = Some s1 \<and> worker_turn (demo_nm, s1) = Some (demo_nm, s2))"
  using comm_get_remote_nothing [of demo_pe 1 _ 64 16 2 demo_nm 0] demo_work
  by (fastforce simp: demo_pe_def comm_node_map_def demo_table_node_def)

lemma comm_put_get_local:
  assumes pe: "local_pe (ps_node s) (ps_local s) pe i b" and off: "off + unat n \<le> SYMMETRIC_HEAP_SIZE"
    and src: "priv_area (cl_shared_memory (ps_local s)) src (unat n)"
      "load_bytes nm (cl_me (ps_local s)) (cl_shared_memory (ps_local s)) src (unat n) = Some xs"
    and dest: "priv_area (cl_shared_memory (ps_local s)) dest (unat n)"
      "\<forall>k < unat n. nm_priv nm (cl_me (ps_local s)) (dest + of_nat k) \<noteq> None"
  shows "\<exists>nm1 nm2. comm_put (of_nat off) src n pe (nm, s) = Some (nm1, s) \<and>
    comm_get dest (of_nat off) n pe (nm1, s) = Some (nm2, s) \<and>
    load_bytes nm2 (cl_me (ps_local s)) (cl_shared_memory (ps_local s)) dest (unat n) = Some xs"
proof -
  obtain mp where mp: "comm_node_map (ps_node s) pe = Some mp" "lm_type mp = PE_TYPE_LOCAL"
    using pe by (auto simp: local_pe_def)
  let ?nm = "put_heap nm i off xs"
  have put: "comm_local_put (ps_node s) (ps_local s) pe (of_nat off) src n nm = Some ?nm"
    by (rule comm_local_put_stores [OF pe off src])
  have "heap_bytes ?nm i off (unat n) = xs"
    using heap_bytes_put_heap [of nm i off xs] load_bytes_length [OF src(2)] by simp
  moreover obtain nm2 where "comm_local_get (ps_node s) (ps_local s) pe dest (of_nat off) n ?nm = Some nm2"
    "load_bytes nm2 (cl_me (ps_local s)) (cl_shared_memory (ps_local s)) dest (unat n) =
      Some (heap_bytes ?nm i off (unat n))"
    using comm_local_get_stores [OF pe off dest(1), of ?nm] dest(2) by (auto simp: put_heap_other)
  ultimately show ?thesis using mp put by (simp add: comm_put_def comm_get_def)
qed

text \<open>
  A put and a get to a PE of the same node go through the local layer: a put followed
  by a get of the same range of the symmetric heap gives back the bytes that were put.
\<close>

theorem comm_put_then_get:
  assumes pe: "local_pe (ps_node s) (ps_local s) pe i b" and off: "off + unat n \<le> SYMMETRIC_HEAP_SIZE"
    and src: "priv_area (cl_shared_memory (ps_local s)) src (unat n)"
      "load_bytes nm (cl_me (ps_local s)) (cl_shared_memory (ps_local s)) src (unat n) = Some xs"
    and dest: "priv_area (cl_shared_memory (ps_local s)) dest (unat n)"
      "\<forall>k < unat n. nm_priv nm (cl_me (ps_local s)) (dest + of_nat k) \<noteq> None"
  shows "\<exists>nm1 nm2. comm_put (of_nat off) src n pe (nm, s) = Some (nm1, s) \<and>
    comm_get dest (of_nat off) n pe (nm1, s) = Some (nm2, s) \<and>
    load_bytes nm2 (cl_me (ps_local s)) (cl_shared_memory (ps_local s)) dest (unat n) = Some xs"
  by (rule comm_put_get_local [OF pe off src dest])

theorem comm_put_then_get_witness:
  "\<exists>nm1 nm2. comm_put 8 64 4 0 (demo_nm, demo_pe) = Some (nm1, demo_pe) \<and>
    comm_get 64 8 4 0 (nm1, demo_pe) = Some (nm2, demo_pe) \<and>
    load_bytes nm2 0 [Some 4096] 64 4 = Some [64, 65, 66, 67]"
proof -
  have pe: "local_pe (ps_node demo_pe) (ps_local demo_pe) 0 0 4096"
    using demo_local_pe by (simp add: demo_pe_def)
  have "8 + unat (4 :: size_t) \<le> SYMMETRIC_HEAP_SIZE" by (simp add: SYMMETRIC_HEAP_SIZE_def)
  from comm_put_then_get [OF pe this, of 64 demo_nm "[64, 65, 66, 67]" 64] demo_priv demo_bytes demo_defined
  show ?thesis by (auto simp: demo_pe_def demo_local_def cl_me_def)
qed

end
