(* ===== verification/Transport.thy ===== *)
theory Transport
  imports Comm
begin

text \<open>
  Puts between the PEs, all the way and all at once: every PE has its state of \<open>Comm\<close>, every
  node its memory, and the operations of the code on them interleave. \<open>comm_put\<close> of the
  program, within the node or to another one, one turn of the loop of \<open>__comm_thread_send\<close>, one
  of \<open>__comm_thread_receive\<close> and one of the worker are steps. \<open>write\<close> takes any number of the bytes
  of a packet, and the network carries bytes in the order in which they were written, any
  number at a time, so that a packet can be read in parts.

  The code loses data then: it frees a packet of which \<open>write\<close> took only a part, and submits
  a job over uninitialised memory when the data have not arrived. A flag of the state records
  whether this has happened; the theorems are about the runs in which it has not, and what
  the code does with such a packet is in \<open>Comm_Remote\<close>.

  The theory proves that the jobs that a PE's worker performs for one on another node are the
  puts of that PE, in order and with their bytes: nothing is lost, altered or overtaken on the way
  through packets, sockets, buffers and jobs. And it proves that the threads complete them.
\<close>

section \<open>Definitions\<close>

text \<open>
  The memory of each node and the state of each PE; for a sender and a receiver on different
  nodes, the puts made, each an offset and bytes, and those performed, with the bytes then
  found at the offset. \<open>tp_intact\<close> says that \<open>write\<close> has taken every packet whole, and that every
  packet had arrived whole when it was read, with \<open>malloc\<close> giving memory for its data and its job.
\<close>

record transport =
  tp_mem :: "nat \<Rightarrow> node_mem"
  tp_pe :: "nat \<Rightarrow> pe_state"
  tp_made :: "nat \<Rightarrow> nat \<Rightarrow> (nat \<times> byte list) list"
  tp_done :: "nat \<Rightarrow> nat \<Rightarrow> (nat \<times> byte list) list"
  tp_intact :: bool

text \<open>
  Where the PEs are: the node of each, its number among the PEs of its node, and the index of
  PE \<open>q\<close> among the PEs on other nodes in the tables of PE \<open>p\<close>. The memory of a node belongs
  to all its PEs.
\<close>

record layout =
  ly_node :: "nat \<Rightarrow> nat"
  ly_local :: "nat \<Rightarrow> nat"
  ly_index :: "nat \<Rightarrow> nat \<Rightarrow> nat"

definition layout_ok :: "nat \<Rightarrow> layout \<Rightarrow> bool" where
  "layout_ok n L \<longleftrightarrow> (\<forall>p < n. \<forall>q < n. ly_node L p = ly_node L q \<and> ly_local L p = ly_local L q \<longrightarrow> p = q)"

abbreviation apart :: "layout \<Rightarrow> nat \<Rightarrow> nat \<Rightarrow> bool" where
  "apart L p q \<equiv> ly_node L p \<noteq> ly_node L q"

abbreviation mem_at :: "layout \<Rightarrow> transport \<Rightarrow> nat \<Rightarrow> node_mem" where
  "mem_at L s p \<equiv> tp_mem s (ly_node L p)"

abbreviation me_of :: "pe_state \<Rightarrow> nat" where
  "me_of s \<equiv> cl_me (ps_local s)"

abbreviation maps_of :: "pe_state \<Rightarrow> ptr option list" where
  "maps_of s \<equiv> cl_shared_memory (ps_local s)"

text \<open>One turn of the sender, where \<open>wr m\<close> is how many of \<open>m\<close> bytes \<open>write\<close> takes, and of the receiver.\<close>

definition send_turn :: "(nat \<Rightarrow> nat) \<Rightarrow> pe_state \<Rightarrow> pe_state option" where
  "send_turn wr s = do {
     (x, cr) \<leftarrow> comm_thread_dequeue (ps_remote s);
     x \<leftarrow> x;
     cr \<leftarrow> send_packet (ps_node s) wr x cr;
     Some (s\<lparr>ps_remote := cr\<rparr>)
   }"

definition receive_turn :: "(ptr \<Rightarrow> byte) \<Rightarrow> nat \<Rightarrow> node_mem \<times> pe_state \<Rightarrow> (node_mem \<times> pe_state) option" where
  "receive_turn junk i x = do {
     let (nm, s) = x;
     (nm, cr, ws) \<leftarrow> receive_from junk (me_of s) (maps_of s) i (nm, ps_remote s, ps_work s);
     Some (nm, s\<lparr>ps_remote := cr, ps_work := ws\<rparr>)
   }"

text \<open>The bytes to, and from, the socket number \<open>i\<close>.\<close>

definition set_out :: "nat \<Rightarrow> byte list \<Rightarrow> pe_state \<Rightarrow> pe_state" where
  "set_out i bs s = s\<lparr>ps_remote := (ps_remote s)\<lparr>cr_out := (cr_out (ps_remote s))[i := bs]\<rparr>\<rparr>"

definition set_in :: "nat \<Rightarrow> byte list \<Rightarrow> pe_state \<Rightarrow> pe_state" where
  "set_in i bs s = s\<lparr>ps_remote := (ps_remote s)\<lparr>cr_in := (cr_in (ps_remote s))[i := bs]\<rparr>\<rparr>"

definition whole :: "packet \<Rightarrow> bool" where
  "whole k \<longleftrightarrow> length (pk_data k) = unat (pk_size k)"

text \<open>Whether \<open>write\<close> takes the next packet whole.\<close>

definition write_full :: "(nat \<Rightarrow> nat) \<Rightarrow> pe_state \<Rightarrow> bool" where
  "write_full wr s = (case comm_thread_dequeue (ps_remote s) of
     Some (Some x, cr) \<Rightarrow> (case cr_packets cr (snd x) of
       Some k \<Rightarrow> length (encode_packet k) \<le> wr (length (encode_packet k)) | None \<Rightarrow> True)
   | _ \<Rightarrow> True)"

text \<open>The first packet of a stream of bytes, and whether it has arrived whole.\<close>

definition first_packet :: "byte list \<Rightarrow> packet" where
  "first_packet bs = (let k = decode_header (take sizeof_packet bs) in k\<lparr>pk_data := take (unat (pk_size k)) (drop sizeof_packet bs)\<rparr>)"

definition after_packet :: "byte list \<Rightarrow> byte list" where
  "after_packet bs = drop (sizeof_packet + length (pk_data (first_packet bs))) bs"

definition has_packet :: "byte list \<Rightarrow> bool" where
  "has_packet bs \<longleftrightarrow> whole (first_packet bs) \<and> bs = encode_packet (first_packet bs) @ after_packet bs"

text \<open>Memory for \<open>m\<close> bytes of data, unused before, and for a job.\<close>

definition can_receive :: "node_mem \<Rightarrow> pe_state \<Rightarrow> nat \<Rightarrow> bool" where
  "can_receive nm s m \<longleftrightarrow> (case cr_buffers (ps_remote s) of [] \<Rightarrow> False
     | buf # _ \<Rightarrow> user_ptr buf \<and> priv_area (maps_of s) buf m \<and> (\<forall>k < m. nm_priv nm (me_of s) (buf + of_nat k) = None)) \<and>
     w_room (ps_work s) 2"

definition arrived :: "nat \<Rightarrow> node_mem \<Rightarrow> pe_state \<Rightarrow> bool" where
  "arrived i nm s \<longleftrightarrow> (let bs = cr_in (ps_remote s) ! i in
     has_packet bs \<and> can_receive nm s (unat (pk_size (first_packet bs))))"

text \<open>
  The steps of the threads and of the network, for \<open>n\<close> PEs. A read that finds nothing changes
  nothing, and is left out.
\<close>

inductive tp_thread :: "nat \<Rightarrow> layout \<Rightarrow> (ptr \<Rightarrow> byte) \<Rightarrow> transport \<Rightarrow> transport \<Rightarrow> bool" for n L junk where
  tp_send: "p < n \<Longrightarrow> cr_queue_send (ps_remote (tp_pe s p)) \<noteq> NULL \<Longrightarrow> send_turn wr (tp_pe s p) = Some t \<Longrightarrow>
    tp_thread n L junk s (s\<lparr>tp_pe := (tp_pe s)(p := t), tp_intact := (tp_intact s \<and> write_full wr (tp_pe s p))\<rparr>)"
| tp_wire: "p < n \<Longrightarrow> q < n \<Longrightarrow> apart L p q \<Longrightarrow> cr_out (ps_remote (tp_pe s p)) ! ly_index L p q = bs @ rest \<Longrightarrow> bs \<noteq> [] \<Longrightarrow>
    tp_thread n L junk s (s\<lparr>tp_pe := (tp_pe s)(p := set_out (ly_index L p q) rest (tp_pe s p),
      q := set_in (ly_index L q p) (cr_in (ps_remote (tp_pe s q)) ! ly_index L q p @ bs) (tp_pe s q))\<rparr>)"
| tp_receive: "p < n \<Longrightarrow> q < n \<Longrightarrow> apart L p q \<Longrightarrow> cr_in (ps_remote (tp_pe s q)) ! ly_index L q p \<noteq> [] \<Longrightarrow>
    receive_turn junk (ly_index L q p) (mem_at L s q, tp_pe s q) = Some (m, t) \<Longrightarrow>
    tp_thread n L junk s (s\<lparr>tp_mem := (tp_mem s)(ly_node L q := m), tp_pe := (tp_pe s)(q := t),
      tp_intact := (tp_intact s \<and> arrived (ly_index L q p) (mem_at L s q) (tp_pe s q))\<rparr>)"
| tp_work: "d < n \<Longrightarrow> work_thread_turn (ps_work (tp_pe s d)) = Some (Some j, ws) \<Longrightarrow> p = unat (j_origin_pe j) \<Longrightarrow>
    worker_turn (mem_at L s d, tp_pe s d) = Some (m, t) \<Longrightarrow>
    tp_thread n L junk s (s\<lparr>tp_mem := (tp_mem s)(ly_node L d := m), tp_pe := (tp_pe s)(d := t),
      tp_done := put2 p d (tp_done s p d @
        [(unat (j_dest j), heap_bytes m (me_of t) (unat (j_dest j)) (unat (j_size j)))]) (tp_done s)\<rparr>)"

text \<open>The program of a PE puts bytes to one on another node, or to one on its own.\<close>

definition tp_with :: "layout \<Rightarrow> nat \<Rightarrow> node_mem \<Rightarrow> pe_state \<Rightarrow> transport \<Rightarrow> transport" where
  "tp_with L p m t s = s\<lparr>tp_mem := (tp_mem s)(ly_node L p := m), tp_pe := (tp_pe s)(p := t)\<rparr>"

definition tp_log :: "nat \<Rightarrow> nat \<Rightarrow> nat \<times> byte list \<Rightarrow> transport \<Rightarrow> transport" where
  "tp_log p q x s = s\<lparr>tp_made := put2 p q (tp_made s p q @ [x]) (tp_made s)\<rparr>"

inductive tp_step :: "nat \<Rightarrow> layout \<Rightarrow> (ptr \<Rightarrow> byte) \<Rightarrow> transport \<Rightarrow> transport \<Rightarrow> bool" for n L junk where
  tp_put: "p < n \<Longrightarrow> q < n \<Longrightarrow> apart L p q \<Longrightarrow> off + unat sz \<le> SYMMETRIC_HEAP_SIZE \<Longrightarrow>
    load_bytes (mem_at L s p) (me_of (tp_pe s p)) (maps_of (tp_pe s p)) src (unat sz) = Some xs \<Longrightarrow>
    comm_put (of_nat off) src sz (of_nat q) (mem_at L s p, tp_pe s p) = Some (m, t) \<Longrightarrow>
    tp_step n L junk s (tp_log p q (off, xs) (tp_with L p m t s))"
| tp_store: "p < n \<Longrightarrow> q < n \<Longrightarrow> \<not> apart L p q \<Longrightarrow> off + unat sz \<le> SYMMETRIC_HEAP_SIZE \<Longrightarrow>
    load_bytes (mem_at L s p) (me_of (tp_pe s p)) (maps_of (tp_pe s p)) src (unat sz) = Some xs \<Longrightarrow>
    priv_area (maps_of (tp_pe s p)) src (unat sz) \<Longrightarrow>
    comm_put (of_nat off) src sz (of_nat q) (mem_at L s p, tp_pe s p) = Some (m, t) \<Longrightarrow>
    tp_step n L junk s (tp_with L p m t s)"
| tp_thread: "tp_thread n L junk s t \<Longrightarrow> tp_step n L junk s t"

text \<open>
  What the initialization leaves at PE \<open>p\<close>: its numbers, the heaps of its node mapped, an
  entry and a socket of its own for every PE on another node.
\<close>

definition pe_static :: "nat \<Rightarrow> layout \<Rightarrow> nat \<Rightarrow> pe_state \<Rightarrow> bool" where
  "pe_static n L p s \<longleftrightarrow> cr_my_pe (ps_remote s) = of_nat p \<and>
     me_of s = ly_local L p \<and>
     (\<forall>q < n. \<not> apart L p q \<longrightarrow> (\<exists>b. local_pe (ps_node s) (ps_local s) (of_nat q) (ly_local L q) b)) \<and>
     (\<forall>q < n. apart L q p \<longrightarrow> ly_index L p q < length (cr_out (ps_remote s)) \<and>
       (\<exists>mp. comm_node_map (ps_node s) (of_nat q) = Some mp \<and> lm_type mp \<noteq> PE_TYPE_LOCAL \<and> sint (lm_index mp) = int (ly_index L p q)) \<and>
       (\<forall>r < n. apart L r p \<longrightarrow> ly_index L p q = ly_index L p r \<longrightarrow> q = r)) \<and>
     length (cr_in (ps_remote s)) = length (cr_out (ps_remote s)) \<and>
     length (cr_request_indices (ps_remote s)) = length (cr_out (ps_remote s))"

definition tp_start :: "nat \<Rightarrow> layout \<Rightarrow> transport \<Rightarrow> bool" where
  "tp_start n L s \<longleftrightarrow> tp_intact s \<and> n < 2 ^ 31 \<and> layout_ok n L \<and> tp_made s = (\<lambda>_ _. []) \<and> tp_done s = (\<lambda>_ _. []) \<and>
     (\<forall>p < n. pe_static n L p (tp_pe s p) \<and> pq_rep (ps_remote (tp_pe s p)) [] \<and> work_rep (ps_work (tp_pe s p)) [] \<and>
       (\<forall>q < n. apart L q p \<longrightarrow> cr_out (ps_remote (tp_pe s p)) ! ly_index L p q = [] \<and> cr_in (ps_remote (tp_pe s p)) ! ly_index L p q = []))"

text \<open>The loops of the communication thread are made of these turns.\<close>

lemma comm_thread_send_turns:
  "comm_thread_send (ps_node s) wr (ps_remote s) =
    (if cr_queue_send (ps_remote s) = NULL then Some (ps_remote s)
     else send_turn wr s \<bind> (\<lambda>t. comm_thread_send (ps_node t) wr (ps_remote t)))"
  by (subst comm_thread_send.simps) (simp add: send_turn_def Option.bind_assoc case_prod_unfold)

lemma comm_thread_receive_turns:
  "comm_thread_receive junk (me_of s) (maps_of s) (i # xs) (nm, ps_remote s, ps_work s) =
    receive_turn junk i (nm, s) \<bind> (\<lambda>(nm, t). comm_thread_receive junk (me_of t) (maps_of t) xs (nm, ps_remote t, ps_work t))"
  by (simp add: receive_turn_def Option.bind_assoc case_prod_unfold)

section \<open>What the queues of a PE hold\<close>

text \<open>A put that PE \<open>p\<close> made: its packet, and bytes on a socket.\<close>

definition carries :: "nat \<Rightarrow> packet \<Rightarrow> nat \<times> byte list \<Rightarrow> bool" where
  "carries p k x \<longleftrightarrow> pk_handler k = HANDLER_PUT \<and> pk_origin k = of_nat p \<and> pk_heap_offset k = of_nat (fst x) \<and>
     pk_data k = snd x \<and> unat (pk_size k) = length (snd x) \<and> fst x + length (snd x) \<le> SYMMETRIC_HEAP_SIZE"

definition stream :: "nat \<Rightarrow> byte list \<Rightarrow> (nat \<times> byte list) list \<Rightarrow> bool" where
  "stream p bs xs \<longleftrightarrow> (\<exists>ks. bs = concat (map encode_packet ks) \<and> list_all2 (carries p) ks xs)"

text \<open>An entry of the send queue of PE \<open>p\<close>, and the queue.\<close>

definition entry_ok :: "nat \<Rightarrow> layout \<Rightarrow> nat \<Rightarrow> (ptr \<Rightarrow> packet option) \<Rightarrow> c_int \<times> ptr \<Rightarrow> nat \<times> nat \<times> byte list \<Rightarrow> bool" where
  "entry_ok n L p ks z x \<longleftrightarrow> fst z = of_nat (fst x) \<and> fst x < n \<and> apart L p (fst x) \<and>
     (\<exists>k. ks (snd z) = Some k \<and> carries p k (snd x))"

definition queued :: "nat \<Rightarrow> layout \<Rightarrow> nat \<Rightarrow> remote_state \<Rightarrow> (nat \<times> nat \<times> byte list) list \<Rightarrow> bool" where
  "queued n L p cr qs \<longleftrightarrow> (\<exists>zs. pq_rep cr zs \<and> distinct (map snd zs) \<and> list_all2 (entry_ok n L p (cr_packets cr)) zs qs)"

text \<open>A job of PE \<open>d\<close>, whose buffer holds the bytes, and its queue.\<close>

definition job_ok :: "nat \<Rightarrow> layout \<Rightarrow> nat \<Rightarrow> node_mem \<Rightarrow> comm_local_state \<Rightarrow> work_job_t \<Rightarrow> nat \<times> nat \<times> byte list \<Rightarrow> bool" where
  "job_ok n L d nm cl j y \<longleftrightarrow> (case y of (p, off, xs) \<Rightarrow> p < n \<and> apart L p d \<and> j_handler j = HANDLER_PUT \<and> j_dest_pe j = of_nat d \<and>
     j_origin_pe j = of_nat p \<and> j_dest j = of_nat off \<and> unat (j_size j) = length xs \<and>
     off + length xs \<le> SYMMETRIC_HEAP_SIZE \<and> priv_area (cl_shared_memory cl) (j_src j) (length xs) \<and>
     load_bytes nm (cl_me cl) (cl_shared_memory cl) (j_src j) (length xs) = Some xs)"

definition waiting :: "nat \<Rightarrow> layout \<Rightarrow> nat \<Rightarrow> node_mem \<Rightarrow> pe_state \<Rightarrow> (nat \<times> nat \<times> byte list) list \<Rightarrow> bool" where
  "waiting n L d nm s ys \<longleftrightarrow> (\<exists>js. work_rep (ps_work s) js \<and> list_all2 (job_ok n L d nm (ps_local s)) js ys)"

definition lanes :: "nat \<Rightarrow> layout \<Rightarrow> nat \<Rightarrow> node_mem \<Rightarrow> pe_state \<Rightarrow> (nat \<times> nat \<times> byte list) list \<Rightarrow>
    (nat \<times> nat \<times> byte list) list \<Rightarrow> bool" where
  "lanes n L p nm s qs js \<longleftrightarrow> pe_static n L p s \<and> queued n L p (ps_remote s) qs \<and> waiting n L p nm s js"

section \<open>One step at one PE\<close>

lemma pe_static_cong:
  assumes "ps_node t = ps_node s" "ps_local t = ps_local s" "cr_my_pe (ps_remote t) = cr_my_pe (ps_remote s)"
    "length (cr_out (ps_remote t)) = length (cr_out (ps_remote s))" "length (cr_in (ps_remote t)) = length (cr_in (ps_remote s))"
    "length (cr_request_indices (ps_remote t)) = length (cr_request_indices (ps_remote s))"
  shows "pe_static n L p t = pe_static n L p s"
  using assms by (simp add: pe_static_def)

lemma pe_static_local:
  assumes "pe_static n L p s"
  shows "me_of s = ly_local L p"
    and "q < n \<Longrightarrow> \<not> apart L p q \<Longrightarrow> \<exists>b. local_pe (ps_node s) (ps_local s) (of_nat q) (ly_local L q) b"
  using assms by (simp_all add: pe_static_def)

lemma pe_static_sock:
  assumes "pe_static n L p s" and "q < n" "apart L q p"
  shows "ly_index L p q < length (cr_out (ps_remote s))" and "remote_index (ps_node s) (of_nat q) = Some (ly_index L p q)"
    and "r < n \<Longrightarrow> apart L r p \<Longrightarrow> ly_index L p r = ly_index L p q \<Longrightarrow> r = q"
    and "length (cr_request_indices (ps_remote s)) = length (cr_out (ps_remote s))"
    and "length (cr_in (ps_remote s)) = length (cr_out (ps_remote s))"
proof -
  from assms obtain mp where "comm_node_map (ps_node s) (of_nat q) = Some mp" "sint (lm_index mp) = int (ly_index L p q)"
    unfolding pe_static_def by blast
  thus "remote_index (ps_node s) (of_nat q) = Some (ly_index L p q)" by (simp add: remote_index_def)
  show "ly_index L p q < length (cr_out (ps_remote s))" using assms unfolding pe_static_def by blast
  show "r < n \<Longrightarrow> apart L r p \<Longrightarrow> ly_index L p r = ly_index L p q \<Longrightarrow> r = q" using assms unfolding pe_static_def by metis
qed (use assms(1) in \<open>simp_all add: pe_static_def\<close>)

lemma entry_ok_frame:
  assumes "list_all2 (entry_ok n L p ks) zs qs" and "\<And>z. z \<in> set zs \<Longrightarrow> ks' (snd z) = ks (snd z)"
  shows "list_all2 (entry_ok n L p ks') zs qs"
  using assms(1) by (rule list.rel_mono_strong) (use assms(2) in \<open>auto simp: entry_ok_def\<close>)

lemma list_all2_left: "list_all2 R xs ys \<Longrightarrow> x \<in> set xs \<Longrightarrow> \<exists>y. R x y"
  by (induction rule: list_all2_induct) auto

lemma load_bytes_each:
  "load_bytes nm me bases a n = Some xs \<Longrightarrow> k < n \<Longrightarrow> load nm me bases (a + of_nat k) \<noteq> None"
proof (induction n arbitrary: a xs k)
  case (Suc n)
  then obtain ys where "load_bytes nm me bases (a + 1) n = Some ys" "load nm me bases a \<noteq> None"
    by (auto simp: bind_eq_Some_conv)
  with Suc.IH [of "a + 1" ys] Suc.prems(2) show ?case by (cases k) (simp_all add: add.assoc)
qed simp

lemma job_ok_frame:
  assumes "list_all2 (job_ok n L d nm cl) js ys"
    and kept: "priv_kept nm nm'"
  shows "list_all2 (job_ok n L d nm' cl) js ys"
  using assms(1)
proof (rule list.rel_mono_strong)
  fix j y assume y: "job_ok n L d nm cl j y"
  obtain p off xs where p: "y = (p, off, xs)" by (cases y)
  let ?bases = "cl_shared_memory cl" and ?me = "cl_me cl"
  have l: "load_bytes nm ?me ?bases (j_src j) (length xs) = Some xs" "priv_area ?bases (j_src j) (length xs)"
    using y by (simp_all add: p job_ok_def)
  have "load_bytes nm' ?me ?bases (j_src j) (length xs) = load_bytes nm ?me ?bases (j_src j) (length xs)"
  proof (rule load_bytes_frame)
    fix k assume k: "k < length xs"
    have a: "mapping_of ?bases (j_src j + of_nat k) = None" using l(2) k unfolding priv_area_def by blast
    with load_bytes_each [OF l(1) k] kept
    show "load nm' ?me ?bases (j_src j + of_nat k) = load nm ?me ?bases (j_src j + of_nat k)" by (simp add: load_def priv_kept_def)
  qed
  with y show "job_ok n L d nm' cl j y" by (simp add: p job_ok_def)
qed

lemma malloc_packet_Some:
  assumes "malloc_packet st k = Some (p, st')"
  shows "cr_packets st p = None" and "\<exists>rest. st' = st\<lparr>cr_answers := rest, cr_packets := (cr_packets st)(p \<mapsto> k)\<rparr>"
  using assms take_answer_cases(3) [of "r_used st" "cr_answers st"]
  by (auto simp: malloc_packet_def r_used_def split: prod.splits if_splits)

lemma lanes_mem:
  assumes "lanes n L p nm s qs js" and "priv_kept nm m"
  shows "lanes n L p m s qs js"
  using assms by (auto simp: lanes_def waiting_def intro: job_ok_frame)

text \<open>What no step of the threads changes at a PE.\<close>

definition same_pe :: "pe_state \<Rightarrow> pe_state \<Rightarrow> bool" where
  "same_pe s t \<longleftrightarrow> ps_node t = ps_node s \<and> ps_local t = ps_local s \<and> ps_psync t = ps_psync s \<and>
     cr_my_pe (ps_remote t) = cr_my_pe (ps_remote s) \<and> cr_n_pes (ps_remote t) = cr_n_pes (ps_remote s)"

lemma same_pe_refl [simp]: "same_pe s s"
  by (simp add: same_pe_def)

text \<open>\<open>comm_put\<close> to another node.\<close>

lemma lanes_put:
  assumes ln: "lanes n L p nm s qs js" and q: "q < n" "apart L p q" and off: "off + unat sz \<le> SYMMETRIC_HEAP_SIZE"
    and src: "load_bytes nm (me_of s) (maps_of s) src (unat sz) = Some xs"
    and put: "comm_put (of_nat off) src sz (of_nat q) (nm, s) = Some (m, t)"
  shows "m = nm \<and> lanes n L p nm t (qs @ [(q, off, xs)]) js \<and> same_pe s t \<and>
    cr_in (ps_remote t) = cr_in (ps_remote s) \<and> cr_out (ps_remote t) = cr_out (ps_remote s)"
proof -
  let ?k = "\<lparr>pk_handler = HANDLER_PUT, pk_origin = cr_my_pe (ps_remote s), pk_request_index = 0, pk_size = sz,
    pk_heap_offset = of_nat off, pk_data = xs\<rparr>"
  have st: "pe_static n L p s" and qd: "queued n L p (ps_remote s) qs" using ln by (simp_all add: lanes_def)
  obtain mp where mp: "comm_node_map (ps_node s) (of_nat q) = Some mp" "lm_type mp \<noteq> PE_TYPE_LOCAL"
    using st q unfolding pe_static_def by metis
  then obtain cr where cr: "comm_remote_put nm (me_of s) (maps_of s) (of_nat q) (of_nat off) src sz (ps_remote s) = Some cr"
    and m: "m = nm" "t = s\<lparr>ps_remote := cr\<rparr>"
    using put by (auto simp: comm_put_def bind_eq_Some_conv)
  obtain ptr st1 where 1: "malloc_packet (ps_remote s) ?k = Some (ptr, st1)" "comm_thread_enqueue st1 (of_nat q, ptr) = Some cr"
    using cr src by (auto simp: comm_remote_put_def bind_eq_Some_conv)
  note mal = malloc_packet_Some [OF 1(1)]
  obtain rest where st1: "st1 = (ps_remote s)\<lparr>cr_answers := rest, cr_packets := (cr_packets (ps_remote s))(ptr \<mapsto> ?k)\<rparr>"
    using mal(2) by blast
  obtain zs where zs: "pq_rep (ps_remote s) zs" "distinct (map snd zs)" "list_all2 (entry_ok n L p (cr_packets (ps_remote s))) zs qs"
    using qd by (auto simp: queued_def)
  have "pq_rep st1 zs" using zs(1) pq_rep_cong [of st1 "ps_remote s"] by (simp add: st1)
  note e = comm_thread_enqueue_Some [OF this 1(2)]
  have new: "ptr \<notin> snd ` set zs"
    using list_all2_left [OF zs(3)] mal(1) by (fastforce simp: entry_ok_def)
  have k: "carries p ?k (off, xs)"
    using st off load_bytes_length [OF src] by (simp add: carries_def pe_static_def)
  have pk: "cr_packets cr = (cr_packets (ps_remote s))(ptr \<mapsto> ?k)" using e(2) by (simp add: queue_only_def st1)
  have "list_all2 (entry_ok n L p (cr_packets cr)) zs qs"
    by (rule entry_ok_frame [OF zs(3)]) (use new in \<open>auto simp: pk image_iff\<close>)
  hence "list_all2 (entry_ok n L p (cr_packets cr)) (zs @ [(of_nat q, ptr)]) (qs @ [(q, off, xs)])"
    using q k by (intro list_all2_appendI) (auto simp: entry_ok_def pk)
  moreover have "distinct (map snd (zs @ [(of_nat q, ptr)]))" using zs(2) new by simp
  ultimately have "queued n L p cr (qs @ [(q, off, xs)])" using e(1) unfolding queued_def by blast
  moreover have "pe_static n L p t"
    using st pe_static_cong [of t s] e(2) by (simp add: m st1 queue_only_def)
  moreover have "cr_out cr = cr_out (ps_remote s)" "cr_in cr = cr_in (ps_remote s)" using e(2) by (simp_all add: queue_only_def st1)
  moreover have "same_pe s t" using e(2) by (simp add: m st1 queue_only_def same_pe_def)
  ultimately show ?thesis using ln by (simp add: lanes_def m waiting_def)
qed

text \<open>Streams: appending a packet, and taking the first one off.\<close>

lemma stream_append: "stream p bs xs \<Longrightarrow> carries p k x \<Longrightarrow> stream p (bs @ encode_packet k) (xs @ [x])"
  unfolding stream_def
proof (elim exE conjE)
  fix ks assume "bs = concat (map encode_packet ks)" "list_all2 (carries p) ks xs" "carries p k x"
  thus "\<exists>ks. bs @ encode_packet k = concat (map encode_packet ks) \<and> list_all2 (carries p) ks (xs @ [x])"
    by (intro exI [of _ "ks @ [k]"]) (auto intro: list_all2_appendI)
qed

lemma encode_packet_inject:
  assumes "encode_packet k @ rest = encode_packet k' @ rest'" and "whole k" "whole k'"
  shows "k = k' \<and> rest = rest'"
proof -
  have h: "k\<lparr>pk_data := []\<rparr> = k'\<lparr>pk_data := []\<rparr>"
    using decode_encode(1) [of k rest] decode_encode(1) [of k' rest'] assms(1) by simp
  hence sz: "pk_size k = pk_size k'" by (cases k; cases k') simp
  have "pk_data k @ rest = pk_data k' @ rest'"
    using decode_encode(2) [of k rest] decode_encode(2) [of k' rest'] assms(1) by simp
  hence d: "pk_data k = pk_data k' \<and> rest = rest'" using assms(2,3) sz by (simp add: whole_def append_eq_append_conv)
  with h show ?thesis by (cases k; cases k') simp
qed

lemma stream_first:
  assumes "stream p (encode_packet k @ rest) xs" and "whole k"
  obtains x ys where "xs = x # ys" "carries p k x" "stream p rest ys"
proof -
  obtain ks where ks: "encode_packet k @ rest = concat (map encode_packet ks)" "list_all2 (carries p) ks xs"
    using assms(1) by (auto simp: stream_def)
  have "ks \<noteq> []" using ks(1) by (auto simp: encode_packet_def)
  then obtain k' ks' where k': "ks = k' # ks'" by (cases ks) auto
  then obtain x ys where x: "xs = x # ys" "carries p k' x" "list_all2 (carries p) ks' ys"
    using ks(2) by (auto simp: list_all2_Cons1)
  have "whole k'" using x(2) by (simp add: carries_def whole_def)
  with encode_packet_inject [of k rest k' "concat (map encode_packet ks')"] ks(1) assms(2) k'
  have "k = k'" "rest = concat (map encode_packet ks')" by simp_all
  with x show thesis by (intro that) (auto simp: stream_def)
qed

lemma has_packet_encode:
  assumes "whole k"
  shows "has_packet (encode_packet k @ rest)" "first_packet (encode_packet k @ rest) = k" "after_packet (encode_packet k @ rest) = rest"
proof -
  have d: "decode_header (take sizeof_packet (encode_packet k @ rest)) = k\<lparr>pk_data := []\<rparr>"
    "drop sizeof_packet (encode_packet k @ rest) = pk_data k @ rest" by (rule decode_encode)+
  show f: "first_packet (encode_packet k @ rest) = k" using assms unfolding first_packet_def Let_def d by (simp add: whole_def)
  have "drop (sizeof_packet + length (pk_data k)) (encode_packet k @ rest) = drop (length (pk_data k)) (pk_data k @ rest)"
    by (simp only: d(2) flip: drop_drop add.commute [of _ sizeof_packet])
  thus a: "after_packet (encode_packet k @ rest) = rest" by (simp add: after_packet_def f)
  show "has_packet (encode_packet k @ rest)" using assms by (simp add: has_packet_def f a)
qed

lemma stream_has_packet:
  assumes "stream p bs xs" and "bs \<noteq> []"
  shows "has_packet bs"
proof -
  obtain ks where ks: "bs = concat (map encode_packet ks)" "list_all2 (carries p) ks xs" using assms(1) by (auto simp: stream_def)
  with assms(2) obtain k ks' where k: "ks = k # ks'" "\<exists>x. carries p k x" by (cases ks) (auto simp: list_all2_Cons1)
  hence "whole k" by (auto simp: carries_def whole_def)
  with has_packet_encode(1) k(1) ks(1) show ?thesis by simp
qed

text \<open>One turn of the sender.\<close>

lemma lanes_send:
  assumes ln: "lanes n L p nm s qs js" and ne: "cr_queue_send (ps_remote s) \<noteq> NULL"
  obtains q x qs' k where "qs = (q, x) # qs'" "q < n" "apart L p q" "carries p k x"
    "\<And>wr. \<exists>t. send_turn wr s = Some t \<and> same_pe s t \<and> lanes n L p nm t qs' js \<and> cr_in (ps_remote t) = cr_in (ps_remote s) \<and>
      cr_out (ps_remote t) = (cr_out (ps_remote s))[ly_index L p q :=
        cr_out (ps_remote s) ! ly_index L p q @ take (wr (length (encode_packet k))) (encode_packet k)] \<and>
      (write_full wr s \<longleftrightarrow> length (encode_packet k) \<le> wr (length (encode_packet k)))"
proof -
  let ?cr = "ps_remote s"
  have st: "pe_static n L p s" and qd: "queued n L p ?cr qs" using ln by (simp_all add: lanes_def)
  obtain zs where zs: "pq_rep ?cr zs" "distinct (map snd zs)" "list_all2 (entry_ok n L p (cr_packets ?cr)) zs qs"
    using qd by (auto simp: queued_def)
  have "zs \<noteq> []" using zs(1) ne by (auto simp: pq_rep_def)
  then obtain z zs' where z: "zs = z # zs'" by (cases zs) auto
  then obtain y qs' where y: "qs = y # qs'" "entry_ok n L p (cr_packets ?cr) z y" "list_all2 (entry_ok n L p (cr_packets ?cr)) zs' qs'"
    using zs(3) by (auto simp: list_all2_Cons1)
  obtain q x where qx: "y = (q, x)" by (cases y)
  obtain k where k: "fst z = of_nat q" "q < n" "apart L q p" "cr_packets ?cr (snd z) = Some k" "carries p k x"
    using y(2) by (auto simp: entry_ok_def qx)
  obtain cells h where dq: "comm_thread_dequeue ?cr = Some (Some z, ?cr\<lparr>cr_queue_send := h, cr_cells := cells\<rparr>)"
    "pq_rep (?cr\<lparr>cr_queue_send := h, cr_cells := cells\<rparr>) zs'"
    by (rule comm_thread_dequeue_Cons [OF zs(1) [unfolded z]])
  let ?cr1 = "?cr\<lparr>cr_queue_send := h, cr_cells := cells\<rparr>"
  have ixq: "ly_index L p q < length (cr_out ?cr)" "remote_index (ps_node s) (of_nat q) = Some (ly_index L p q)"
    "length (cr_request_indices ?cr) = length (cr_out ?cr)"
    using pe_static_sock [OF st k(2,3)] by blast+
  let ?r = "cr_request_indices ?cr ! ly_index L p q + 1"
  let ?k = "k\<lparr>pk_request_index := ?r\<rparr>"
  have len: "length (encode_packet k) = length (encode_packet ?k)" by (simp add: length_encode_packet)
  have full: "write_full wr s \<longleftrightarrow> length (encode_packet ?k) \<le> wr (length (encode_packet ?k))" for wr
    using dq(1) k(4) len by (cases z) (simp add: write_full_def)
  have turn: "\<exists>t. send_turn wr s = Some t \<and> same_pe s t \<and> lanes n L p nm t qs' js \<and> cr_in (ps_remote t) = cr_in (ps_remote s) \<and>
      cr_out (ps_remote t) = (cr_out (ps_remote s))[ly_index L p q :=
        cr_out (ps_remote s) ! ly_index L p q @ take (wr (length (encode_packet ?k))) (encode_packet ?k)] \<and>
      (write_full wr s \<longleftrightarrow> length (encode_packet ?k) \<le> wr (length (encode_packet ?k)))" for wr
  proof -
    let ?cr2 = "?cr1\<lparr>cr_request_indices := (cr_request_indices ?cr)[ly_index L p q := ?r],
      cr_out := (cr_out ?cr)[ly_index L p q := cr_out ?cr ! ly_index L p q @ take (wr (length (encode_packet ?k))) (encode_packet ?k)],
      cr_packets := (cr_packets ?cr)(snd z := None)\<rparr>"
    have "send_packet (ps_node s) wr z ?cr1 = Some ?cr2"
      using send_packet_bytes [of "ps_node s" "fst z" "ly_index L p q" ?cr1 "snd z" k wr] k(1,4) ixq by (cases z) (simp add: Let_def)
    hence turn: "send_turn wr s = Some (s\<lparr>ps_remote := ?cr2\<rparr>)" using dq(1) by (simp add: send_turn_def)
    have "pq_rep ?cr2 zs'" using dq(2) pq_rep_cong [of ?cr2 ?cr1 zs'] by simp
    moreover have "list_all2 (entry_ok n L p (cr_packets ?cr2)) zs' qs'"
      by (rule entry_ok_frame [OF y(3)]) (use zs(2) z in \<open>auto simp: image_iff\<close>)
    ultimately have "queued n L p ?cr2 qs'" using zs(2) z unfolding queued_def by (intro exI [of _ zs']) simp
    moreover have "pe_static n L p (s\<lparr>ps_remote := ?cr2\<rparr>)" using st pe_static_cong [of "s\<lparr>ps_remote := ?cr2\<rparr>" s] by simp
    ultimately have "lanes n L p nm (s\<lparr>ps_remote := ?cr2\<rparr>) qs' js" using ln by (simp add: lanes_def waiting_def)
    with turn full [of wr] show ?thesis by (auto simp: same_pe_def)
  qed
  have "carries p ?k x" using k(5) by (simp add: carries_def)
  with y(1) k(2,3) qx turn show thesis by (intro that [of q x qs' ?k]) auto
qed

text \<open>The network takes bytes off one socket and puts them on another.\<close>

lemma lanes_sockets: "lanes n L p nm s qs js \<Longrightarrow> lanes n L p nm (set_out i bs s) qs js"
  "lanes n L p nm s qs js \<Longrightarrow> lanes n L p nm (set_in i bs s) qs js"
  using pe_static_cong [of "set_out i bs s" s] pe_static_cong [of "set_in i bs s" s]
    pq_rep_cong [of "ps_remote (set_out i bs s)" "ps_remote s"] pq_rep_cong [of "ps_remote (set_in i bs s)" "ps_remote s"]
  by (auto simp: lanes_def queued_def waiting_def set_out_def set_in_def)

text \<open>One turn of the receiver.\<close>

lemma lanes_receive:
  assumes ln: "lanes n L p nm s qs js" and q: "q < n" "apart L q p" and k: "whole k"
    and inp: "cr_in (ps_remote s) ! ly_index L p q = encode_packet k @ rest" and x: "carries q k x"
    and buf: "buffer_ready (me_of s) (maps_of s) nm (ps_remote s) buf (unat (pk_size k))"
    and room: "w_room (ps_work s) 2"
  obtains m t where "receive_turn junk (ly_index L p q) (nm, s) = Some (m, t)" "lanes n L p m t qs (js @ [(q, x)])"
    "nm_heap m = nm_heap nm" "same_pe s t" "priv_kept nm m" "cr_out (ps_remote t) = cr_out (ps_remote s)"
    "cr_in (ps_remote t) = (cr_in (ps_remote s))[ly_index L p q := rest]"
proof -
  have st: "pe_static n L p s" using ln by (simp add: lanes_def)
  obtain jl where jl: "work_rep (ps_work s) jl" "list_all2 (job_ok n L p nm (ps_local s)) jl js"
    using ln by (auto simp: lanes_def waiting_def)
  have len: "ly_index L p q < length (cr_in (ps_remote s))" using pe_static_sock(1,5) [OF st q] by simp
  have sz: "unat (pk_size k) < 2 ^ 63" using x by (simp add: carries_def SYMMETRIC_HEAP_SIZE_def)
  let ?j = "\<lparr>j_handler = pk_handler k, j_dest_pe = cr_my_pe (ps_remote s), j_origin_pe = pk_origin k,
    j_dest = pk_heap_offset k, j_src = buf, j_size = pk_size k\<rparr>"
  let ?cr = "(ps_remote s)\<lparr>cr_in := (cr_in (ps_remote s))[ly_index L p q := rest], cr_buffers := tl (cr_buffers (ps_remote s))\<rparr>"
  obtain m' ws where r: "receive_from junk (me_of s) (maps_of s) (ly_index L p q) (nm, ps_remote s, ps_work s) = Some (m', ?cr, ws)"
    "load_bytes m' (me_of s) (maps_of s) buf (unat (pk_size k)) = Some (pk_data k)"
    "priv_kept nm m'" "work_rep ws (jl @ [?j])"
    "nm_heap m' = nm_heap nm"
    using receive_from_packet_frame [OF inp len k [unfolded whole_def] sz buf jl(1) room, of junk] by blast
  define t where t: "t = s\<lparr>ps_remote := ?cr, ps_work := ws\<rparr>"
  have turn: "receive_turn junk (ly_index L p q) (nm, s) = Some (m', t)" using r(1) by (simp add: receive_turn_def t)
  have "job_ok n L p m' (ps_local s) ?j (q, x)"
    using x r(2) q buf st by (cases x) (simp add: job_ok_def carries_def buffer_ready_def pe_static_def)
  moreover have "list_all2 (job_ok n L p m' (ps_local s)) jl js" by (rule job_ok_frame [OF jl(2) r(3)])
  ultimately have "waiting n L p m' t (js @ [(q, x)])"
    using r(4) t by (auto simp: waiting_def intro!: exI [of _ "jl @ [?j]"] list_all2_appendI)
  moreover have "pe_static n L p t" using st pe_static_cong [of t s] by (simp add: t)
  moreover have "queued n L p (ps_remote t) qs"
    using ln pq_rep_cong [of "ps_remote t" "ps_remote s"] by (simp add: lanes_def queued_def t)
  moreover have "same_pe s t" by (simp add: t same_pe_def)
  ultimately show thesis using r(3,5) by (intro that [OF turn]) (auto simp: lanes_def t)
qed

text \<open>One turn of the worker.\<close>

lemma lanes_work:
  assumes ln: "lanes n L p nm s qs js" and n: "n < 2 ^ 31" and p: "p < n"
    and j: "work_thread_turn (ps_work s) = Some (Some j, ws)"
  obtains m t q x js' where "worker_turn (nm, s) = Some (m, t)" "js = (q, x) # js'" "unat (j_origin_pe j) = q"
    "unat (j_dest j) = fst x" "heap_bytes m (me_of t) (fst x) (unat (j_size j)) = snd x" "q < n" "apart L q p"
    "lanes n L p m t qs js'" "cr_out (ps_remote t) = cr_out (ps_remote s)" "cr_in (ps_remote t) = cr_in (ps_remote s)" "m = put_heap nm (me_of s) (fst x) (snd x)" "same_pe s t"
proof -
  have st: "pe_static n L p s" using ln by (simp add: lanes_def)
  obtain jl where jl: "work_rep (ps_work s) jl" "list_all2 (job_ok n L p nm (ps_local s)) jl js"
    using ln by (auto simp: lanes_def waiting_def)
  have "jl \<noteq> []" using work_thread_turn_Nil jl(1) j by fastforce
  then obtain j0 jl' where j0: "jl = j0 # jl'" by (cases jl) auto
  then obtain ws' where ws': "work_thread_turn (ps_work s) = Some (Some j0, ws')" "work_rep ws' jl'"
    using work_thread_turn_Cons jl(1) by blast
  hence eq: "j0 = j" "ws' = ws" using j by simp_all
  obtain y js' where y: "js = y # js'" "job_ok n L p nm (ps_local s) j y" "list_all2 (job_ok n L p nm (ps_local s)) jl' js'"
    using jl(2) unfolding j0 eq by (auto simp: list_all2_Cons1)
  obtain q off xs where qx: "y = (q, off, xs)" by (cases y)
  have ok: "q < n" "apart L q p" "j_handler j = HANDLER_PUT" "j_dest_pe j = of_nat p" "j_origin_pe j = of_nat q" "j_dest j = of_nat off"
    "unat (j_size j) = length xs" "off + length xs \<le> SYMMETRIC_HEAP_SIZE" "priv_area (maps_of s) (j_src j) (length xs)"
    "load_bytes nm (me_of s) (maps_of s) (j_src j) (length xs) = Some xs" using y(2) by (simp_all add: qx job_ok_def)
  obtain b where b: "local_pe (ps_node s) (ps_local s) (of_nat p) (me_of s) b"
    using pe_static_local(2) [OF st p] pe_static_local(1) [OF st] by auto
  then obtain mp where mp: "comm_node_map (ps_node s) (of_nat p) = Some mp" "lm_type mp = PE_TYPE_LOCAL"
    by (auto simp: local_pe_def)
  have "comm_local_put (ps_node s) (ps_local s) (of_nat p) (of_nat off) (j_src j) (j_size j) nm =
      Some (put_heap nm (me_of s) off xs)"
    by (rule comm_local_put_stores [OF b]) (use ok in simp_all)
  hence "work_thread_execute comm_put j (nm, s\<lparr>ps_work := ws\<rparr>) = Some (put_heap nm (me_of s) off xs, s\<lparr>ps_work := ws\<rparr>)"
    using mp ok(3,4,6) by (simp add: work_thread_execute_def comm_put_def)
  hence turn: "worker_turn (nm, s) = Some (put_heap nm (me_of s) off xs, s\<lparr>ps_work := ws\<rparr>)" using j by (simp add: worker_turn_def)
  define m t where t: "m = put_heap nm (me_of s) off xs" "t = s\<lparr>ps_work := ws\<rparr>"
  have "list_all2 (job_ok n L p m (ps_local s)) jl' js'" by (rule job_ok_frame [OF y(3)]) (simp add: t)
  hence "waiting n L p m t js'" using ws'(2) eq by (auto simp: waiting_def t)
  moreover have "pe_static n L p t" using st pe_static_cong [of t s] by (simp add: t)
  ultimately have "lanes n L p m t qs js'" using ln by (simp add: lanes_def t)
  moreover have "unat (j_origin_pe j) = q" using ok(1,5) n by (simp add: unat_of_nat)
  moreover have "unat (j_dest j) = off" using ok(6,8) by (simp add: unat_of_nat SYMMETRIC_HEAP_SIZE_def)
  moreover have "heap_bytes m (me_of t) off (unat (j_size j)) = xs" using ok(7) heap_bytes_put_heap by (simp add: t)
  moreover have "js = (q, off, xs) # js'" using y(1) qx by simp
  ultimately show thesis using ok(1,2) by (intro that [OF turn [folded t]]) (auto simp: t same_pe_def)
qed

section \<open>All PEs\<close>

text \<open>
  What the queues and sockets of all PEs hold, and the heaps, as lists and functions, and how
  the threads move a put along: from the send queue to the connection between the two PEs, to
  the job queue, into the heap.
\<close>

record lane_state =
  la_send :: "nat \<Rightarrow> (nat \<times> nat \<times> byte list) list"
  la_sock :: "nat \<Rightarrow> nat \<Rightarrow> (nat \<times> byte list) list"
  la_jobs :: "nat \<Rightarrow> (nat \<times> nat \<times> byte list) list"
  la_heap :: "nat \<Rightarrow> nat \<Rightarrow> byte"

definition bytes_at :: "nat \<Rightarrow> byte list \<Rightarrow> (nat \<Rightarrow> byte) \<Rightarrow> nat \<Rightarrow> byte" where
  "bytes_at off xs h = (\<lambda>k. if off \<le> k \<and> k < off + length xs then xs ! (k - off) else h k)"

inductive lane_move :: "nat \<Rightarrow> layout \<Rightarrow> lane_state \<Rightarrow> lane_state \<Rightarrow> bool" for n L where
  ln_sent: "p < n \<Longrightarrow> q < n \<Longrightarrow> apart L p q \<Longrightarrow> la_send a p = (q, x) # qs \<Longrightarrow>
    lane_move n L a (a\<lparr>la_send := (la_send a)(p := qs), la_sock := put2 p q (la_sock a p q @ [x]) (la_sock a)\<rparr>)"
| ln_received: "p < n \<Longrightarrow> q < n \<Longrightarrow> apart L p q \<Longrightarrow> la_sock a p q = x # xs \<Longrightarrow>
    lane_move n L a (a\<lparr>la_sock := put2 p q xs (la_sock a), la_jobs := (la_jobs a)(q := la_jobs a q @ [(p, x)])\<rparr>)"
| ln_worked: "p < n \<Longrightarrow> d < n \<Longrightarrow> apart L p d \<Longrightarrow> la_jobs a d = (p, off, xs) # js \<Longrightarrow>
    lane_move n L a (a\<lparr>la_jobs := (la_jobs a)(d := js), la_heap := (la_heap a)(d := bytes_at off xs (la_heap a d))\<rparr>)"

definition lane_put :: "nat \<Rightarrow> nat \<Rightarrow> nat \<times> byte list \<Rightarrow> lane_state \<Rightarrow> lane_state" where
  "lane_put p q x a = a\<lparr>la_send := (la_send a)(p := la_send a p @ [(q, x)])\<rparr>"

definition lane_store :: "nat \<Rightarrow> nat \<times> byte list \<Rightarrow> lane_state \<Rightarrow> lane_state" where
  "lane_store d x a = a\<lparr>la_heap := (la_heap a)(d := bytes_at (fst x) (snd x) (la_heap a d))\<rparr>"

inductive lane_step :: "nat \<Rightarrow> layout \<Rightarrow> lane_state \<Rightarrow> lane_state \<Rightarrow> bool" for n L where
  ln_put: "p < n \<Longrightarrow> q < n \<Longrightarrow> apart L p q \<Longrightarrow> lane_step n L a (lane_put p q x a)"
| ln_store: "d < n \<Longrightarrow> lane_step n L a (lane_store d x a)"
| ln_move: "lane_move n L a b \<Longrightarrow> lane_step n L a b"

definition lane_start :: "lane_state \<Rightarrow> bool" where
  "lane_start a \<longleftrightarrow> la_send a = (\<lambda>_. []) \<and> la_sock a = (\<lambda>_ _. []) \<and> la_jobs a = (\<lambda>_. [])"

text \<open>What is on its way from \<open>p\<close> to \<open>d\<close> is between the puts performed and the puts made.\<close>

definition on_lane :: "lane_state \<Rightarrow> nat \<Rightarrow> nat \<Rightarrow> (nat \<times> byte list) list" where
  "on_lane a p d = sel p (la_jobs a d) @ la_sock a p d @ sel d (la_send a p)"

definition own_heap :: "layout \<Rightarrow> transport \<Rightarrow> nat \<Rightarrow> nat \<Rightarrow> byte" where
  "own_heap L s p = nm_heap (mem_at L s p) (ly_local L p)"

text \<open>The bytes between \<open>p\<close> and \<open>q\<close>: those that have arrived, and those that have not.\<close>

definition sock_bytes :: "layout \<Rightarrow> transport \<Rightarrow> nat \<Rightarrow> nat \<Rightarrow> byte list" where
  "sock_bytes L s p q = cr_in (ps_remote (tp_pe s q)) ! ly_index L q p @ cr_out (ps_remote (tp_pe s p)) ! ly_index L p q"

definition tp_rep :: "nat \<Rightarrow> layout \<Rightarrow> transport \<Rightarrow> lane_state \<Rightarrow> bool" where
  "tp_rep n L s a \<longleftrightarrow> n < 2 ^ 31 \<and> layout_ok n L \<and>
     (\<forall>p < n. lanes n L p (mem_at L s p) (tp_pe s p) (la_send a p) (la_jobs a p) \<and> la_heap a p = own_heap L s p) \<and>
     (\<forall>p < n. \<forall>d < n. apart L p d \<longrightarrow> tp_made s p d = tp_done s p d @ on_lane a p d \<and>
       stream p (sock_bytes L s p d) (la_sock a p d))"

lemma tp_repI:
  assumes "n < 2 ^ 31" "layout_ok n L"
    and "\<And>p. p < n \<Longrightarrow> lanes n L p (mem_at L s p) (tp_pe s p) (la_send a p) (la_jobs a p)"
    and "\<And>p. p < n \<Longrightarrow> la_heap a p = own_heap L s p"
    and "\<And>p d. p < n \<Longrightarrow> d < n \<Longrightarrow> apart L p d \<Longrightarrow> tp_made s p d = tp_done s p d @ on_lane a p d"
    and "\<And>p d. p < n \<Longrightarrow> d < n \<Longrightarrow> apart L p d \<Longrightarrow> stream p (sock_bytes L s p d) (la_sock a p d)"
  shows "tp_rep n L s a"
  using assms by (simp add: tp_rep_def)

lemma tp_repD:
  assumes "tp_rep n L s a"
  shows "p < n \<Longrightarrow> lanes n L p (mem_at L s p) (tp_pe s p) (la_send a p) (la_jobs a p)"
    and "p < n \<Longrightarrow> d < n \<Longrightarrow> apart L p d \<Longrightarrow> tp_made s p d = tp_done s p d @ on_lane a p d"
    and "p < n \<Longrightarrow> la_heap a p = own_heap L s p" and "n < 2 ^ 31" and "layout_ok n L"
    and "p < n \<Longrightarrow> me_of (tp_pe s p) = ly_local L p"
    and "p < n \<Longrightarrow> d < n \<Longrightarrow> apart L p d \<Longrightarrow> stream p (sock_bytes L s p d) (la_sock a p d)"
    and "p < n \<Longrightarrow> pe_static n L p (tp_pe s p)"
  using assms by (auto simp: tp_rep_def lanes_def pe_static_def)

text \<open>A turn of PE \<open>p\<close> that leaves \<open>m\<close> as the memory of its node.\<close>

lemma tp_rep_turn:
  assumes rep: "tp_rep n L s a" and p: "p < n" and ln: "lanes n L p m t (la_send b p) (la_jobs b p)"
    and kept: "priv_kept (mem_at L s p) m" and u: "tp_mem u = (tp_mem s)(ly_node L p := m)" "tp_pe u = (tp_pe s)(p := t)"
    and other: "\<And>q. q < n \<Longrightarrow> q \<noteq> p \<Longrightarrow> la_send b q = la_send a q \<and> la_jobs b q = la_jobs a q"
    and heap: "\<And>q. q < n \<Longrightarrow> la_heap b q = own_heap L u q"
    and made: "\<And>q d. q < n \<Longrightarrow> d < n \<Longrightarrow> apart L q d \<Longrightarrow> tp_made u q d = tp_done u q d @ on_lane b q d"
    and sock: "\<And>q d. q < n \<Longrightarrow> d < n \<Longrightarrow> apart L q d \<Longrightarrow> stream q (sock_bytes L u q d) (la_sock b q d)"
  shows "tp_rep n L u b"
proof (rule tp_repI)
  fix q assume q: "q < n"
  show "lanes n L q (mem_at L u q) (tp_pe u q) (la_send b q) (la_jobs b q)"
  proof (cases "q = p")
    case False
    have "priv_kept (mem_at L s q) (mem_at L u q)" using kept by (cases "apart L q p") (simp_all add: u)
    from lanes_mem [OF tp_repD(1) [OF rep q] this] False other [OF q False] show ?thesis by (simp add: u)
  qed (use ln in \<open>simp add: u\<close>)
qed (use tp_repD(4,5) [OF rep] heap made sock in auto)

text \<open>What the threads have before them: bytes to carry, packets and jobs.\<close>

definition out_left :: "layout \<Rightarrow> transport \<Rightarrow> nat \<Rightarrow> nat \<Rightarrow> nat" where
  "out_left L s p q = (if apart L p q then length (cr_out (ps_remote (tp_pe s p)) ! ly_index L p q) else 0)"

definition tp_load :: "nat \<Rightarrow> layout \<Rightarrow> transport \<Rightarrow> lane_state \<Rightarrow> nat" where
  "tp_load n L s a = (\<Sum>p<n. \<Sum>x\<leftarrow>la_send a p. sizeof_packet + 3 + length (snd (snd x))) + (\<Sum>p<n. \<Sum>d<n. 2 * length (la_sock a p d)) +
     (\<Sum>p<n. \<Sum>d<n. out_left L s p d) + (\<Sum>d<n. length (la_jobs a d))"

lemma out_left_same:
  assumes "tp_pe u = (tp_pe s)(p := t)" "cr_out (ps_remote t) = cr_out (ps_remote (tp_pe s p))"
  shows "out_left L u = out_left L s"
  using assms by (simp add: out_left_def fun_eq_iff)

lemma out_left_out:
  assumes rep: "tp_rep n L s a" and p: "p < n" "q < n" "apart L p q"
    and u: "cr_out (ps_remote (tp_pe u p)) = (cr_out (ps_remote (tp_pe s p)))[ly_index L p q := bs]"
      "\<And>r. r \<noteq> p \<Longrightarrow> cr_out (ps_remote (tp_pe u r)) = cr_out (ps_remote (tp_pe s r))"
  shows "(\<Sum>r<n. \<Sum>d<n. out_left L u r d) + length (cr_out (ps_remote (tp_pe s p)) ! ly_index L p q) =
    (\<Sum>r<n. \<Sum>d<n. out_left L s r d) + length bs"
proof -
  have qp: "apart L q p" using p(3) by simp
  note sock = pe_static_sock [OF tp_repD(8) [OF rep p(1)] p(2) qp]
  have "out_left L u r d = put2 p q (length bs) (out_left L s) r d" if "r < n" "d < n" for r d
  proof -
    have "ly_index L p d \<noteq> ly_index L p q" if "r = p" "d \<noteq> q" "apart L p d" using sock(3) [of d] \<open>d < n\<close> that by auto
    thus ?thesis using sock(1) p(3) u by (cases "r = p") (auto simp: out_left_def)
  qed
  hence "(\<Sum>r<n. \<Sum>d<n. out_left L u r d) = (\<Sum>r<n. \<Sum>d<n. put2 p q (length bs) (out_left L s) r d)" by simp
  with sum_update2 [OF p(1,2), of "\<lambda>k. k" "length bs" "out_left L s"] p(3) show ?thesis by (simp add: out_left_def del: put2_apply)
qed

text \<open>What a turn that uses no socket leaves between two PEs.\<close>

lemma sock_bytes_same:
  assumes "tp_pe u = (tp_pe s)(p := t)" "cr_in (ps_remote t) = cr_in (ps_remote (tp_pe s p))" "cr_out (ps_remote t) = cr_out (ps_remote (tp_pe s p))"
  shows "sock_bytes L u q d = sock_bytes L s q d"
  using assms by (simp add: sock_bytes_def)

lemma sock_bytes_out:
  assumes rep: "tp_rep n L s a" and p: "p < n" "q < n" "apart L p q" and r: "r < n" "d < n" "apart L r d"
    and u: "tp_pe u = (tp_pe s)(p := t)" "cr_in (ps_remote t) = cr_in (ps_remote (tp_pe s p))"
      "cr_out (ps_remote t) = (cr_out (ps_remote (tp_pe s p)))[ly_index L p q := bs]"
  shows "sock_bytes L u r d = (if r = p \<and> d = q then cr_in (ps_remote (tp_pe s q)) ! ly_index L q p @ bs else sock_bytes L s r d)"
proof -
  have qp: "apart L q p" using p(3) by simp
  note sock = pe_static_sock [OF tp_repD(8) [OF rep p(1)] p(2) qp]
  have "ly_index L p d \<noteq> ly_index L p q" if "r = p" "d \<noteq> q" using sock(3) [of d] r that by auto
  thus ?thesis using sock(1) p(3) r(3) u by (auto simp: sock_bytes_def)
qed

lemma sock_bytes_in:
  assumes rep: "tp_rep n L s a" and p: "p < n" "q < n" "apart L p q" and r: "r < n" "d < n" "apart L r d"
    and u: "tp_pe u = (tp_pe s)(q := t)" "cr_out (ps_remote t) = cr_out (ps_remote (tp_pe s q))"
      "cr_in (ps_remote t) = (cr_in (ps_remote (tp_pe s q)))[ly_index L q p := bs]"
  shows "sock_bytes L u r d = (if r = p \<and> d = q then bs @ cr_out (ps_remote (tp_pe s p)) ! ly_index L p q else sock_bytes L s r d)"
proof -
  note sock = pe_static_sock [OF tp_repD(8) [OF rep p(2)] p(1,3)]
  have "ly_index L q r \<noteq> ly_index L q p" if "d = q" "r \<noteq> p" using sock(3) [of r] r that by auto
  thus ?thesis using sock(1,5) p(3) r(3) u by (auto simp: sock_bytes_def)
qed

lemma own_heap_same:
  assumes "tp_mem u = (tp_mem s)(ly_node L p := m)" "nm_heap m = nm_heap (mem_at L s p)"
  shows "own_heap L u q = own_heap L s q"
  using assms by (simp add: own_heap_def)

lemma own_heap_put:
  assumes "layout_ok n L" "d < n" "q < n" and "ly_node L p = ly_node L d"
    and "tp_mem u = (tp_mem s)(ly_node L p := put_heap (mem_at L s p) (ly_local L d) off xs)"
  shows "own_heap L u q = (if q = d then bytes_at off xs (own_heap L s d) else own_heap L s q)"
proof (cases "q = d")
  case False
  hence "apart L q d \<or> ly_local L q \<noteq> ly_local L d" using assms(1-3) unfolding layout_ok_def by blast
  with False assms(4,5) show ?thesis by (auto simp: own_heap_def put_heap_def)
qed (use assms(4,5) in \<open>simp add: own_heap_def put_heap_def bytes_at_def\<close>)

inductive_cases tp_stepE: "tp_step n L junk s t"
inductive_cases tp_threadE: "tp_thread n L junk s t"
inductive_cases lane_moveE: "lane_move n L a b"

lemma tp_rep_start: "tp_start n L s \<Longrightarrow> \<exists>a. lane_start a \<and> tp_rep n L s a"
proof -
  assume st: "tp_start n L s"
  let ?a = "\<lparr>la_send = \<lambda>_. [], la_sock = \<lambda>_ _. [], la_jobs = \<lambda>_. [], la_heap = own_heap L s\<rparr>"
  have "stream p [] []" for p by (simp add: stream_def)
  moreover have "lanes n L p (mem_at L s p) (tp_pe s p) [] []" if "p < n" for p
    using st that by (fastforce simp: tp_start_def lanes_def queued_def waiting_def)
  ultimately have "tp_rep n L s ?a" using st by (intro tp_repI) (simp_all add: on_lane_def tp_start_def sock_bytes_def)
  moreover have "lane_start ?a" by (simp add: lane_start_def)
  ultimately show ?thesis by blast
qed

lemma tp_rep_put:
  assumes rep: "tp_rep n L s a" and q: "p < n" "q < n" "apart L p q" "off + unat sz \<le> SYMMETRIC_HEAP_SIZE"
    and src: "load_bytes (mem_at L s p) (me_of (tp_pe s p)) (maps_of (tp_pe s p)) src (unat sz) = Some xs"
    and put: "comm_put (of_nat off) src sz (of_nat q) (mem_at L s p, tp_pe s p) = Some (m, t)"
  shows "tp_rep n L (tp_log p q (off, xs) (tp_with L p m t s)) (lane_put p q (off, xs) a)" (is "tp_rep n L ?u ?b")
    and "same_pe (tp_pe s p) t"
proof -
  note l = lanes_put [OF tp_repD(1) [OF rep q(1)] q(2-4) src put]
  have u: "tp_mem ?u = (tp_mem s)(ly_node L p := m)" "tp_pe ?u = (tp_pe s)(p := t)" by (simp_all add: tp_log_def tp_with_def)
  show "tp_rep n L ?u ?b"
  proof (rule tp_rep_turn [OF rep q(1) _ _ u])
    show "la_heap ?b r = own_heap L ?u r" if "r < n" for r
      using tp_repD(3) [OF rep that] own_heap_same [OF u(1)] l by (simp add: lane_put_def)
    show "stream r (sock_bytes L ?u r d) (la_sock ?b r d)" if "r < n" "d < n" "apart L r d" for r d
      using tp_repD(7) [OF rep that] sock_bytes_same [OF u(2), of L] l by (simp add: lane_put_def)
    show "tp_made ?u r d = tp_done ?u r d @ on_lane ?b r d" if "r < n" "d < n" "apart L r d" for r d
      using tp_repD(2) [OF rep that] by (auto simp: tp_log_def tp_with_def lane_put_def on_lane_def)
  qed (use l in \<open>simp_all add: lane_put_def\<close>)
  show "same_pe (tp_pe s p) t" using l by blast
qed

text \<open>\<open>comm_put\<close> within the node.\<close>

lemma tp_rep_store:
  assumes rep: "tp_rep n L s a" and q: "p < n" "q < n" "\<not> apart L p q" "off + unat sz \<le> SYMMETRIC_HEAP_SIZE"
    and src: "load_bytes (mem_at L s p) (me_of (tp_pe s p)) (maps_of (tp_pe s p)) src (unat sz) = Some xs"
      "priv_area (maps_of (tp_pe s p)) src (unat sz)"
    and put: "comm_put (of_nat off) src sz (of_nat q) (mem_at L s p, tp_pe s p) = Some (m, t)"
  shows "t = tp_pe s p" and "m = put_heap (mem_at L s p) (ly_local L q) off xs"
proof -
  have "pe_static n L p (tp_pe s p)" using tp_repD(1) [OF rep q(1)] by (simp add: lanes_def)
  from pe_static_local(2) [OF this q(2,3)] obtain b where
    b: "local_pe (ps_node (tp_pe s p)) (ps_local (tp_pe s p)) (of_nat q) (ly_local L q) b" by blast
  then obtain mp where "comm_node_map (ps_node (tp_pe s p)) (of_nat q) = Some mp" "lm_type mp = PE_TYPE_LOCAL"
    by (auto simp: local_pe_def)
  with comm_local_put_stores [OF b q(4) src(2,1)] put
  show "t = tp_pe s p" "m = put_heap (mem_at L s p) (ly_local L q) off xs" by (auto simp: comm_put_def)
qed

text \<open>Any store of a PE in a heap of its node.\<close>

lemma tp_rep_stored:
  assumes rep: "tp_rep n L s a" and q: "p < n" "q < n" "\<not> apart L p q"
  shows "tp_rep n L (tp_with L p (put_heap (mem_at L s p) (ly_local L q) off xs) (tp_pe s p) s) (lane_store q (off, xs) a)"
    (is "tp_rep n L ?u ?b")
proof -
  have u: "tp_mem ?u = (tp_mem s)(ly_node L p := put_heap (mem_at L s p) (ly_local L q) off xs)"
    "tp_pe ?u = (tp_pe s)(p := tp_pe s p)" by (simp_all add: tp_with_def)
  show ?thesis
  proof (rule tp_rep_turn [OF rep q(1) _ priv_kept_put_heap u])
    show "la_heap ?b r = own_heap L ?u r" if "r < n" for r
      using tp_repD(3) [OF rep] own_heap_put [OF tp_repD(5) [OF rep] q(2) that _ u(1)] q(2,3) that
      by (simp add: lane_store_def)
    show "stream r (sock_bytes L ?u r d) (la_sock ?b r d)" if "r < n" "d < n" "apart L r d" for r d
      using tp_repD(7) [OF rep that] sock_bytes_same [OF u(2) refl refl, of L] by (simp add: lane_store_def)
    show "tp_made ?u r d = tp_done ?u r d @ on_lane ?b r d" if "r < n" "d < n" "apart L r d" for r d
      using tp_repD(2) [OF rep that] by (simp add: tp_with_def lane_store_def on_lane_def)
  qed (use lanes_mem [OF tp_repD(1) [OF rep q(1)] priv_kept_put_heap] in \<open>simp_all add: lane_store_def\<close>)
qed

lemma tp_rep_send:
  assumes rep: "tp_rep n L s a" and p: "p < n" "cr_queue_send (ps_remote (tp_pe s p)) \<noteq> NULL" "send_turn wr (tp_pe s p) = Some t"
    and full: "write_full wr (tp_pe s p)" and u: "tp_mem u = tp_mem s" "tp_pe u = (tp_pe s)(p := t)" "tp_made u = tp_made s" "tp_done u = tp_done s"
  shows "\<exists>b. lane_move n L a b \<and> tp_rep n L u b \<and> same_pe (tp_pe s p) t \<and> tp_load n L u b < tp_load n L s a"
proof -
  obtain q x qs k where q: "la_send a p = (q, x) # qs" "q < n" "apart L p q" "carries p k x"
    and turn: "\<And>wr. \<exists>t. send_turn wr (tp_pe s p) = Some t \<and> same_pe (tp_pe s p) t \<and> lanes n L p (mem_at L s p) t qs (la_jobs a p) \<and>
      cr_in (ps_remote t) = cr_in (ps_remote (tp_pe s p)) \<and>
      cr_out (ps_remote t) = (cr_out (ps_remote (tp_pe s p)))[ly_index L p q :=
        cr_out (ps_remote (tp_pe s p)) ! ly_index L p q @ take (wr (length (encode_packet k))) (encode_packet k)] \<and>
      (write_full wr (tp_pe s p) \<longleftrightarrow> length (encode_packet k) \<le> wr (length (encode_packet k)))"
    by (rule lanes_send [OF tp_repD(1) [OF rep p(1)] p(2)]) (rule that)
  have t: "same_pe (tp_pe s p) t" "lanes n L p (mem_at L s p) t qs (la_jobs a p)" "cr_in (ps_remote t) = cr_in (ps_remote (tp_pe s p))"
    "cr_out (ps_remote t) = (cr_out (ps_remote (tp_pe s p)))[ly_index L p q := cr_out (ps_remote (tp_pe s p)) ! ly_index L p q @ encode_packet k]"
    using turn [of wr] p(3) full by auto
  let ?b = "a\<lparr>la_send := (la_send a)(p := qs), la_sock := put2 p q (la_sock a p q @ [x]) (la_sock a)\<rparr>"
  have mem: "tp_mem u = (tp_mem s)(ly_node L p := mem_at L s p)" by (simp add: u)
  have "tp_rep n L u ?b"
  proof (rule tp_rep_turn [OF rep p(1) _ priv_kept_refl mem u(2)])
    show "la_heap ?b r = own_heap L u r" if "r < n" for r
      using tp_repD(3) [OF rep that] own_heap_same [OF mem refl] by simp
    show "tp_made u r d = tp_done u r d @ on_lane ?b r d" if "r < n" "d < n" "apart L r d" for r d
      using tp_repD(2) [OF rep that] q(1) by (auto simp: on_lane_def u)
    show "stream r (sock_bytes L u r d) (la_sock ?b r d)" if "r < n" "d < n" "apart L r d" for r d
      unfolding sock_bytes_out [OF rep p(1) q(2,3) that u(2) t(3,4)]
      using tp_repD(7) [OF rep that] stream_append [OF tp_repD(7) [OF rep p(1) q(2,3)] q(4)] by (simp add: sock_bytes_def)
  qed (use t(2) in simp_all)
  moreover have "lane_move n L a ?b" using p(1) q(1-3) by (intro ln_sent) auto
  moreover have "tp_load n L u ?b < tp_load n L s a"
  proof -
    have "length (encode_packet k) = sizeof_packet + length (snd x)" using q(4) by (simp add: length_encode_packet carries_def)
    hence "(\<Sum>r<n. \<Sum>d<n. out_left L u r d) = (\<Sum>r<n. \<Sum>d<n. out_left L s r d) + sizeof_packet + length (snd x)"
      using out_left_out [OF rep p(1) q(2,3), of u "cr_out (ps_remote (tp_pe s p)) ! ly_index L p q @ encode_packet k"] t(4)
      by (simp add: u(2))
    thus ?thesis using q(1) sum_update [OF p(1), of "\<lambda>_ xs. \<Sum>x\<leftarrow>xs. sizeof_packet + 3 + length (snd (snd x))" "la_send a" qs]
        sum_update2 [OF p(1) q(2), of "\<lambda>xs. 2 * length xs" "la_sock a p q @ [x]" "la_sock a"]
      by (simp add: tp_load_def del: put2_apply)
  qed
  ultimately show ?thesis using t(1) by blast
qed

lemma tp_rep_wire:
  assumes rep: "tp_rep n L s a" and p: "p < n" "q < n" "apart L p q"
    and out: "cr_out (ps_remote (tp_pe s p)) ! ly_index L p q = bs @ rest"
    and u: "u = s\<lparr>tp_pe := (tp_pe s)(p := set_out (ly_index L p q) rest (tp_pe s p),
      q := set_in (ly_index L q p) (cr_in (ps_remote (tp_pe s q)) ! ly_index L q p @ bs) (tp_pe s q))\<rparr>" and ne: "bs \<noteq> []"
  shows "tp_rep n L u a" and "tp_load n L u a < tp_load n L s a"
proof -
  have pq: "p \<noteq> q" using p(3) by auto
  have ln: "lanes n L r (mem_at L u r) (tp_pe u r) (la_send a r) (la_jobs a r)" if "r < n" for r
    using lanes_sockets [OF tp_repD(1) [OF rep that]] tp_repD(1) [OF rep that] pq by (auto simp: u)
  have i: "ly_index L p q < length (cr_out (ps_remote (tp_pe s p)))" "ly_index L q p < length (cr_in (ps_remote (tp_pe s q)))"
    using pe_static_sock(1) [OF tp_repD(8) [OF rep p(1)] p(2)] pe_static_sock(1,5) [OF tp_repD(8) [OF rep p(2)] p(1)] p(3) by auto
  have ix: "ly_index L p d \<noteq> ly_index L p q" if "d < n" "apart L p d" "d \<noteq> q" for d
    using pe_static_sock(3) [OF tp_repD(8) [OF rep p(1)] p(2), of d] p(3) that by auto
  have iy: "ly_index L q d \<noteq> ly_index L q p" if "d < n" "apart L d q" "d \<noteq> p" for d
    using pe_static_sock(3) [OF tp_repD(8) [OF rep p(2)] p(1,3), of d] that by auto
  have "sock_bytes L u r d = sock_bytes L s r d" if "r < n" "d < n" "apart L r d" for r d
    using i ix [of d] iy [of r] that pq out by (auto simp: u sock_bytes_def set_out_def set_in_def)
  with ln show "tp_rep n L u a"
    by (intro tp_repI) (use tp_repD(2-5,7) [OF rep] in \<open>simp_all add: u own_heap_def\<close>)
  have "(\<Sum>r<n. \<Sum>d<n. out_left L u r d) + length bs = (\<Sum>r<n. \<Sum>d<n. out_left L s r d)"
    using out_left_out [OF rep p, of u rest] out pq by (simp add: u set_out_def set_in_def)
  moreover have "0 < length bs" using ne by simp
  ultimately show "tp_load n L u a < tp_load n L s a" unfolding tp_load_def by linarith
qed

lemma buffer_readyI:
  assumes "can_receive nm s m"
  obtains buf where "buffer_ready (me_of s) (maps_of s) nm (ps_remote s) buf m" "w_room (ps_work s) 2"
  using assms by (auto simp: can_receive_def buffer_ready_def split: list.splits)

text \<open>A packet that has arrived is the first one on the way.\<close>

lemma arrived_first:
  assumes rep: "tp_rep n L s a" and p: "p < n" "q < n" "apart L p q" and arr: "arrived (ly_index L q p) (mem_at L s q) (tp_pe s q)"
  obtains k rest x xs buf where "whole k" "cr_in (ps_remote (tp_pe s q)) ! ly_index L q p = encode_packet k @ rest"
    "la_sock a p q = x # xs" "carries p k x" "stream p (rest @ cr_out (ps_remote (tp_pe s p)) ! ly_index L p q) xs"
    "buffer_ready (me_of (tp_pe s q)) (maps_of (tp_pe s q)) (mem_at L s q) (ps_remote (tp_pe s q)) buf (unat (pk_size k))"
    "w_room (ps_work (tp_pe s q)) 2"
proof -
  define k rest where "k = first_packet (cr_in (ps_remote (tp_pe s q)) ! ly_index L q p)"
    and "rest = after_packet (cr_in (ps_remote (tp_pe s q)) ! ly_index L q p)"
  hence k: "whole k" "cr_in (ps_remote (tp_pe s q)) ! ly_index L q p = encode_packet k @ rest"
    "can_receive (mem_at L s q) (tp_pe s q) (unat (pk_size k))" using arr by (simp_all add: arrived_def has_packet_def Let_def)
  have "stream p (encode_packet k @ rest @ cr_out (ps_remote (tp_pe s p)) ! ly_index L p q) (la_sock a p q)"
    using tp_repD(7) [OF rep p] by (simp add: sock_bytes_def k(2))
  then obtain x xs where x: "la_sock a p q = x # xs" "carries p k x" "stream p (rest @ cr_out (ps_remote (tp_pe s p)) ! ly_index L p q) xs"
    by (rule stream_first [OF _ k(1)])
  obtain buf where "buffer_ready (me_of (tp_pe s q)) (maps_of (tp_pe s q)) (mem_at L s q) (ps_remote (tp_pe s q)) buf (unat (pk_size k))"
    "w_room (ps_work (tp_pe s q)) 2" by (rule buffer_readyI [OF k(3)])
  with k(1,2) x show thesis by (rule that)
qed

lemma tp_rep_receive:
  assumes rep: "tp_rep n L s a" and p: "p < n" "q < n" "apart L p q" and arr: "arrived (ly_index L q p) (mem_at L s q) (tp_pe s q)"
    and turn: "receive_turn junk (ly_index L q p) (mem_at L s q, tp_pe s q) = Some (m, t)"
    and u: "tp_mem u = (tp_mem s)(ly_node L q := m)" "tp_pe u = (tp_pe s)(q := t)" "tp_made u = tp_made s" "tp_done u = tp_done s"
  shows "\<exists>b. lane_move n L a b \<and> tp_rep n L u b \<and> same_pe (tp_pe s q) t \<and> tp_load n L u b < tp_load n L s a"
proof -
  obtain k rest x xs buf where k: "whole k" "cr_in (ps_remote (tp_pe s q)) ! ly_index L q p = encode_packet k @ rest"
    and x: "la_sock a p q = x # xs" "carries p k x" "stream p (rest @ cr_out (ps_remote (tp_pe s p)) ! ly_index L p q) xs"
    and buf: "buffer_ready (me_of (tp_pe s q)) (maps_of (tp_pe s q)) (mem_at L s q) (ps_remote (tp_pe s q)) buf (unat (pk_size k))"
      "w_room (ps_work (tp_pe s q)) 2" by (rule arrived_first [OF rep p arr])
  have t: "lanes n L q m t (la_send a q) (la_jobs a q @ [(p, x)])" "nm_heap m = nm_heap (mem_at L s q)" "same_pe (tp_pe s q) t"
    "priv_kept (mem_at L s q) m" "cr_out (ps_remote t) = cr_out (ps_remote (tp_pe s q))"
    "cr_in (ps_remote t) = (cr_in (ps_remote (tp_pe s q)))[ly_index L q p := rest]"
    by (rule lanes_receive [OF tp_repD(1) [OF rep p(2)] p(1,3) k x(2) buf, of junk]; use turn in simp)+
  let ?b = "a\<lparr>la_sock := put2 p q xs (la_sock a), la_jobs := (la_jobs a)(q := la_jobs a q @ [(p, x)])\<rparr>"
  have "tp_rep n L u ?b"
  proof (rule tp_rep_turn [OF rep p(2) _ t(4) u(1,2)])
    show "la_heap ?b r = own_heap L u r" if "r < n" for r
      using tp_repD(3) [OF rep that] own_heap_same [OF u(1) t(2)] by simp
    show "tp_made u r d = tp_done u r d @ on_lane ?b r d" if "r < n" "d < n" "apart L r d" for r d
      using tp_repD(2) [OF rep that] x(1) by (auto simp: on_lane_def u)
    show "stream r (sock_bytes L u r d) (la_sock ?b r d)" if "r < n" "d < n" "apart L r d" for r d
      unfolding sock_bytes_in [OF rep p that u(2) t(5,6)] using tp_repD(7) [OF rep that] x(3) by auto
  qed (use t(1) in simp_all)
  moreover have "tp_load n L u ?b < tp_load n L s a"
    using out_left_same [OF u(2) t(5), of L] x(1) sum_update2 [OF p(1,2), of "\<lambda>xs. 2 * length xs" xs "la_sock a"]
      sum_update [OF p(2), of "\<lambda>_ xs. length xs" "la_jobs a" "la_jobs a q @ [(p, x)]"]
    by (simp add: tp_load_def del: put2_apply)
  ultimately show ?thesis using ln_received [OF p x(1)] t(3) by blast
qed

lemma tp_rep_work:
  assumes rep: "tp_rep n L s a" and d: "d < n"
    and j: "work_thread_turn (ps_work (tp_pe s d)) = Some (Some j, ws)" and turn: "worker_turn (mem_at L s d, tp_pe s d) = Some (m, t)"
    and u: "u = s\<lparr>tp_mem := (tp_mem s)(ly_node L d := m), tp_pe := (tp_pe s)(d := t),
      tp_done := put2 (unat (j_origin_pe j)) d (tp_done s (unat (j_origin_pe j)) d @
        [(unat (j_dest j), heap_bytes m (me_of t) (unat (j_dest j)) (unat (j_size j)))]) (tp_done s)\<rparr>"
  shows "\<exists>b. lane_move n L a b \<and> tp_rep n L u b \<and> same_pe (tp_pe s d) t \<and> tp_load n L u b < tp_load n L s a"
proof -
  obtain q x js where q: "la_jobs a d = (q, x) # js" "unat (j_origin_pe j) = q" "unat (j_dest j) = fst x"
    "heap_bytes m (me_of t) (fst x) (unat (j_size j)) = snd x" "q < n" "apart L q d"
    "lanes n L d m t (la_send a d) js" "cr_out (ps_remote t) = cr_out (ps_remote (tp_pe s d))" "cr_in (ps_remote t) = cr_in (ps_remote (tp_pe s d))"
    "m = put_heap (mem_at L s d) (me_of (tp_pe s d)) (fst x) (snd x)" "same_pe (tp_pe s d) t"
    by (rule lanes_work [OF tp_repD(1) [OF rep d] tp_repD(4) [OF rep] d j]) (use turn in simp)
  let ?b = "a\<lparr>la_jobs := (la_jobs a)(d := js), la_heap := (la_heap a)(d := bytes_at (fst x) (snd x) (la_heap a d))\<rparr>"
  have u: "tp_mem u = (tp_mem s)(ly_node L d := m)" "tp_pe u = (tp_pe s)(d := t)" "tp_made u = tp_made s"
    "tp_done u = put2 q d (tp_done s q d @ [(fst x, snd x)]) (tp_done s)" using q(2-4) by (simp_all add: u)
  have m: "m = put_heap (mem_at L s d) (ly_local L d) (fst x) (snd x)" using q(10) tp_repD(6) [OF rep d] by simp
  have kept: "priv_kept (mem_at L s d) m" by (simp add: m)
  have "tp_rep n L u ?b"
  proof (rule tp_rep_turn [OF rep d _ kept u(1,2)])
    show "la_heap ?b r = own_heap L u r" if "r < n" for r
      using tp_repD(3) [OF rep] own_heap_put [OF tp_repD(5) [OF rep] d that refl u(1) [unfolded m]] d that unfolding m by simp
    show "stream r (sock_bytes L u r e) (la_sock ?b r e)" if "r < n" "e < n" "apart L r e" for r e
      using tp_repD(7) [OF rep that] sock_bytes_same [OF u(2) q(9,8), of L] by simp
    show "tp_made u r e = tp_done u r e @ on_lane ?b r e" if "r < n" "e < n" "apart L r e" for r e
      using tp_repD(2) [OF rep that] q(1) by (auto simp: on_lane_def u)
  qed (use q(7) in simp_all)
  moreover have "lane_move n L a ?b" using ln_worked [OF q(5) d q(6), of a "fst x" "snd x" js] q(1) by simp
  moreover have "tp_load n L u ?b < tp_load n L s a"
    using out_left_same [OF u(2) q(8), of L] q(1) sum_update [OF d, of "\<lambda>_ xs. length xs" "la_jobs a" js] by (simp add: tp_load_def)
  ultimately show ?thesis using q(11) by blast
qed

lemma tp_thread_intact: "tp_thread n L junk s t \<Longrightarrow> tp_intact t \<Longrightarrow> tp_intact s"
  by (erule tp_threadE) simp_all

lemma tp_thread_lanes:
  assumes rep: "tp_rep n L s a" and step: "tp_thread n L junk s t" and intact: "tp_intact t"
  shows "\<exists>b. (b = a \<or> lane_move n L a b) \<and> tp_rep n L t b \<and> (\<forall>p. same_pe (tp_pe s p) (tp_pe t p)) \<and>
    tp_load n L t b < tp_load n L s a"
  using step
proof (rule tp_threadE)
  fix p wr t' assume t: "t = s\<lparr>tp_pe := (tp_pe s)(p := t'), tp_intact := (tp_intact s \<and> write_full wr (tp_pe s p))\<rparr>"
    and p: "p < n" "cr_queue_send (ps_remote (tp_pe s p)) \<noteq> NULL" "send_turn wr (tp_pe s p) = Some t'"
  have "write_full wr (tp_pe s p)" using intact by (simp add: t)
  from tp_rep_send [OF rep p this, of t] show ?thesis by (fastforce simp: t)
next
  fix p q bs rest assume t: "t = s\<lparr>tp_pe := (tp_pe s)(p := set_out (ly_index L p q) rest (tp_pe s p),
      q := set_in (ly_index L q p) (cr_in (ps_remote (tp_pe s q)) ! ly_index L q p @ bs) (tp_pe s q))\<rparr>"
    and p: "p < n" "q < n" "apart L p q" "cr_out (ps_remote (tp_pe s p)) ! ly_index L p q = bs @ rest" and ne: "bs \<noteq> []"
  have "same_pe (tp_pe s r) (tp_pe t r)" for r by (simp add: t same_pe_def set_out_def set_in_def)
  with tp_rep_wire [OF rep p t ne] show ?thesis by blast
next
  fix p q m t' assume t: "t = s\<lparr>tp_mem := (tp_mem s)(ly_node L q := m), tp_pe := (tp_pe s)(q := t'),
      tp_intact := (tp_intact s \<and> arrived (ly_index L q p) (mem_at L s q) (tp_pe s q))\<rparr>"
    and p: "p < n" "q < n" "apart L p q" "receive_turn junk (ly_index L q p) (mem_at L s q, tp_pe s q) = Some (m, t')"
  have "arrived (ly_index L q p) (mem_at L s q) (tp_pe s q)" using intact by (simp add: t)
  from tp_rep_receive [OF rep p(1-3) this p(4), of t] show ?thesis by (fastforce simp: t)
next
  fix d j ws m t'
  assume t: "t = s\<lparr>tp_mem := (tp_mem s)(ly_node L d := m), tp_pe := (tp_pe s)(d := t'),
      tp_done := put2 (unat (j_origin_pe j)) d (tp_done s (unat (j_origin_pe j)) d @
        [(unat (j_dest j), heap_bytes m (me_of t') (unat (j_dest j)) (unat (j_size j)))]) (tp_done s)\<rparr>"
    and d: "d < n" "work_thread_turn (ps_work (tp_pe s d)) = Some (Some j, ws)"
      "worker_turn (mem_at L s d, tp_pe s d) = Some (m, t')"
  show ?thesis using tp_rep_work [OF rep d t] by (fastforce simp: t)
qed

lemma tp_step_lanes:
  assumes rep: "tp_rep n L s a" and step: "tp_step n L junk s t" and intact: "tp_intact t"
  shows "\<exists>b. (b = a \<or> lane_step n L a b) \<and> tp_rep n L t b"
  using step
proof (rule tp_stepE)
  assume "tp_thread n L junk s t"
  with tp_thread_lanes [OF rep _ intact] show ?thesis by (blast intro: ln_move)
next
  fix p q off sz src xs m t'
  assume t: "t = tp_log p q (off, xs) (tp_with L p m t' s)" and p: "p < n" "q < n" "apart L p q" "off + unat sz \<le> SYMMETRIC_HEAP_SIZE"
    "load_bytes (mem_at L s p) (me_of (tp_pe s p)) (maps_of (tp_pe s p)) src (unat sz) = Some xs"
    "comm_put (of_nat off) src sz (of_nat q) (mem_at L s p, tp_pe s p) = Some (m, t')"
  show ?thesis using tp_rep_put(1) [OF rep p] ln_put [OF p(1-3)] unfolding t by blast
next
  fix p q off sz src xs m t'
  assume t: "t = tp_with L p m t' s" and p: "p < n" "q < n" "ly_node L p = ly_node L q" "off + unat sz \<le> SYMMETRIC_HEAP_SIZE"
    and src: "load_bytes (mem_at L s q) (me_of (tp_pe s p)) (maps_of (tp_pe s p)) src (unat sz) = Some xs"
      "priv_area (maps_of (tp_pe s p)) src (unat sz)" "comm_put (of_nat off) src sz (of_nat q) (mem_at L s q, tp_pe s p) = Some (m, t')"
  have "\<not> apart L p q" using p(3) by simp
  from tp_rep_store [OF rep p(1,2) this p(4)] tp_rep_stored [OF rep p(1,2) this, of off xs] ln_store [OF p(2)] src
  show ?thesis unfolding t p(3) by metis
qed

lemma tp_step_intact: "tp_step n L junk s t \<Longrightarrow> tp_intact t \<Longrightarrow> tp_intact s"
  by (erule tp_stepE) (simp_all add: tp_log_def tp_with_def tp_thread_intact)

interpretation transport: step_simulation "tp_start n L" "tp_step n L junk" "\<lambda>s a. tp_intact s \<longrightarrow> tp_rep n L s a" lane_start "lane_step n L"
  for n L junk
proof unfold_locales
  show "\<exists>a. lane_start a \<and> (tp_intact s \<longrightarrow> tp_rep n L s a)" if "tp_start n L s" for s using tp_rep_start [OF that] by blast
  show "\<exists>b. (b = a \<or> lane_step n L a b) \<and> (tp_intact t \<longrightarrow> tp_rep n L t b)"
    if "tp_intact s \<longrightarrow> tp_rep n L s a" "tp_step n L junk s t" for s a t
  proof (cases "tp_intact t")
    case True
    with that tp_step_lanes [OF _ that(2)] tp_step_intact [OF that(2)] show ?thesis by blast
  qed blast
qed

lemma reached_lanes:
  assumes "reach (tp_start n L) (tp_step n L junk) s" and "tp_intact s"
  obtains a where "n < 2 ^ 31" "tp_rep n L s a"
  using transport.reach_match [OF assms(1)] assms(2) tp_repD(4) by blast

section \<open>Properties\<close>

lemma lane_empty:
  assumes rep: "tp_rep n L s a" and p: "p < n" "d < n" "apart L p d"
    and idle: "cr_queue_send (ps_remote (tp_pe s p)) = NULL" "cr_out (ps_remote (tp_pe s p)) ! ly_index L p d = []"
      "cr_in (ps_remote (tp_pe s d)) ! ly_index L d p = []" "w_head (ps_work (tp_pe s d)) = NULL"
  shows "on_lane a p d = []"
proof -
  have "la_send a p = []" using tp_repD(1) [OF rep p(1)] idle(1) by (auto simp: lanes_def queued_def pq_rep_def)
  moreover have "la_jobs a d = []" using tp_repD(1) [OF rep p(2)] idle(4) by (auto simp: lanes_def waiting_def work_rep_def wq_rep_def)
  moreover have "la_sock a p d = []" using tp_repD(7) [OF rep p] idle(2,3) by (auto simp: sock_bytes_def stream_def encode_packet_def)
  ultimately show ?thesis by (simp add: on_lane_def)
qed

text \<open>
  C5: puts to another node are performed in order and intact, as long as nothing has been lost:
  \<open>write\<close> has taken every packet whole, and every packet had arrived whole, with \<open>malloc\<close> giving
  memory for it, when it was read. Then what the worker of PE \<open>d\<close> has performed for PE \<open>p\<close>,
  each time an offset and the bytes then found there in the heap of \<open>d\<close>, is the first part of
  what \<open>p\<close> has put to \<open>d\<close>, in every interleaving of all PEs, their communication threads and
  workers; and it is all of it when the send queue of \<open>p\<close>, the two sockets and the job queue of
  \<open>d\<close> are empty.
\<close>

theorem puts_performed_in_order:
  assumes "reach (tp_start n L) (tp_step n L junk) s" and intact: "tp_intact s" and p: "p < n" "d < n" "apart L p d"
  shows "\<exists>rest. tp_made s p d = tp_done s p d @ rest \<and>
    (cr_queue_send (ps_remote (tp_pe s p)) = NULL \<and> cr_out (ps_remote (tp_pe s p)) ! ly_index L p d = [] \<and>
     cr_in (ps_remote (tp_pe s d)) ! ly_index L d p = [] \<and> w_head (ps_work (tp_pe s d)) = NULL \<longrightarrow> rest = [])"
proof -
  obtain a where a: "tp_rep n L s a" by (rule reached_lanes [OF assms(1) intact])
  show ?thesis using tp_repD(2) [OF a p] lane_empty [OF a p] by blast
qed

text \<open>
  C16: the threads do nothing undefined as long as nothing has been lost: \<open>write\<close> has taken every
  packet whole, and every packet had arrived whole, with \<open>malloc\<close> giving memory for it, when it
  was read. In every such state, a packet in the send queue can be sent, however much of it
  \<open>write\<close> takes this time; what is on the way between two PEs begins with a whole packet;
  once that has arrived and \<open>malloc\<close> gives memory for its data and its job, it can be received;
  and the worker can perform its next job.
\<close>

theorem transport_defined:
  assumes "reach (tp_start n L) (tp_step n L junk) s" and intact: "tp_intact s" and p: "p < n" "q < n" "apart L p q"
  shows "(cr_queue_send (ps_remote (tp_pe s p)) \<noteq> NULL \<longrightarrow> send_turn wr (tp_pe s p) \<noteq> None) \<and>
    (sock_bytes L s p q \<noteq> [] \<longrightarrow> has_packet (sock_bytes L s p q)) \<and>
    (arrived (ly_index L q p) (mem_at L s q) (tp_pe s q) \<longrightarrow> receive_turn junk (ly_index L q p) (mem_at L s q, tp_pe s q) \<noteq> None) \<and>
    worker_turn (mem_at L s p, tp_pe s p) \<noteq> None"
proof (intro conjI impI)
  obtain a where n: "n < 2 ^ 31" and a: "tp_rep n L s a" by (rule reached_lanes [OF assms(1) intact])
  note ln = tp_repD(1) [OF a p(1)]
  show "send_turn wr (tp_pe s p) \<noteq> None" if "cr_queue_send (ps_remote (tp_pe s p)) \<noteq> NULL"
    by (rule lanes_send [OF ln that]) (metis option.distinct(1))
  show "has_packet (sock_bytes L s p q)" if "sock_bytes L s p q \<noteq> []" by (rule stream_has_packet [OF tp_repD(7) [OF a p] that])
  show "receive_turn junk (ly_index L q p) (mem_at L s q, tp_pe s q) \<noteq> None"
    if arr: "arrived (ly_index L q p) (mem_at L s q) (tp_pe s q)"
  proof (rule arrived_first [OF a p arr])
    fix k rest x xs buf
    assume k: "whole k" "cr_in (ps_remote (tp_pe s q)) ! ly_index L q p = encode_packet k @ rest" "carries p k x"
      and buf: "buffer_ready (me_of (tp_pe s q)) (maps_of (tp_pe s q)) (mem_at L s q) (ps_remote (tp_pe s q)) buf (unat (pk_size k))"
        "w_room (ps_work (tp_pe s q)) 2"
    show ?thesis by (rule lanes_receive [OF tp_repD(1) [OF a p(2)] p(1,3) k buf, of junk]) simp
  qed
  obtain js where js: "work_rep (ps_work (tp_pe s p)) js" using ln by (auto simp: lanes_def waiting_def)
  show "worker_turn (mem_at L s p, tp_pe s p) \<noteq> None"
  proof (cases js)
    case Nil
    with work_thread_turn_Nil js show ?thesis by (simp add: worker_turn_def)
  next
    case (Cons j js')
    then obtain ws where ws: "work_thread_turn (ps_work (tp_pe s p)) = Some (Some j, ws)" using work_thread_turn_Cons js by blast
    show ?thesis by (rule lanes_work [OF ln n p(1) ws]) simp
  qed
qed

text \<open>Nothing is queued anywhere, and nothing is on its way.\<close>

definition job_idle :: "nat \<Rightarrow> layout \<Rightarrow> transport \<Rightarrow> bool" where
  "job_idle n L s \<longleftrightarrow> (\<forall>p < n. cr_queue_send (ps_remote (tp_pe s p)) = NULL \<and> w_head (ps_work (tp_pe s p)) = NULL \<and>
     (\<forall>q < n. apart L p q \<longrightarrow> cr_out (ps_remote (tp_pe s p)) ! ly_index L p q = [] \<and> cr_in (ps_remote (tp_pe s p)) ! ly_index L p q = []))"

text \<open>A PE has a whole packet to read, and \<open>malloc\<close> gives no memory for it.\<close>

definition out_of_memory :: "nat \<Rightarrow> layout \<Rightarrow> transport \<Rightarrow> bool" where
  "out_of_memory n L s \<longleftrightarrow> (\<exists>p < n. \<exists>q < n. apart L p q \<and> has_packet (cr_in (ps_remote (tp_pe s q)) ! ly_index L q p) \<and>
     \<not> arrived (ly_index L q p) (mem_at L s q) (tp_pe s q))"

lemma idle_or_more:
  assumes rep: "tp_rep n L s a" and intact: "tp_intact s" and room: "\<not> out_of_memory n L s"
  shows "job_idle n L s \<and> (\<forall>p < n. \<forall>d < n. apart L p d \<longrightarrow> tp_done s p d = tp_made s p d) \<or> (\<exists>t. tp_thread n L junk s t \<and> tp_intact t)"
proof (rule disjCI)
  assume stuck: "\<not> (\<exists>t. tp_thread n L junk s t \<and> tp_intact t)"
  have send: "cr_queue_send (ps_remote (tp_pe s p)) = NULL" if p: "p < n" for p
  proof (rule ccontr)
    assume ne: "cr_queue_send (ps_remote (tp_pe s p)) \<noteq> NULL"
    have "\<exists>t. send_turn (\<lambda>m. m) (tp_pe s p) = Some t \<and> write_full (\<lambda>m. m) (tp_pe s p)"
      by (rule lanes_send [OF tp_repD(1) [OF rep p] ne]) (metis order_refl)
    then obtain t where "send_turn (\<lambda>m. m) (tp_pe s p) = Some t" "write_full (\<lambda>m. m) (tp_pe s p)" by blast
    from stuck tp_send [OF p ne this(1), of L junk] this(2) intact show False by auto
  qed
  have work: "w_head (ps_work (tp_pe s p)) = NULL" if p: "p < n" for p
  proof -
    obtain js where js: "work_rep (ps_work (tp_pe s p)) js" using tp_repD(1) [OF rep p] by (auto simp: lanes_def waiting_def)
    show ?thesis
    proof (cases js)
      case Nil
      with js show ?thesis by (simp add: work_rep_def wq_rep_def)
    next
      case (Cons j js')
      then obtain ws where ws: "work_thread_turn (ps_work (tp_pe s p)) = Some (Some j, ws)" using work_thread_turn_Cons js by blast
      obtain m t where turn: "worker_turn (mem_at L s p, tp_pe s p) = Some (m, t)"
        by (rule lanes_work [OF tp_repD(1) [OF rep p] tp_repD(4) [OF rep] p ws])
      from stuck tp_work [OF p ws refl turn, of junk] intact show ?thesis by auto
    qed
  qed
  have sock: "cr_out (ps_remote (tp_pe s p)) ! ly_index L p q = [] \<and> cr_in (ps_remote (tp_pe s q)) ! ly_index L q p = []"
    if p: "p < n" "q < n" "apart L p q" for p q
  proof (rule ccontr)
    assume ne: "\<not> ?thesis"
    show False
    proof (cases "cr_out (ps_remote (tp_pe s p)) ! ly_index L p q = []")
      case True
      with ne have i: "cr_in (ps_remote (tp_pe s q)) ! ly_index L q p \<noteq> []" by simp
      with True stream_has_packet [OF tp_repD(7) [OF rep p]] have "has_packet (cr_in (ps_remote (tp_pe s q)) ! ly_index L q p)"
        by (simp add: sock_bytes_def)
      hence arr: "arrived (ly_index L q p) (mem_at L s q) (tp_pe s q)" using room p unfolding out_of_memory_def by blast
      obtain m t where turn: "receive_turn junk (ly_index L q p) (mem_at L s q, tp_pe s q) = Some (m, t)"
      proof (rule arrived_first [OF rep p arr])
        fix k rest x xs buf
        assume k: "whole k" "cr_in (ps_remote (tp_pe s q)) ! ly_index L q p = encode_packet k @ rest" "carries p k x"
          and buf: "buffer_ready (me_of (tp_pe s q)) (maps_of (tp_pe s q)) (mem_at L s q) (ps_remote (tp_pe s q)) buf (unat (pk_size k))"
            "w_room (ps_work (tp_pe s q)) 2"
        show thesis by (rule lanes_receive [OF tp_repD(1) [OF rep p(2)] p(1,3) k buf, of junk]) (rule that)
      qed
      from stuck tp_receive [OF p i turn] arr intact show False by auto
    next
      case False
      from stuck tp_wire [OF p append_Nil2 [symmetric] False, of junk] intact show False by auto
    qed
  qed
  have "tp_done s p d = tp_made s p d" if "p < n" "d < n" "apart L p d" for p d
    using tp_repD(2) [OF rep that] lane_empty [OF rep that] send [OF that(1)] work [OF that(2)] sock [OF that] by simp
  moreover have "job_idle n L s" using send work sock unfolding job_idle_def by (metis (no_types, lifting))
  ultimately show "job_idle n L s \<and> (\<forall>p < n. \<forall>d < n. apart L p d \<longrightarrow> tp_done s p d = tp_made s p d)" by blast
qed

lemma tp_thread_made: "tp_thread n L junk s t \<Longrightarrow> tp_made t = tp_made s"
  by (erule tp_threadE) simp_all

text \<open>
  C10: the threads complete all puts. Let the program make no more of them, and nothing have
  been lost so far. As long as \<open>write\<close> takes packets whole and packets are read when they have
  arrived whole, then in whatever order the network, the communication threads and the workers
  take their turns, they come to a state in which all queues and sockets are empty and every
  put has been performed, in its order and with its bytes; unless one gets where a packet waits
  for which \<open>malloc\<close> gives no memory.
\<close>

theorem threads_complete_puts:
  assumes "reach (tp_start n L) (tp_step n L junk) s" and "tp_intact s"
  shows "inevitable (\<lambda>t u. tp_thread n L junk t u \<and> tp_intact u)
    (\<lambda>t. out_of_memory n L t \<or>
       job_idle n L t \<and> (\<forall>p < n. \<forall>d < n. apart L p d \<longrightarrow> tp_done t p d = tp_made s p d)) s"
proof -
  obtain a where "tp_rep n L s a" by (rule reached_lanes [OF assms])
  let ?Q = "\<lambda>t k. tp_intact t \<and> tp_made t = tp_made s \<and> (\<exists>a. tp_rep n L t a \<and> tp_load n L t a = k)"
  show ?thesis
  proof (rule inevitable_decreasing [where Q = ?Q])
    fix t u k assume t: "?Q t k" and step: "tp_thread n L junk t u \<and> tp_intact u"
    then obtain a where a: "tp_rep n L t a" "tp_load n L t a = k" by blast
    from tp_thread_lanes [OF a(1)] step a(2) tp_thread_made [of n L junk t u] t show "\<exists>j < k. ?Q u j" by metis
  next
    fix t k assume t: "?Q t k" and no: "\<not> (out_of_memory n L t \<or>
      job_idle n L t \<and> (\<forall>p < n. \<forall>d < n. apart L p d \<longrightarrow> tp_done t p d = tp_made s p d))"
    then obtain a where "tp_rep n L t a" by blast
    from idle_or_more [OF this, of junk] t no show "\<exists>u. tp_thread n L junk t u \<and> tp_intact u" by metis
  qed (use assms(2) \<open>tp_rep n L s a\<close> in blast)
qed

text \<open>Each of two PEs on a node of its own.\<close>

definition demo_layout :: layout where
  "demo_layout = \<lparr>ly_node = \<lambda>p. p, ly_local = \<lambda>_. 0, ly_index = \<lambda>_ _. 0\<rparr>"

definition demo_second :: pe_state where
  "demo_second = demo_pe\<lparr>ps_remote := demo_remote\<lparr>cr_my_pe := 1\<rparr>, ps_node := demo_table_node\<lparr>nd_map := rev (nd_map demo_table_node)\<rparr>\<rparr>"

definition demo_job :: transport where
  "demo_job = \<lparr>tp_mem = \<lambda>_. demo_nm, tp_pe = \<lambda>p. if p = 0 then demo_pe else demo_second, tp_made = \<lambda>_ _. [], tp_done = \<lambda>_ _. [], tp_intact = True\<rparr>"

lemma demo_job_node: "p < 2 \<Longrightarrow> pe_static 2 demo_layout p (tp_pe demo_job p)"
  using demo_maps
  by (auto simp: less_2_cases_iff pe_static_def demo_job_def demo_second_def demo_pe_def demo_local_def cl_me_def demo_table_node_def
      comm_node_map_def local_pe_def demo_remote_def comm_remote_start_def demo_layout_def)

lemma demo_job_start: "tp_start 2 demo_layout demo_job"
proof -
  have q: "pq_rep (demo_remote\<lparr>cr_my_pe := 1\<rparr>) []"
    using demo_remote_queue(1) pq_rep_cong [of "demo_remote\<lparr>cr_my_pe := 1\<rparr>" demo_remote] by simp
  have "pq_rep (ps_remote (tp_pe demo_job p)) [] \<and> work_rep (ps_work (tp_pe demo_job p)) []" for p
    using q demo_remote_queue(1) demo_work(1) by (simp add: demo_job_def demo_second_def demo_pe_def)
  moreover have "cr_out (ps_remote (tp_pe demo_job p)) = [[]] \<and> cr_in (ps_remote (tp_pe demo_job p)) = [[]]" for p
    by (simp add: demo_job_def demo_second_def demo_pe_def demo_remote_def comm_remote_start_def)
  ultimately show ?thesis using demo_job_node by (simp add: tp_start_def layout_ok_def) (simp add: demo_job_def demo_layout_def)
qed

lemma demo_job_put:
  obtains s where "reach (tp_start 2 demo_layout) (tp_step 2 demo_layout (\<lambda>_. 0)) s" "tp_intact s" "tp_made s 0 1 = [(16, [64, 65])]"
    "cr_queue_send (ps_remote (tp_pe s 0)) \<noteq> NULL"
proof -
  have src: "load_bytes demo_nm (cl_me (ps_local demo_pe)) (cl_shared_memory (ps_local demo_pe)) 64
      (unat (2 :: size_t)) = Some [64, 65]"
    using demo_bytes_two by (simp add: demo_pe_def demo_local_def cl_me_def)
  have room: "pq_rep (ps_remote demo_pe) []" "r_room (ps_remote demo_pe) 2" using demo_remote_queue
    by (auto simp: demo_pe_def r_room_def intro: answers_ok_mono)
  have mp: "comm_node_map (ps_node demo_pe) 1 = Some \<lparr>lm_type = PE_TYPE_REMOTE, lm_index = 0, lm_host = 1\<rparr>"
    by (simp add: demo_pe_def demo_table_node_def comm_node_map_def)
  obtain a cr where put: "comm_put (of_nat 16) 64 2 1 (demo_nm, demo_pe) = Some (demo_nm, demo_pe\<lparr>ps_remote := cr\<rparr>)"
    "pq_rep cr ([] @ [(1, a)])"
    by (rule comm_put_remote_queued [OF mp _ room src, where dest = "of_nat 16"]) simp_all
  let ?s = "tp_log 0 1 (16, [64, 65]) (tp_with demo_layout 0 demo_nm (demo_pe\<lparr>ps_remote := cr\<rparr>) demo_job)"
  have "tp_step 2 demo_layout (\<lambda>_. 0) demo_job ?s"
    by (rule tp_put [where sz = 2 and src = 64]) (use src put in \<open>simp_all add: demo_job_def demo_layout_def SYMMETRIC_HEAP_SIZE_def\<close>)
  with demo_job_start have "reach (tp_start 2 demo_layout) (tp_step 2 demo_layout (\<lambda>_. 0)) ?s"
    by (blast intro: reach_start reach_next)
  moreover have "tp_made ?s 0 1 = [(16, [64, 65])]" "tp_intact ?s" by (simp_all add: demo_job_def tp_log_def tp_with_def)
  moreover have "cr_queue_send cr \<noteq> NULL" using put(2) by (auto simp: pq_rep_def)
  hence "cr_queue_send (ps_remote (tp_pe ?s 0)) \<noteq> NULL" by (simp add: tp_log_def tp_with_def)
  ultimately show thesis by (intro that)
qed

theorem puts_performed_in_order_witness:
  "\<exists>s. reach (tp_start 2 demo_layout) (tp_step 2 demo_layout (\<lambda>_. 0)) s \<and> tp_made s 0 1 = [(16, [64, 65])] \<and>
    (\<exists>rest. tp_made s 0 1 = tp_done s 0 1 @ rest)"
proof -
  obtain s where s: "reach (tp_start 2 demo_layout) (tp_step 2 demo_layout (\<lambda>_. 0)) s" "tp_intact s" "tp_made s 0 1 = [(16, [64, 65])]"
    by (rule demo_job_put)
  have "ly_node demo_layout 0 \<noteq> ly_node demo_layout 1" by (simp add: demo_layout_def)
  with puts_performed_in_order [OF s(1,2), of 0 1] s(1,3) show ?thesis by auto
qed

theorem transport_defined_witness:
  "\<exists>s. reach (tp_start 2 demo_layout) (tp_step 2 demo_layout (\<lambda>_. 0)) s \<and> cr_queue_send (ps_remote (tp_pe s 0)) \<noteq> NULL \<and>
    (\<exists>t. send_turn (\<lambda>m. 29) (tp_pe s 0) = Some t)"
proof -
  obtain s where s: "reach (tp_start 2 demo_layout) (tp_step 2 demo_layout (\<lambda>_. 0)) s" "tp_intact s"
    "cr_queue_send (ps_remote (tp_pe s 0)) \<noteq> NULL" by (rule demo_job_put)
  have "ly_node demo_layout 0 \<noteq> ly_node demo_layout 1" by (simp add: demo_layout_def)
  with transport_defined [OF s(1,2), of 0 1] s(1,3) show ?thesis by auto
qed

theorem threads_complete_puts_witness:
  "\<exists>s. tp_made s 0 1 = [(16, [64, 65])] \<and> inevitable (\<lambda>t u. tp_thread 2 demo_layout (\<lambda>_. 0) t u \<and> tp_intact u)
    (\<lambda>t. out_of_memory 2 demo_layout t \<or> job_idle 2 demo_layout t \<and>
      (\<forall>p < 2. \<forall>d < 2. ly_node demo_layout p \<noteq> ly_node demo_layout d \<longrightarrow> tp_done t p d = tp_made s p d)) s"
proof -
  obtain s where s: "reach (tp_start 2 demo_layout) (tp_step 2 demo_layout (\<lambda>_. 0)) s" "tp_intact s" "tp_made s 0 1 = [(16, [64, 65])]"
    by (rule demo_job_put)
  with threads_complete_puts [OF s(1,2)] show ?thesis by blast
qed

end
