(* ===== verification/Barrier.thy ===== *)
theory Barrier
  imports Prelude
begin

text \<open>
  \<open>comm_barrier_all\<close> of \<open>comm/comm.c\<close>. PE 0 waits until every other PE has set its element
  of PE 0's \<open>pSync\<close> array, clearing each one it sees, and then sets the element of every PE
  in that PE's own array; the others set their element at PE 0, wait for their own and clear
  it. A put to a PE of the same node stores at once; one to another node is in flight until
  the receiving node's threads store it.

  The processes run concurrently, so the function is a step relation, with one program point
  for every access to \<open>pSync\<close>. The theory proves that no PE leaves a barrier that another one
  has not entered, that \<open>pSync\<close> needs no second array for the next barrier, and that a
  barrier which every PE enters is left by every PE, however the steps interleave.
\<close>

section \<open>Definitions\<close>

text \<open>
  Where a PE is: outside; at the test of element \<open>i\<close>, at the store that clears it, at the
  put to PE \<open>i\<close> (PE 0); at its put, at its test, at its store (the others).
\<close>

datatype bar_pc = Outside | Gather nat | Clear nat | Release nat | Notify | Await | ClearOwn

record barrier =
  bar_pc :: "nat \<Rightarrow> bar_pc"
  bar_sync :: "nat \<Rightarrow> nat \<Rightarrow> nat"
  bar_flight :: "nat \<Rightarrow> nat \<Rightarrow> nat"
  bar_entered :: "nat \<Rightarrow> nat"
  bar_left :: "nat \<Rightarrow> nat"

definition set_pc :: "nat \<Rightarrow> bar_pc \<Rightarrow> barrier \<Rightarrow> barrier" where
  "set_pc p c s = s\<lparr>bar_pc := (bar_pc s)(p := c)\<rparr>"

text \<open>Element \<open>i\<close> of the array of PE \<open>d\<close>.\<close>

definition set_sync :: "nat \<Rightarrow> nat \<Rightarrow> nat \<Rightarrow> barrier \<Rightarrow> barrier" where
  "set_sync d i v s = s\<lparr>bar_sync := (bar_sync s)(d := (bar_sync s d)(i := v))\<rparr>"

definition set_flight :: "nat \<Rightarrow> nat \<Rightarrow> nat \<Rightarrow> barrier \<Rightarrow> barrier" where
  "set_flight d i v s = s\<lparr>bar_flight := (bar_flight s)(d := (bar_flight s d)(i := v))\<rparr>"

definition leave_barrier :: "nat \<Rightarrow> barrier \<Rightarrow> barrier" where
  "leave_barrier p s = (set_pc p Outside s)\<lparr>bar_left := (bar_left s)(p := Suc (bar_left s p))\<rparr>"

definition enter_barrier :: "nat \<Rightarrow> barrier \<Rightarrow> barrier" where
  "enter_barrier p s = (set_pc p (if p = 0 then Gather 1 else Notify) s)
     \<lparr>bar_entered := (bar_entered s)(p := Suc (bar_entered s p))\<rparr>"

text \<open>\<open>comm_put\<close> of the value 1 from PE \<open>p\<close> to element \<open>i\<close> of PE \<open>d\<close>.\<close>

definition put_one :: "(nat \<Rightarrow> nat \<Rightarrow> bool) \<Rightarrow> nat \<Rightarrow> nat \<Rightarrow> nat \<Rightarrow> barrier \<Rightarrow> barrier" where
  "put_one loc p d i s = (if loc p d then set_sync d i 1 s else set_flight d i (Suc (bar_flight s d i)) s)"

text \<open>
  One step of \<open>comm_barrier_all\<close> of PE \<open>p\<close> of \<open>n\<close>; \<open>None\<close> when the PE is outside. Testing an
  element that is 0 changes nothing.
\<close>

definition comm_barrier_all :: "nat \<Rightarrow> (nat \<Rightarrow> nat \<Rightarrow> bool) \<Rightarrow> nat \<Rightarrow> barrier \<Rightarrow> barrier option" where
  "comm_barrier_all n loc p s =
     (case bar_pc s p of
        Outside \<Rightarrow> None
      | Gather i \<Rightarrow> Some (if i < n then if bar_sync s 0 i = 0 then s else set_pc p (Clear i) s
                         else set_pc p (Release 1) s)
      | Clear i \<Rightarrow> Some (set_pc p (Gather (Suc i)) (set_sync 0 i 0 s))
      | Release i \<Rightarrow> Some (if i < n then set_pc p (Release (Suc i)) (put_one loc p i i s)
                          else leave_barrier p s)
      | Notify \<Rightarrow> Some (set_pc p Await (put_one loc p 0 p s))
      | Await \<Rightarrow> Some (if bar_sync s p p = 0 then s else set_pc p ClearOwn s)
      | ClearOwn \<Rightarrow> Some (leave_barrier p (set_sync p p 0 s)))"

text \<open>The steps inside barriers, without the tests that change nothing, and the deliveries.\<close>

inductive bar_move :: "nat \<Rightarrow> (nat \<Rightarrow> nat \<Rightarrow> bool) \<Rightarrow> barrier \<Rightarrow> barrier \<Rightarrow> bool" for n loc where
  run: "p < n \<Longrightarrow> comm_barrier_all n loc p s = Some t \<Longrightarrow> t \<noteq> s \<Longrightarrow> bar_move n loc s t"
| deliver: "d < n \<Longrightarrow> i < n \<Longrightarrow> bar_flight s d i = Suc k \<Longrightarrow>
    bar_move n loc s (set_sync d i 1 (set_flight d i k s))"

inductive bar_step :: "nat \<Rightarrow> (nat \<Rightarrow> nat \<Rightarrow> bool) \<Rightarrow> barrier \<Rightarrow> barrier \<Rightarrow> bool" for n loc where
  move: "bar_move n loc s t \<Longrightarrow> bar_step n loc s t"
| enter: "p < n \<Longrightarrow> bar_pc s p = Outside \<Longrightarrow> bar_step n loc s (enter_barrier p s)"

text \<open>\<open>comm_wireup\<close> has cleared every array, and no barrier has been entered.\<close>

definition bar_start :: "nat \<Rightarrow> barrier \<Rightarrow> bool" where
  "bar_start n s \<longleftrightarrow> 0 < n \<and> bar_pc s = (\<lambda>_. Outside) \<and> bar_sync s = (\<lambda>_ _. 0) \<and>
     bar_flight s = (\<lambda>_ _. 0) \<and> bar_entered s = (\<lambda>_. 0) \<and> bar_left s = (\<lambda>_. 0)"

section \<open>The invariant\<close>

definition sent :: "bar_pc \<Rightarrow> nat" where
  "sent c = (if c = Await \<or> c = ClearOwn then 1 else 0)"

fun gathered :: "nat \<Rightarrow> bar_pc \<Rightarrow> nat" where
  "gathered p (Gather i) = (if p < i then 1 else 0)"
| "gathered p (Clear i) = (if p < i then 1 else 0)"
| "gathered p (Release i) = 1"
| "gathered p c = 0"

fun released :: "nat \<Rightarrow> bar_pc \<Rightarrow> nat" where
  "released p (Release i) = (if p < i then 1 else 0)"
| "released p c = 0"

fun pc_ok :: "nat \<Rightarrow> nat \<Rightarrow> bar_pc \<Rightarrow> bool" where
  "pc_ok n p Outside = True"
| "pc_ok n p (Gather i) = (p = 0 \<and> 0 < i \<and> i \<le> n)"
| "pc_ok n p (Clear i) = (p = 0 \<and> 0 < i \<and> i < n)"
| "pc_ok n p (Release i) = (p = 0 \<and> 0 < i \<and> i \<le> n)"
| "pc_ok n p Notify = (p \<noteq> 0)"
| "pc_ok n p Await = (p \<noteq> 0)"
| "pc_ok n p ClearOwn = (p \<noteq> 0)"

text \<open>
  The notifications PE \<open>p\<close> has sent are the ones PE 0 has gathered and the ones under way
  (set or in flight); the releases of PE 0 are the ones PE \<open>p\<close> has consumed and the ones
  under way.
\<close>

definition places :: "nat \<Rightarrow> barrier \<Rightarrow> bool" where
  "places n s \<longleftrightarrow> (\<forall>p < n. pc_ok n p (bar_pc s p) \<and>
     bar_entered s p = bar_left s p + (if bar_pc s p = Outside then 0 else 1))"

definition notified :: "nat \<Rightarrow> barrier \<Rightarrow> bool" where
  "notified n s \<longleftrightarrow> (\<forall>p < n. 0 < p \<longrightarrow> bar_left s p + sent (bar_pc s p) =
     bar_left s 0 + gathered p (bar_pc s 0) + bar_sync s 0 p + bar_flight s 0 p)"

definition answered :: "nat \<Rightarrow> barrier \<Rightarrow> bool" where
  "answered n s \<longleftrightarrow> (\<forall>p < n. 0 < p \<longrightarrow> bar_left s 0 + released p (bar_pc s 0) =
     bar_left s p + bar_sync s p p + bar_flight s p p)"

text \<open>An element about to be cleared is set, and nothing is in flight to any other element.\<close>

definition to_clear :: "nat \<Rightarrow> barrier \<Rightarrow> bool" where
  "to_clear n s \<longleftrightarrow> (\<forall>i. bar_pc s 0 = Clear i \<longrightarrow> bar_sync s 0 i \<noteq> 0) \<and>
     (\<forall>p < n. bar_pc s p = ClearOwn \<longrightarrow> bar_sync s p p \<noteq> 0)"

definition no_stray :: "nat \<Rightarrow> barrier \<Rightarrow> bool" where
  "no_stray n s \<longleftrightarrow> (\<forall>d < n. \<forall>i < n. d \<noteq> 0 \<and> i \<noteq> d \<or> i = 0 \<longrightarrow> bar_flight s d i = 0)"

definition bar_inv :: "nat \<Rightarrow> barrier \<Rightarrow> bool" where
  "bar_inv n s \<longleftrightarrow> 0 < n \<and> places n s \<and> notified n s \<and> answered n s \<and> to_clear n s \<and> no_stray n s"

lemmas bar_inv_parts = places_def notified_def answered_def to_clear_def no_stray_def

lemma bar_inv_start: "bar_start n s \<Longrightarrow> bar_inv n s"
  by (simp add: bar_start_def bar_inv_def bar_inv_parts sent_def)

lemma released_gathered: "released p c \<le> gathered p c"
  by (cases "(p, c)" rule: released.cases) auto

lemma sent_le: "sent c \<le> (if c = Outside then 0 else 1)"
  by (simp add: sent_def)

lemma bar_invD:
  assumes "bar_inv n s"
  shows "0 < n"
    and "\<And>p. p < n \<Longrightarrow> pc_ok n p (bar_pc s p)"
    and "\<And>p. p < n \<Longrightarrow> bar_entered s p = bar_left s p + (if bar_pc s p = Outside then 0 else 1)"
    and "\<And>p. p < n \<Longrightarrow> 0 < p \<Longrightarrow> bar_left s p + sent (bar_pc s p) =
       bar_left s 0 + gathered p (bar_pc s 0) + bar_sync s 0 p + bar_flight s 0 p"
    and "\<And>p. p < n \<Longrightarrow> 0 < p \<Longrightarrow> bar_left s 0 + released p (bar_pc s 0) =
       bar_left s p + bar_sync s p p + bar_flight s p p"
    and "\<And>i. bar_pc s 0 = Clear i \<Longrightarrow> bar_sync s 0 i \<noteq> 0"
    and "\<And>p. p < n \<Longrightarrow> bar_pc s p = ClearOwn \<Longrightarrow> bar_sync s p p \<noteq> 0"
proof -
  have "0 < n" "places n s" "notified n s" "answered n s" "to_clear n s"
    using assms unfolding bar_inv_def by blast+
  note parts = this
  show "0 < n" by (rule parts(1))
  show "pc_ok n p (bar_pc s p)"
    and "bar_entered s p = bar_left s p + (if bar_pc s p = Outside then 0 else 1)" if "p < n" for p
    using parts(2) that unfolding places_def by blast+
  show "bar_left s p + sent (bar_pc s p) =
       bar_left s 0 + gathered p (bar_pc s 0) + bar_sync s 0 p + bar_flight s 0 p" if "p < n" "0 < p" for p
    using parts(3) that unfolding notified_def by blast
  show "bar_left s 0 + released p (bar_pc s 0) =
       bar_left s p + bar_sync s p p + bar_flight s p p" if "p < n" "0 < p" for p
    using parts(4) that unfolding answered_def by blast
  show "bar_sync s 0 i \<noteq> 0" if "bar_pc s 0 = Clear i" for i
    using parts(5) that unfolding to_clear_def by blast
  show "bar_sync s p p \<noteq> 0" if "p < n" "bar_pc s p = ClearOwn" for p
    using parts(5) that unfolding to_clear_def by blast
qed

text \<open>The chain of inequalities behind everything: at most one notification or release is under way.\<close>

lemma bar_inv_chain:
  assumes inv: "bar_inv n s" and p: "p < n" "0 < p"
  shows "bar_left s p \<le> bar_left s 0 + released p (bar_pc s 0)"
    and "bar_left s 0 + released p (bar_pc s 0) \<le> bar_left s 0 + gathered p (bar_pc s 0)"
    and "bar_left s 0 + gathered p (bar_pc s 0) \<le> bar_left s p + sent (bar_pc s p)"
    and "bar_left s p + sent (bar_pc s p) \<le> bar_entered s p"
    and "bar_sync s 0 p + bar_flight s 0 p \<le> sent (bar_pc s p)"
    and "bar_sync s p p + bar_flight s p p \<le> sent (bar_pc s p)"
proof -
  note e = bar_invD(4) [OF inv p] bar_invD(5) [OF inv p] bar_invD(3) [OF inv p(1)]
  note r = released_gathered [of p "bar_pc s 0"] and t = sent_le [of "bar_pc s p"]
  show 1: "bar_left s p \<le> bar_left s 0 + released p (bar_pc s 0)" using e by linarith
  show 2: "bar_left s 0 + released p (bar_pc s 0) \<le> bar_left s 0 + gathered p (bar_pc s 0)" using r by simp
  show 3: "bar_left s 0 + gathered p (bar_pc s 0) \<le> bar_left s p + sent (bar_pc s p)" using e by linarith
  show "bar_left s p + sent (bar_pc s p) \<le> bar_entered s p" using e t by linarith
  show "bar_sync s 0 p + bar_flight s 0 p \<le> sent (bar_pc s p)" using e 1 2 by linarith
  show "bar_sync s p p + bar_flight s p p \<le> sent (bar_pc s p)" using e r by linarith
qed

text \<open>A step keeps the invariant when it keeps each part.\<close>

lemma bar_inv_keep:
  assumes "bar_inv n s" and "places n s \<Longrightarrow> places n t" "notified n s \<Longrightarrow> notified n t"
    "answered n s \<Longrightarrow> answered n t" "to_clear n s \<Longrightarrow> to_clear n t" "no_stray n s \<Longrightarrow> no_stray n t"
  shows "bar_inv n t"
  using assms by (simp add: bar_inv_def)

lemmas barrier_updates = set_pc_def set_sync_def set_flight_def leave_barrier_def enter_barrier_def put_one_def

lemma bar_inv_enter:
  assumes "bar_inv n s" "p < n" "bar_pc s p = Outside"
  shows "bar_inv n (enter_barrier p s)"
  by (rule bar_inv_keep [OF assms(1)]) (use assms(2-) in \<open>auto simp: bar_inv_parts barrier_updates sent_def\<close>)

lemma bar_inv_gather:
  assumes inv: "bar_inv n s" and at: "bar_pc s 0 = Gather i" and i: "i < n" "bar_sync s 0 i \<noteq> 0"
  shows "bar_inv n (set_pc 0 (Clear i) s)"
  by (rule bar_inv_keep [OF inv]) (use assms(2-) in \<open>auto simp: bar_inv_parts barrier_updates sent_def\<close>)

lemma bar_inv_gather_end:
  assumes inv: "bar_inv n s" and at: "bar_pc s 0 = Gather i" and i: "\<not> i < n"
  shows "bar_inv n (set_pc 0 (Release 1) s)"
  by (rule bar_inv_keep [OF inv]) (use assms(2-) in \<open>auto simp: bar_inv_parts barrier_updates sent_def\<close>)

lemma bar_inv_clear:
  assumes inv: "bar_inv n s" and at: "bar_pc s 0 = Clear i"
  shows "bar_inv n (set_pc 0 (Gather (Suc i)) (set_sync 0 i 0 s))"
proof -
  have i: "i < n" "0 < i" "bar_sync s 0 i \<noteq> 0"
    using bar_invD(1) [OF inv] bar_invD(2) [OF inv, of 0] bar_invD(6) [OF inv at] at by simp_all
  have "bar_sync s 0 i + bar_flight s 0 i \<le> sent (bar_pc s i)" using bar_inv_chain(5) [OF inv i(1,2)] .
  hence one: "bar_sync s 0 i = Suc 0" "bar_flight s 0 i = 0" using i(3) by (auto simp: sent_def split: if_splits)
  show ?thesis
    by (rule bar_inv_keep [OF inv]) (use assms(2-) i one in \<open>auto simp: bar_inv_parts barrier_updates sent_def\<close>)
qed

lemma bar_inv_release:
  assumes inv: "bar_inv n s" and at: "bar_pc s 0 = Release i" and i: "i < n"
  shows "bar_inv n (set_pc 0 (Release (Suc i)) (put_one loc 0 i i s))"
proof -
  have i0: "0 < i" using bar_invD(1) [OF inv] bar_invD(2) [OF inv, of 0] at by simp
  have "released i (bar_pc s 0) = 0" "gathered i (bar_pc s 0) = 1" "sent (bar_pc s i) \<le> 1"
    using at by (simp_all add: sent_def)
  hence zero: "bar_sync s i i = 0" "bar_flight s i i = 0"
    using bar_inv_chain(3) [OF inv i i0] bar_invD(5) [OF inv i i0] by linarith+
  show ?thesis
    by (rule bar_inv_keep [OF inv]) (use assms(2-) i i0 zero in \<open>auto simp: bar_inv_parts barrier_updates sent_def less_Suc_eq dest: less_trans [OF _ i]\<close>)
qed

lemma bar_inv_release_end:
  assumes inv: "bar_inv n s" and at: "bar_pc s 0 = Release i" and i: "\<not> i < n"
  shows "bar_inv n (leave_barrier 0 s)"
  by (rule bar_inv_keep [OF inv]) (use assms(2-) in \<open>auto simp: bar_inv_parts barrier_updates sent_def\<close>)

lemma bar_inv_notify:
  assumes inv: "bar_inv n s" and p: "p < n" and at: "bar_pc s p = Notify"
  shows "bar_inv n (set_pc p Await (put_one loc p 0 p s))"
proof -
  have p0: "0 < p" using bar_invD(2) [OF inv p] at by simp
  have zero: "bar_sync s 0 p = 0" "bar_flight s 0 p = 0"
    using bar_inv_chain(5) [OF inv p p0] at by (simp_all add: sent_def)
  show ?thesis
    by (rule bar_inv_keep [OF inv]) (use assms(2-) p0 zero in \<open>auto simp: bar_inv_parts barrier_updates sent_def\<close>)
qed

lemma bar_inv_await:
  assumes inv: "bar_inv n s" and p: "p < n" and at: "bar_pc s p = Await" "bar_sync s p p \<noteq> 0"
  shows "bar_inv n (set_pc p ClearOwn s)"
proof -
  have p0: "0 < p" using bar_invD(2) [OF inv p] at by simp
  show ?thesis
    by (rule bar_inv_keep [OF inv]) (use assms(2-) p0 in \<open>auto simp: bar_inv_parts barrier_updates sent_def\<close>)
qed

lemma bar_inv_clear_own:
  assumes inv: "bar_inv n s" and p: "p < n" and at: "bar_pc s p = ClearOwn"
  shows "bar_inv n (leave_barrier p (set_sync p p 0 s))"
proof -
  have p0: "0 < p" using bar_invD(2) [OF inv p] at by simp
  have one: "bar_sync s p p = Suc 0" "bar_flight s p p = 0"
    using bar_inv_chain(6) [OF inv p p0] bar_invD(7) [OF inv p at] at by (simp_all add: sent_def)
  show ?thesis
    by (rule bar_inv_keep [OF inv]) (use assms(2-) p0 one in \<open>auto simp: bar_inv_parts barrier_updates sent_def\<close>)
qed

lemma bar_inv_deliver:
  assumes inv: "bar_inv n s" and di: "d < n" "i < n" and at: "bar_flight s d i = Suc k"
  shows "bar_inv n (set_sync d i 1 (set_flight d i k s))"
proof -
  have at': "d = 0 \<or> i = d" "i \<noteq> 0"
    using inv di at unfolding bar_inv_def no_stray_def by (metis Zero_not_Suc)+
  have zero: "bar_sync s d i = 0" "k = 0"
    using at' di at bar_inv_chain(5,6) [OF inv, of i] by (auto simp: sent_def split: if_splits)
  show ?thesis
    by (rule bar_inv_keep [OF inv]) (use assms(2-) at' zero in \<open>auto simp: bar_inv_parts barrier_updates sent_def\<close>)
qed

lemma bar_inv_run:
  assumes inv: "bar_inv n s" and p: "p < n" and run: "comm_barrier_all n loc p s = Some t"
  shows "bar_inv n t"
proof -
  have ok: "pc_ok n p (bar_pc s p)" by (rule bar_invD(2) [OF inv p])
  show ?thesis
  proof (cases "bar_pc s p")
    case (Gather i)
    with ok run inv bar_inv_gather [OF inv, of i] bar_inv_gather_end [OF inv, of i] show ?thesis
      by (auto simp: comm_barrier_all_def split: if_splits)
  next
    case (Clear i)
    with ok run bar_inv_clear [OF inv, of i] show ?thesis by (simp add: comm_barrier_all_def)
  next
    case (Release i)
    with ok run bar_inv_release [OF inv, of i loc] bar_inv_release_end [OF inv, of i] show ?thesis
      by (auto simp: comm_barrier_all_def split: if_splits)
  next
    case Notify
    with run bar_inv_notify [OF inv p, of loc] show ?thesis by (simp add: comm_barrier_all_def)
  next
    case Await
    with run inv bar_inv_await [OF inv p] show ?thesis
      by (auto simp: comm_barrier_all_def split: if_splits)
  next
    case ClearOwn
    with run bar_inv_clear_own [OF inv p] show ?thesis by (simp add: comm_barrier_all_def)
  qed (use run in \<open>simp add: comm_barrier_all_def\<close>)
qed

inductive_cases bar_moveE: "bar_move n loc s t"
inductive_cases bar_stepE: "bar_step n loc s t"

lemma bar_inv_move: "bar_inv n s \<Longrightarrow> bar_move n loc s t \<Longrightarrow> bar_inv n t"
  by (erule bar_moveE) (erule (2) bar_inv_run, simp add: bar_inv_deliver [unfolded One_nat_def])

lemma bar_inv_step: "bar_inv n s \<Longrightarrow> bar_step n loc s t \<Longrightarrow> bar_inv n t"
  by (elim bar_stepE) (auto intro: bar_inv_move bar_inv_enter)

interpretation barrier: inductive_invariant "bar_start n" "bar_step n loc" "bar_inv n" for n loc
  by unfold_locales (blast intro: bar_inv_start bar_inv_step)+

section \<open>Safety\<close>

lemma bar_inv_left_entered:
  assumes inv: "bar_inv n s" and "p < n" "q < n"
  shows "bar_left s p \<le> bar_entered s q"
proof -
  have up: "bar_left s 0 \<le> bar_entered s r" if "r < n" for r
    using bar_inv_chain(3,4) [OF inv that] bar_invD(3) [OF inv, of 0] that by (cases "r = 0") auto
  have down: "bar_left s r \<le> bar_left s 0 + released r (bar_pc s 0)" if "r < n" for r
    using bar_inv_chain(1) [OF inv that] by (cases "r = 0") auto
  show ?thesis
  proof (cases "\<exists>i. bar_pc s 0 = Release i")
    case True
    hence "bar_left s 0 + 1 \<le> bar_entered s q"
      using bar_inv_chain(3,4) [OF inv assms(3)] bar_invD(3) [OF inv assms(3)] by (cases "q = 0") auto
    moreover have "released p (bar_pc s 0) \<le> 1" using True by auto
    ultimately show ?thesis using down [OF assms(2)] by linarith
  next
    case False
    hence "released p (bar_pc s 0) = 0" by (cases "bar_pc s 0") auto
    thus ?thesis using down [OF assms(2)] up [OF assms(3)] by linarith
  qed
qed

section \<open>Progress\<close>

fun pc_work :: "nat \<Rightarrow> bar_pc \<Rightarrow> nat" where
  "pc_work n Outside = 0"
| "pc_work n (Gather i) = 2 * (n - i) + 2 * n + 2"
| "pc_work n (Clear i) = 2 * (n - i) + 2 * n + 1"
| "pc_work n (Release i) = 2 * (n - i) + 1"
| "pc_work n Notify = 4"
| "pc_work n Await = 2"
| "pc_work n ClearOwn = 1"

definition bar_work :: "nat \<Rightarrow> barrier \<Rightarrow> nat" where
  "bar_work n s = (\<Sum>p<n. pc_work n (bar_pc s p)) + (\<Sum>d<n. \<Sum>i<n. bar_flight s d i)"

lemma bar_work_set_sync [simp]: "bar_work n (set_sync d i v s) = bar_work n s"
  by (simp add: bar_work_def set_sync_def)

lemma bar_work_set_pc:
  "p < n \<Longrightarrow> bar_work n (set_pc p c s) + pc_work n (bar_pc s p) = bar_work n s + pc_work n c"
  using sum_update [of p n "\<lambda>_. pc_work n" "bar_pc s" c] by (simp add: bar_work_def set_pc_def)

lemma bar_work_leave: "p < n \<Longrightarrow> bar_work n (leave_barrier p s) + pc_work n (bar_pc s p) = bar_work n s"
  using bar_work_set_pc [of p n Outside s] by (simp add: bar_work_def leave_barrier_def)

lemma bar_work_set_flight:
  assumes "d < n" "i < n"
  shows "bar_work n (set_flight d i v s) + bar_flight s d i = bar_work n s + v"
  using sum_update [of i n "\<lambda>_ x. x" "bar_flight s d" v] assms
    sum_update [of d n "\<lambda>_ g. \<Sum>i<n. g i" "bar_flight s" "(bar_flight s d)(i := v)"]
  by (simp add: bar_work_def set_flight_def)

lemma bar_work_put: "d < n \<Longrightarrow> i < n \<Longrightarrow> bar_work n (put_one loc p d i s) \<le> bar_work n s + 1"
  using bar_work_set_flight [of d n i "Suc (bar_flight s d i)" s] by (simp add: put_one_def)

lemma bar_pc_puts [simp]:
  "bar_pc (put_one loc p d i s) = bar_pc s" "bar_pc (set_sync d i v s) = bar_pc s"
  by (simp_all add: barrier_updates)

lemma bar_work_run:
  assumes inv: "bar_inv n s" and p: "p < n" and run: "comm_barrier_all n loc p s = Some t" and new: "t \<noteq> s"
  shows "bar_work n t < bar_work n s"
proof (cases "bar_pc s p")
  case (Gather i)
  with run new bar_work_set_pc [OF p, of "Clear i" s] bar_work_set_pc [OF p, of "Release 1" s]
  show ?thesis by (auto simp: comm_barrier_all_def split: if_splits)
next
  case (Clear i)
  with run bar_work_set_pc [OF p, of "Gather (Suc i)" "set_sync 0 i 0 s"] bar_invD(2) [OF inv p]
  show ?thesis by (auto simp: comm_barrier_all_def)
next
  case (Release i)
  with run bar_work_set_pc [OF p, of "Release (Suc i)" "put_one loc p i i s"]
    bar_work_put [of i n i loc p s] bar_work_leave [OF p, of s]
  show ?thesis by (auto simp: comm_barrier_all_def split: if_splits)
next
  case Notify
  with run p bar_work_set_pc [OF p, of Await "put_one loc p 0 p s"] bar_work_put [of 0 n p loc p s]
  show ?thesis by (auto simp: comm_barrier_all_def)
next
  case Await
  with run new bar_work_set_pc [OF p, of ClearOwn s]
  show ?thesis by (auto simp: comm_barrier_all_def split: if_splits)
next
  case ClearOwn
  with run bar_work_leave [OF p, of "set_sync p p 0 s"]
  show ?thesis by (auto simp: comm_barrier_all_def)
qed (use run in \<open>simp add: comm_barrier_all_def\<close>)

lemma bar_work_move:
  assumes inv: "bar_inv n s" and move: "bar_move n loc s t"
  shows "bar_work n t < bar_work n s"
  using move
proof (rule bar_moveE)
  fix p assume "p < n" "comm_barrier_all n loc p s = Some t" "t \<noteq> s"
  thus ?thesis by (rule bar_work_run [OF inv])
next
  fix d i k assume "t = set_sync d i (Suc 0) (set_flight d i k s)" "d < n" "i < n" "bar_flight s d i = Suc k"
  thus ?thesis using bar_work_set_flight [of d n i k s] by simp
qed

lemma bar_entered_move: "bar_move n loc s t \<Longrightarrow> bar_entered t = bar_entered s"
  by (erule bar_move.cases)
    (auto simp: comm_barrier_all_def barrier_updates split: bar_pc.splits if_splits)

lemma stuck_flight: "\<nexists>t. bar_move n loc s t \<Longrightarrow> d < n \<Longrightarrow> i < n \<Longrightarrow> bar_flight s d i = 0"
  by (metis bar_move.deliver not0_implies_Suc)

lemma set_pc_neq:
  assumes "c \<noteq> bar_pc s p" "bar_pc t = bar_pc s"
  shows "set_pc p c t \<noteq> s"
proof
  assume "set_pc p c t = s"
  hence "bar_pc (set_pc p c t) p = bar_pc s p" by simp
  thus False using assms(1) by (simp add: set_pc_def)
qed

lemma stuck_pc:
  assumes inv: "bar_inv n s" and stuck: "\<nexists>t. bar_move n loc s t" and p: "p < n"
  shows "bar_pc s p = Outside \<or>
    (\<exists>i. p = 0 \<and> bar_pc s 0 = Gather i \<and> 0 < i \<and> i < n \<and> bar_sync s 0 i = 0) \<or>
    (0 < p \<and> bar_pc s p = Await \<and> bar_sync s p p = 0)"
proof -
  have still: "comm_barrier_all n loc p s = Some t \<Longrightarrow> t = s" for t
    using stuck p bar_move.run by blast
  have ok: "pc_ok n p (bar_pc s p)" by (rule bar_invD(2) [OF inv p])
  have left: "leave_barrier p t \<noteq> s" if "bar_left t = bar_left s" for t
    using that by (auto simp: leave_barrier_def dest!: arg_cong [where f = bar_left] fun_cong [where x = p])
  show ?thesis
  proof (cases "bar_pc s p")
    case (Gather i)
    with still ok set_pc_neq [of _ s p s] show ?thesis by (auto simp: comm_barrier_all_def split: if_splits)
  next
    case (Clear i)
    with still set_pc_neq [of "Gather (Suc i)" s p "set_sync 0 i 0 s"] show ?thesis
      by (simp add: comm_barrier_all_def)
  next
    case (Release i)
    with still left [of s] set_pc_neq [of "Release (Suc i)" s p "put_one loc p i i s"] show ?thesis
      by (simp add: comm_barrier_all_def split: if_splits)
  next
    case Notify
    with still set_pc_neq [of Await s p "put_one loc p 0 p s"] show ?thesis
      by (simp add: comm_barrier_all_def)
  next
    case Await
    with still ok set_pc_neq [of ClearOwn s p s] show ?thesis
      by (auto simp: comm_barrier_all_def split: if_splits)
  next
    case ClearOwn
    with still left [of "set_sync p p 0 s"] show ?thesis
      by (simp add: comm_barrier_all_def set_sync_def)
  qed simp
qed

lemma bar_progress:
  assumes inv: "bar_inv n s" and p: "p < n" "bar_pc s p \<noteq> Outside"
    and all: "\<forall>q<n. bar_entered s p \<le> bar_entered s q"
  shows "\<exists>t. bar_move n loc s t"
proof (rule ccontr)
  assume stuck: "\<nexists>t. bar_move n loc s t"
  have n: "0 < n" by (rule bar_invD(1) [OF inv])
  have root: "bar_pc s 0 = Outside \<or>
      (\<exists>i. bar_pc s 0 = Gather i \<and> 0 < i \<and> i < n \<and> bar_sync s 0 i = 0)"
    using stuck_pc [OF inv stuck n] by auto
  have none: "released q (bar_pc s 0) = 0" for q using root by auto
  have other: "bar_entered s p = bar_left s 0 + 1"
    if "0 < p" using stuck_pc [OF inv stuck p(1)] p that none bar_invD(5) [OF inv p(1) that]
      bar_invD(3) [OF inv p(1)] stuck_flight [OF stuck p(1,1)] by auto
  show False
  proof (cases "bar_pc s 0 = Outside")
    case True
    hence "0 < p" "bar_entered s 0 = bar_left s 0" using p bar_invD(3) [OF inv n] by (auto intro: gr0I)
    thus False using other all n by force
  next
    case False
    then obtain i where i: "bar_pc s 0 = Gather i" "0 < i" "i < n" "bar_sync s 0 i = 0" using root by blast
    have "bar_left s i + sent (bar_pc s i) = bar_left s 0"
      using bar_invD(4) [OF inv i(3,2)] i stuck_flight [OF stuck n i(3)] by simp
    moreover have "bar_entered s i = bar_left s i + sent (bar_pc s i)"
      using stuck_pc [OF inv stuck i(3)] bar_invD(3) [OF inv i(3)] i(2) by (auto simp: sent_def)
    moreover have "bar_entered s p = bar_left s 0 + 1"
      using other bar_invD(3) [OF inv n] i(1) by (cases "p = 0") auto
    ultimately show False using all i(3) by force
  qed
qed

lemma bar_all_entered:
  assumes inv: "bar_inv n s" and all: "\<forall>p<n. bar_entered s p = e"
  shows "inevitable (bar_move n loc) (\<lambda>t. \<forall>p<n. bar_pc t p = Outside \<and> bar_left t p = e) s"
proof (rule inevitable_measure [where Q = "\<lambda>t. bar_inv n t \<and> (\<forall>p<n. bar_entered t p = e)" and m = "bar_work n"])
  show "(bar_inv n t \<and> (\<forall>p<n. bar_entered t p = e)) \<and> bar_work n t < bar_work n u"
    if "bar_inv n u \<and> (\<forall>p<n. bar_entered u p = e)" "bar_move n loc u t" for u t
    using that bar_inv_move bar_work_move bar_entered_move [of n loc u t] by metis
next
  fix u assume u: "bar_inv n u \<and> (\<forall>p<n. bar_entered u p = e)"
    and "\<not> (\<forall>p<n. bar_pc u p = Outside \<and> bar_left u p = e)"
  then obtain p where p: "p < n" "bar_pc u p \<noteq> Outside"
    using bar_invD(3) [of n u] by (metis add.right_neutral)
  thus "\<exists>t. bar_move n loc u t" using bar_progress [of n u p loc] u by auto
qed (use assms in blast)

definition bar_init :: barrier where
  "bar_init = \<lparr>bar_pc = \<lambda>_. Outside, bar_sync = \<lambda>_ _. 0, bar_flight = \<lambda>_ _. 0,
     bar_entered = \<lambda>_. 0, bar_left = \<lambda>_. 0\<rparr>"

lemma bar_init: "0 < n \<Longrightarrow> bar_start n bar_init"
  by (simp add: bar_start_def bar_init_def)

lemma bar_init_entered:
  "reach (bar_start 2) (bar_step 2 loc) (enter_barrier 0 bar_init)"
  "reach (bar_start 2) (bar_step 2 loc) (enter_barrier 1 (enter_barrier 0 bar_init))"
proof -
  show 1: "reach (bar_start 2) (bar_step 2 loc) (enter_barrier 0 bar_init)"
    by (rule reach_next, rule reach_start, rule bar_init, simp, rule bar_step.enter)
      (simp_all add: bar_init_def)
  show "reach (bar_start 2) (bar_step 2 loc) (enter_barrier 1 (enter_barrier 0 bar_init))"
    by (rule reach_next, rule 1, rule bar_step.enter) (simp_all add: barrier_updates bar_init_def)
qed

section \<open>Properties\<close>

text \<open>
  C2: no PE leaves its k-th barrier before every PE has entered its k-th, in every
  interleaving of the PEs' steps and of the deliveries between nodes.
\<close>

theorem barrier_waits_for_all:
  assumes "reach (bar_start n) (bar_step n loc) s" and "p < n" "q < n"
  shows "bar_left s p \<le> bar_entered s q"
  using barrier.reach_inv [OF assms(1)] assms(2,3) by (rule bar_inv_left_entered)

theorem barrier_waits_for_all_witness:
  "bar_left (enter_barrier 0 bar_init) 0 \<le> bar_entered (enter_barrier 0 bar_init) 1"
  by (rule barrier_waits_for_all [OF bar_init_entered(1)]) simp_all

text \<open>
  C24: when no PE is in a barrier, every element of \<open>pSync\<close> the next barrier uses is clear,
  nothing is in flight and all the PEs have left equally many, so the same array serves the
  next barrier.
\<close>

theorem barrier_reusable:
  assumes "reach (bar_start n) (bar_step n loc) s" and "\<forall>p<n. bar_pc s p = Outside"
  shows "\<forall>p<n. bar_left s p = bar_left s 0 \<and>
    (0 < p \<longrightarrow> bar_sync s 0 p = 0 \<and> bar_sync s p p = 0 \<and> bar_flight s 0 p = 0 \<and> bar_flight s p p = 0)"
proof (intro allI impI)
  fix p assume p: "p < n"
  note inv = barrier.reach_inv [OF assms(1)]
  show "bar_left s p = bar_left s 0 \<and>
    (0 < p \<longrightarrow> bar_sync s 0 p = 0 \<and> bar_sync s p p = 0 \<and> bar_flight s 0 p = 0 \<and> bar_flight s p p = 0)"
    using bar_invD(4,5) [OF inv p] bar_invD(1) [OF inv] assms(2) p by (cases "p = 0") (auto simp: sent_def)
qed

theorem barrier_reusable_witness: "bar_sync bar_init 0 1 = 0 \<and> bar_sync bar_init 1 1 = 0"
  using barrier_reusable [OF reach_start [where init = "bar_start 2" and step = "bar_step 2 (\<lambda>_ _. True)"], OF bar_init]
  by (simp add: bar_init_def)

text \<open>
  While a PE is in a barrier that every PE has entered, some PE can take a step that
  changes the state or a put can be delivered: the barrier does not deadlock.
\<close>

theorem barrier_no_deadlock:
  assumes "reach (bar_start n) (bar_step n loc) s" and "p < n" "bar_pc s p \<noteq> Outside"
    and "\<forall>q<n. bar_entered s p \<le> bar_entered s q"
  shows "\<exists>t. bar_move n loc s t"
  using barrier.reach_inv [OF assms(1)] assms(2-4) by (rule bar_progress)

theorem barrier_no_deadlock_witness:
  "\<exists>t. bar_move 2 (\<lambda>_ _. False) (enter_barrier 1 (enter_barrier 0 bar_init)) t"
  by (rule barrier_no_deadlock [OF bar_init_entered(2), of 0]) (simp_all add: barrier_updates bar_init_def numeral_2_eq_2 less_Suc_eq)

text \<open>
  C7: a barrier that every PE has entered is left by every PE, whatever the interleaving of
  the steps and however the PEs are spread over the nodes.
\<close>

theorem barrier_left_by_all:
  assumes "reach (bar_start n) (bar_step n loc) s" and "\<forall>p<n. bar_entered s p = e"
  shows "inevitable (bar_move n loc) (\<lambda>t. \<forall>p<n. bar_pc t p = Outside \<and> bar_left t p = e) s"
  using barrier.reach_inv [OF assms(1)] assms(2) by (rule bar_all_entered)

theorem barrier_left_by_all_witness:
  "inevitable (bar_move 2 (\<lambda>_ _. False)) (\<lambda>t. \<forall>p<2. bar_pc t p = Outside \<and> bar_left t p = 1)
     (enter_barrier 1 (enter_barrier 0 bar_init))"
  by (rule barrier_left_by_all [OF bar_init_entered(2)])
    (simp add: barrier_updates bar_init_def numeral_2_eq_2 less_Suc_eq)

end
