(* ===== verification/Delivery.thy ===== *)
theory Delivery
  imports Barrier
begin

text \<open>
  The barrier together with the puts that PEs make between barriers. A put of \<open>comm_put\<close>
  to a PE of the same node stores at once. One to another node goes the same way as the
  puts of the barrier: the send queue, the socket and the job queue of the receiver are
  queues, served by one thread each, so the puts of one PE to another are stored in the order
  in which they were made (\<open>Comm_Remote\<close> and \<open>Work_Queue\<close> prove this of each queue, \<open>Comm\<close>
  of one put all the way). Here the way from one PE to another is therefore one list. Puts
  to different PEs are not ordered.

  The theory proves which puts are complete when a PE leaves the barrier: those made to and
  by PE 0, whose ways the notifications and releases of the barrier take as well. A put
  between two other nodes need not be.
\<close>

section \<open>Definitions\<close>

text \<open>
  A put under way: one of the barrier, or one of the program, with the number of barriers its
  maker had entered, the offset and the bytes.
\<close>

datatype parcel = Sync | User nat nat "byte list"

text \<open>
  The barrier; for a sender and a receiver, what is on its way and what the program has put;
  the heap of each PE and the bytes that puts have stored there, with their offsets.
\<close>

record delivery =
  dl_bar :: barrier
  dl_way :: "nat \<Rightarrow> nat \<Rightarrow> parcel list"
  dl_made :: "nat \<Rightarrow> nat \<Rightarrow> (nat \<times> nat \<times> byte list) list"
  dl_heap :: "nat \<Rightarrow> nat \<Rightarrow> byte"
  dl_stored :: "nat \<Rightarrow> (nat \<times> byte) list"

text \<open>The bytes of a put, each with its offset, and a heap with these bytes stored.\<close>

definition put_cells :: "nat \<Rightarrow> byte list \<Rightarrow> (nat \<times> byte) list" where
  "put_cells off bs = zip [off ..< off + length bs] bs"

definition set_cells :: "(nat \<times> byte) list \<Rightarrow> (nat \<Rightarrow> byte) \<Rightarrow> nat \<Rightarrow> byte" where
  "set_cells xs h = foldl (\<lambda>h (a, v). h(a := v)) h xs"

definition store_at :: "nat \<Rightarrow> nat \<Rightarrow> byte list \<Rightarrow> delivery \<Rightarrow> delivery" where
  "store_at d off bs s = s\<lparr>dl_heap := (dl_heap s)(d := set_cells (put_cells off bs) (dl_heap s d)),
     dl_stored := (dl_stored s)(d := dl_stored s d @ put_cells off bs)\<rparr>"

definition send_to :: "nat \<Rightarrow> nat \<Rightarrow> parcel \<Rightarrow> delivery \<Rightarrow> delivery" where
  "send_to p d x s = s\<lparr>dl_way := put2 p d (dl_way s p d @ [x]) (dl_way s)\<rparr>"

text \<open>\<open>comm_put\<close> of a program, outside barriers.\<close>

definition user_put :: "(nat \<Rightarrow> nat \<Rightarrow> bool) \<Rightarrow> nat \<Rightarrow> nat \<Rightarrow> nat \<Rightarrow> byte list \<Rightarrow> delivery \<Rightarrow> delivery" where
  "user_put loc p d off v s = (let e = bar_entered (dl_bar s) p; t = s\<lparr>dl_made := put2 p d (dl_made s p d @ [(e, off, v)]) (dl_made s)\<rparr>
     in if loc p d then store_at d off v t else send_to p d (User e off v) t)"

text \<open>The PE to which a step of the barrier puts.\<close>

fun sync_target :: "nat \<Rightarrow> bar_pc \<Rightarrow> nat option" where
  "sync_target n (Release i) = (if i < n then Some i else None)"
| "sync_target n Notify = Some 0"
| "sync_target n c = None"

definition barrier_run :: "nat \<Rightarrow> (nat \<Rightarrow> nat \<Rightarrow> bool) \<Rightarrow> nat \<Rightarrow> barrier \<Rightarrow> delivery \<Rightarrow> delivery" where
  "barrier_run n loc p b s =
     (case sync_target n (bar_pc (dl_bar s) p) of
        None \<Rightarrow> s\<lparr>dl_bar := b\<rparr>
      | Some d \<Rightarrow> if loc p d then s\<lparr>dl_bar := b\<rparr> else send_to p d Sync (s\<lparr>dl_bar := b\<rparr>))"

text \<open>The element of the array of PE \<open>d\<close> that PE \<open>p\<close> sets.\<close>

definition sync_slot :: "nat \<Rightarrow> nat \<Rightarrow> nat" where
  "sync_slot p d = (if p = 0 then d else p)"

text \<open>The first put on the way from \<open>p\<close> to \<open>d\<close> is stored.\<close>

fun arrive :: "nat \<Rightarrow> nat \<Rightarrow> parcel \<Rightarrow> delivery \<Rightarrow> delivery" where
  "arrive p d Sync s = (let b = dl_bar s; i = sync_slot p d in
     s\<lparr>dl_bar := set_sync d i 1 (set_flight d i (bar_flight b d i - 1) b)\<rparr>)"
| "arrive p d (User e off v) s = store_at d off v s"

inductive dl_step :: "nat \<Rightarrow> (nat \<Rightarrow> nat \<Rightarrow> bool) \<Rightarrow> delivery \<Rightarrow> delivery \<Rightarrow> bool" for n loc where
  dl_enter: "p < n \<Longrightarrow> bar_pc (dl_bar s) p = Outside \<Longrightarrow>
    dl_step n loc s (s\<lparr>dl_bar := enter_barrier p (dl_bar s)\<rparr>)"
| dl_run: "p < n \<Longrightarrow> comm_barrier_all n loc p (dl_bar s) = Some b \<Longrightarrow> dl_step n loc s (barrier_run n loc p b s)"
| dl_put: "p < n \<Longrightarrow> d < n \<Longrightarrow> bar_pc (dl_bar s) p = Outside \<Longrightarrow> dl_step n loc s (user_put loc p d off v s)"
| dl_arrive: "p < n \<Longrightarrow> d < n \<Longrightarrow> dl_way s p d = x # xs \<Longrightarrow>
    dl_step n loc s (arrive p d x (s\<lparr>dl_way := put2 p d xs (dl_way s)\<rparr>))"

definition dl_start :: "nat \<Rightarrow> delivery \<Rightarrow> bool" where
  "dl_start n s \<longleftrightarrow> bar_start n (dl_bar s) \<and> dl_way s = (\<lambda>_ _. []) \<and> dl_made s = (\<lambda>_ _. []) \<and> dl_stored s = (\<lambda>_. [])"

section \<open>The invariant\<close>

fun syncs :: "parcel list \<Rightarrow> nat" where
  "syncs [] = 0"
| "syncs (Sync # xs) = Suc (syncs xs)"
| "syncs (User e a v # xs) = syncs xs"

text \<open>How many puts of the barrier PE \<open>p\<close> has made to PE \<open>d\<close>; one of them is PE 0.\<close>

definition sync_sent :: "barrier \<Rightarrow> nat \<Rightarrow> nat \<Rightarrow> nat" where
  "sync_sent b p d = (if d = 0 then bar_left b p + sent (bar_pc b p) else bar_left b 0 + released d (bar_pc b 0))"

text \<open>After \<open>m\<close> puts of the barrier, what is behind a put made before barrier \<open>e\<close> are those from \<open>e\<close> on.\<close>

fun in_order :: "nat \<Rightarrow> parcel list \<Rightarrow> bool" where
  "in_order m [] = True"
| "in_order m (Sync # xs) = in_order m xs"
| "in_order m (User e a v # xs) = (m = e + syncs xs \<and> in_order m xs)"

lemma syncs_append [simp]: "syncs (xs @ ys) = syncs xs + syncs ys"
  by (induction xs rule: syncs.induct) simp_all

lemma in_order_Sync [simp]: "in_order (Suc m) (xs @ [Sync]) = in_order m xs"
  by (induction xs rule: syncs.induct) simp_all

lemma in_order_User [simp]: "in_order m (xs @ [User m a v]) = in_order m xs"
  by (induction xs rule: syncs.induct) simp_all

lemma in_order_member: "in_order m xs \<Longrightarrow> User e a v \<in> set xs \<Longrightarrow> m \<le> e + syncs xs"
  by (induction xs rule: syncs.induct) auto

lemma in_order_tl: "in_order m (x # xs) \<Longrightarrow> in_order m xs"
  by (cases x) auto

text \<open>The ways between PE 0 and another PE.\<close>

definition star :: "nat \<Rightarrow> nat \<Rightarrow> bool" where
  "star p d \<longleftrightarrow> p \<noteq> d \<and> (p = 0 \<or> d = 0)"

definition way_ok :: "(nat \<Rightarrow> nat \<Rightarrow> bool) \<Rightarrow> barrier \<Rightarrow> nat \<Rightarrow> nat \<Rightarrow> parcel list \<Rightarrow> bool" where
  "way_ok loc b p d xs \<longleftrightarrow> (loc p d \<longrightarrow> xs = []) \<and>
     (if star p d then bar_flight b d (sync_slot p d) = syncs xs \<and> in_order (sync_sent b p d) xs else syncs xs = 0)"

text \<open>What the program has put to a PE is on its way or stored, and nothing else is.\<close>

definition kept :: "(nat \<times> nat \<times> byte list) list \<Rightarrow> parcel list \<Rightarrow> (nat \<times> byte) list \<Rightarrow> bool" where
  "kept ms xs st \<longleftrightarrow> (\<forall>e a v. (e, a, v) \<in> set ms \<longrightarrow> User e a v \<in> set xs \<or> set (put_cells a v) \<subseteq> set st) \<and>
     (\<forall>e a v. User e a v \<in> set xs \<longrightarrow> (e, a, v) \<in> set ms)"

definition made_some :: "nat \<Rightarrow> delivery \<Rightarrow> nat \<Rightarrow> bool" where
  "made_some n s d \<longleftrightarrow> (\<forall>x \<in> set (dl_stored s d). \<exists>p < n. \<exists>e off bs. (e, off, bs) \<in> set (dl_made s p d) \<and> x \<in> set (put_cells off bs))"

definition holds :: "(nat \<Rightarrow> byte) \<Rightarrow> (nat \<times> byte) list \<Rightarrow> bool" where
  "holds h st \<longleftrightarrow> (\<forall>a v. a \<in> fst ` set st \<and> (\<forall>w. (a, w) \<in> set st \<longrightarrow> w = v) \<longrightarrow> h a = v)"

definition dl_inv :: "nat \<Rightarrow> (nat \<Rightarrow> nat \<Rightarrow> bool) \<Rightarrow> delivery \<Rightarrow> bool" where
  "dl_inv n loc s \<longleftrightarrow> bar_inv n (dl_bar s) \<and>
     (\<forall>p < n. \<forall>d < n. way_ok loc (dl_bar s) p d (dl_way s p d) \<and> kept (dl_made s p d) (dl_way s p d) (dl_stored s d)) \<and>
     (\<forall>d < n. made_some n s d \<and> holds (dl_heap s d) (dl_stored s d))"

lemma dl_invI:
  assumes "bar_inv n (dl_bar s)"
    and "\<And>p d. p < n \<Longrightarrow> d < n \<Longrightarrow> way_ok loc (dl_bar s) p d (dl_way s p d)"
    and "\<And>p d. p < n \<Longrightarrow> d < n \<Longrightarrow> kept (dl_made s p d) (dl_way s p d) (dl_stored s d)"
    and "\<And>d. d < n \<Longrightarrow> made_some n s d" "\<And>d. d < n \<Longrightarrow> holds (dl_heap s d) (dl_stored s d)"
  shows "dl_inv n loc s"
  using assms by (simp add: dl_inv_def)

lemma dl_invD:
  assumes "dl_inv n loc s"
  shows "bar_inv n (dl_bar s)"
    and "p < n \<Longrightarrow> d < n \<Longrightarrow> way_ok loc (dl_bar s) p d (dl_way s p d)"
    and "p < n \<Longrightarrow> d < n \<Longrightarrow> kept (dl_made s p d) (dl_way s p d) (dl_stored s d)"
    and "d < n \<Longrightarrow> made_some n s d" and "d < n \<Longrightarrow> holds (dl_heap s d) (dl_stored s d)"
  using assms by (simp_all add: dl_inv_def)

lemma dl_inv_start: "dl_start n s \<Longrightarrow> dl_inv n loc s"
  using bar_inv_start [of n "dl_bar s"]
  by (intro dl_invI) (auto simp: dl_start_def way_ok_def kept_def made_some_def holds_def bar_start_def)

lemma kept_Sync [simp]: "kept ms (xs @ [Sync]) st = kept ms xs st" "kept ms (Sync # xs) st = kept ms xs st"
  by (auto simp: kept_def)

lemma holdsD: "holds h st \<Longrightarrow> (a, v) \<in> set st \<Longrightarrow> (\<And>w. (a, w) \<in> set st \<Longrightarrow> w = v) \<Longrightarrow> h a = v"
  unfolding holds_def by (metis fst_conv imageI)

lemma set_cells_simps: "set_cells [] h = h" "set_cells ((a, v) # xs) h = set_cells xs (h(a := v))"
  by (simp_all add: set_cells_def)

lemma holds_cells: "holds h st \<Longrightarrow> holds (set_cells xs h) (st @ xs)"
proof (induction xs arbitrary: h st)
  case (Cons x xs)
  obtain a v where x: "x = (a, v)" by (cases x)
  have "holds (h(a := v)) (st @ [(a, v)])" using Cons.prems by (auto simp: holds_def)
  from Cons.IH [OF this] show ?case by (simp only: x set_cells_simps append_assoc append_Cons append_Nil)
qed (simp add: set_cells_simps)

lemma put_cells_iff: "(x, v) \<in> set (put_cells off bs) \<longleftrightarrow> off \<le> x \<and> x < off + length bs \<and> bs ! (x - off) = v"
proof
  assume "(x, v) \<in> set (put_cells off bs)"
  then obtain i where "i < length bs" "(x, v) = (off + i, bs ! i)"
    by (auto simp: put_cells_def in_set_zip)
  thus "off \<le> x \<and> x < off + length bs \<and> bs ! (x - off) = v" by simp
next
  assume x: "off \<le> x \<and> x < off + length bs \<and> bs ! (x - off) = v"
  hence "put_cells off bs ! (x - off) = (x, v)" "x - off < length (put_cells off bs)" by (auto simp: put_cells_def)
  thus "(x, v) \<in> set (put_cells off bs)" by (metis nth_mem)
qed

text \<open>What a step of the barrier adds to the puts made and to those in flight.\<close>

lemma run_sync_sent:
  assumes inv: "bar_inv n b" and p: "p < n" and run: "comm_barrier_all n loc p b = Some b'"
    and qd: "q < n" "d < n" "star q d"
  shows "sync_sent b' q d = sync_sent b q d + (if q = p \<and> sync_target n (bar_pc b p) = Some d then 1 else 0)"
    and "bar_flight b' d (sync_slot q d) = bar_flight b d (sync_slot q d) +
      (if q = p \<and> sync_target n (bar_pc b p) = Some d \<and> \<not> loc p d then 1 else 0)"
  using bar_invD(2) [OF inv p] run qd
  by (cases "bar_pc b p"; auto simp: comm_barrier_all_def barrier_updates sync_sent_def sync_slot_def star_def sent_def
      split: if_splits)+

lemma way_ok_run:
  assumes inv: "bar_inv n b" and p: "p < n" and run: "comm_barrier_all n loc p b = Some b'"
    and qd: "q < n" "d < n" and way: "way_ok loc b q d xs"
  shows "way_ok loc b' q d (if q = p \<and> sync_target n (bar_pc b p) = Some d \<and> \<not> loc p d then xs @ [Sync] else xs)"
proof (cases "star q d")
  case True
  with run_sync_sent [OF inv p run qd True] way show ?thesis by (auto simp: way_ok_def)
next
  case False
  hence "sync_target n (bar_pc b p) \<noteq> Some d \<or> q \<noteq> p"
    using bar_invD(2) [OF inv p] by (cases "bar_pc b p") (auto simp: star_def)
  with way False show ?thesis by (auto simp: way_ok_def)
qed

lemma dl_inv_run:
  assumes inv: "dl_inv n loc s" and p: "p < n" and run: "comm_barrier_all n loc p (dl_bar s) = Some b"
  shows "dl_inv n loc (barrier_run n loc p b s)"
proof (rule dl_invI)
  let ?t = "barrier_run n loc p b s" and ?to = "sync_target n (bar_pc (dl_bar s) p)"
  have way: "dl_way ?t q d = (if q = p \<and> ?to = Some d \<and> \<not> loc p d then dl_way s q d @ [Sync] else dl_way s q d)" for q d
    by (simp add: barrier_run_def send_to_def split: option.splits)
  have rest: "dl_bar ?t = b" "dl_made ?t = dl_made s" "dl_stored ?t = dl_stored s" "dl_heap ?t = dl_heap s"
    by (simp_all add: barrier_run_def send_to_def split: option.splits)
  show "bar_inv n (dl_bar ?t)" using bar_inv_run [OF dl_invD(1) [OF inv] p run] rest(1) by simp
  show "way_ok loc (dl_bar ?t) q d (dl_way ?t q d)" if "q < n" "d < n" for q d
    using way_ok_run [OF dl_invD(1) [OF inv] p run that dl_invD(2) [OF inv that]] by (simp add: way rest)
  show "kept (dl_made ?t q d) (dl_way ?t q d) (dl_stored ?t d)" if "q < n" "d < n" for q d
    using dl_invD(3) [OF inv that] by (auto simp: way rest)
  show "made_some n ?t d" "holds (dl_heap ?t d) (dl_stored ?t d)" if "d < n" for d
    using dl_invD(4,5) [OF inv that] by (simp_all add: made_some_def rest)
qed

lemma dl_inv_enter:
  assumes inv: "dl_inv n loc s" and p: "p < n" "bar_pc (dl_bar s) p = Outside"
  shows "dl_inv n loc (s\<lparr>dl_bar := enter_barrier p (dl_bar s)\<rparr>)"
proof (rule dl_invI)
  let ?b = "enter_barrier p (dl_bar s)"
  have "sync_sent ?b q d = sync_sent (dl_bar s) q d" "bar_flight ?b = bar_flight (dl_bar s)" for q d
    using p(2) by (auto simp: sync_sent_def barrier_updates sent_def)
  thus "way_ok loc (dl_bar (s\<lparr>dl_bar := ?b\<rparr>)) q d (dl_way (s\<lparr>dl_bar := ?b\<rparr>) q d)" if "q < n" "d < n" for q d
    using dl_invD(2) [OF inv that] by (simp add: way_ok_def)
qed (use bar_inv_enter [OF dl_invD(1) [OF inv] p] dl_invD(3-5) [OF inv] in \<open>simp_all add: made_some_def\<close>)

text \<open>A put of the program: the bookkeeping of \<open>made_some\<close> and \<open>kept\<close> in both ways it can go.\<close>

lemma made_some_more:
  assumes "made_some n s d" and "\<And>p x. x \<in> set (dl_made s p d) \<Longrightarrow> x \<in> set (dl_made t p d)"
    and "dl_stored t d = dl_stored s d"
  shows "made_some n t d"
  using assms unfolding made_some_def by metis

lemma made_some_store:
  assumes "made_some n s d" and "\<And>p x. x \<in> set (dl_made s p d) \<Longrightarrow> x \<in> set (dl_made t p d)"
    and "p < n" "(e, a, bs) \<in> set (dl_made t p d)" "dl_stored t d = dl_stored s d @ put_cells a bs"
  shows "made_some n t d"
  unfolding made_some_def
proof
  fix x assume "x \<in> set (dl_stored t d)"
  with assms(5) consider "x \<in> set (dl_stored s d)" | "x \<in> set (put_cells a bs)" by auto
  thus "\<exists>p < n. \<exists>e off bs. (e, off, bs) \<in> set (dl_made t p d) \<and> x \<in> set (put_cells off bs)"
  proof cases
    case 1
    with assms(1) obtain q f off cs where "q < n" "(f, off, cs) \<in> set (dl_made s q d)" "x \<in> set (put_cells off cs)"
      unfolding made_some_def by blast
    with assms(2) show ?thesis by blast
  qed (use assms(3,4) in blast)
qed

lemma kept_store: "kept ms xs st \<Longrightarrow> kept ms xs (st @ ys)"
  by (auto simp: kept_def)

lemma kept_local: "kept ms xs st \<Longrightarrow> kept (ms @ [(e, a, v)]) xs (st @ put_cells a v)"
  by (auto simp: kept_def)

lemma kept_send: "kept ms xs st \<Longrightarrow> kept (ms @ [(e, a, v)]) (xs @ [User e a v]) st"
  by (auto simp: kept_def)

lemma kept_arrive: "kept ms (User e a v # xs) st \<Longrightarrow> kept ms xs (st @ put_cells a v)"
  by (fastforce simp: kept_def)

lemma dl_inv_put_local:
  assumes inv: "dl_inv n loc s" and p: "p < n" "d < n" and loc: "loc p d"
  shows "dl_inv n loc (user_put loc p d off v s)"
proof -
  define t where "t = user_put loc p d off v s"
  have t: "dl_bar t = dl_bar s" "dl_way t = dl_way s"
    "\<And>q c. dl_made t q c = (if q = p \<and> c = d then dl_made s p d @ [(bar_entered (dl_bar s) p, off, v)] else dl_made s q c)"
    "\<And>c. dl_stored t c = (if c = d then dl_stored s d @ put_cells off v else dl_stored s c)"
    "\<And>c. dl_heap t c = (if c = d then set_cells (put_cells off v) (dl_heap s d) else dl_heap s c)"
    using loc by (auto simp: t_def user_put_def store_at_def Let_def fun_eq_iff)
  have more: "x \<in> set (dl_made s q c) \<Longrightarrow> x \<in> set (dl_made t q c)" for q c x by (auto simp: t)
  have "dl_inv n loc t"
  proof (rule dl_invI)
    show "bar_inv n (dl_bar t)" using dl_invD(1) [OF inv] by (simp add: t)
    show "way_ok loc (dl_bar t) q c (dl_way t q c)" if "q < n" "c < n" for q c
      using dl_invD(2) [OF inv that] by (simp add: t)
    show "kept (dl_made t q c) (dl_way t q c) (dl_stored t c)" if "q < n" "c < n" for q c
      using dl_invD(3) [OF inv that] by (auto simp: t kept_store kept_local kept_send)
    show "holds (dl_heap t c) (dl_stored t c)" if "c < n" for c
      using dl_invD(5) [OF inv that] by (auto simp: t holds_cells)
    show "made_some n t c" if "c < n" for c
    proof (cases "c = d")
        case True
        with dl_invD(4) [OF inv that] show ?thesis
          by (intro made_some_store [OF _ more p(1), of s c "bar_entered (dl_bar s) p" off v]) (simp_all add: t)
      next
        case False
        with dl_invD(4) [OF inv that] show ?thesis by (intro made_some_more [OF _ more, of n s c]) (simp_all add: t)
      qed
  qed
  thus ?thesis unfolding t_def .
qed

lemma dl_inv_put_remote:
  assumes inv: "dl_inv n loc s" and p: "p < n" "d < n" "bar_pc (dl_bar s) p = Outside" and loc: "\<not> loc p d"
  shows "dl_inv n loc (user_put loc p d off v s)"
proof -
  let ?e = "bar_entered (dl_bar s) p"
  define t where "t = user_put loc p d off v s"
  have t: "dl_bar t = dl_bar s" "dl_stored t = dl_stored s" "dl_heap t = dl_heap s"
    "\<And>q c. dl_made t q c = (if q = p \<and> c = d then dl_made s p d @ [(?e, off, v)] else dl_made s q c)"
    "\<And>q c. dl_way t q c = (if q = p \<and> c = d then dl_way s p d @ [User ?e off v] else dl_way s q c)"
    using loc by (auto simp: t_def user_put_def send_to_def Let_def fun_eq_iff)
  have e: "star p d \<Longrightarrow> sync_sent (dl_bar s) p d = ?e"
    using bar_invD(3) [OF dl_invD(1) [OF inv] p(1)] p(3) by (auto simp: sync_sent_def star_def sent_def)
  have "dl_inv n loc t"
  proof (rule dl_invI)
    show "bar_inv n (dl_bar t)" using dl_invD(1) [OF inv] by (simp add: t)
    show "way_ok loc (dl_bar t) q c (dl_way t q c)" if "q < n" "c < n" for q c
      using dl_invD(2) [OF inv that] e loc by (auto simp: t way_ok_def)
    show "kept (dl_made t q c) (dl_way t q c) (dl_stored t c)" if "q < n" "c < n" for q c
      using dl_invD(3) [OF inv that] by (auto simp: t kept_store kept_local kept_send)
    show "holds (dl_heap t c) (dl_stored t c)" if "c < n" for c
      using dl_invD(5) [OF inv that] by (simp add: t)
    show "made_some n t c" if "c < n" for c
      by (rule made_some_more [OF dl_invD(4) [OF inv that]]) (auto simp: t)
  qed
  thus ?thesis unfolding t_def .
qed

lemma dl_inv_arrive_User:
  assumes inv: "dl_inv n loc s" and p: "p < n" "d < n" and at: "dl_way s p d = User e off v # xs"
  shows "dl_inv n loc (arrive p d (User e off v) (s\<lparr>dl_way := put2 p d xs (dl_way s)\<rparr>))"
proof -
  define t where "t = arrive p d (User e off v) (s\<lparr>dl_way := put2 p d xs (dl_way s)\<rparr>)"
  have t: "dl_bar t = dl_bar s" "dl_made t = dl_made s"
    "\<And>q c. dl_way t q c = (if q = p \<and> c = d then xs else dl_way s q c)"
    "\<And>c. dl_stored t c = (if c = d then dl_stored s d @ put_cells off v else dl_stored s c)"
    "\<And>c. dl_heap t c = (if c = d then set_cells (put_cells off v) (dl_heap s d) else dl_heap s c)"
    by (auto simp: t_def store_at_def fun_eq_iff)
  have made: "(e, off, v) \<in> set (dl_made s p d)" using dl_invD(3) [OF inv p] at by (simp add: kept_def)
  have "dl_inv n loc t"
  proof (rule dl_invI)
    show "bar_inv n (dl_bar t)" using dl_invD(1) [OF inv] by (simp add: t)
    show "way_ok loc (dl_bar t) q c (dl_way t q c)" if "q < n" "c < n" for q c
      using dl_invD(2) [OF inv that] at by (auto simp: t way_ok_def split: if_splits)
    show "kept (dl_made t q c) (dl_way t q c) (dl_stored t c)" if "q < n" "c < n" for q c
      using dl_invD(3) [OF inv that] at by (auto simp: t intro: kept_store kept_arrive)
    show "holds (dl_heap t c) (dl_stored t c)" if "c < n" for c
      using dl_invD(5) [OF inv that] by (auto simp: t holds_cells)
    show "made_some n t c" if "c < n" for c
      using made_some_more [OF dl_invD(4) [OF inv that], of t] made
        made_some_store [OF dl_invD(4) [OF inv that] _ p(1), of t e off v]
      by (cases "c = d") (simp_all add: t)
  qed
  thus ?thesis unfolding t_def .
qed

lemma arrive_Sync_flight:
  assumes inv: "dl_inv n loc s" and p: "p < n" "d < n" and at: "dl_way s p d = Sync # xs"
  shows "star p d" "bar_flight (dl_bar s) d (sync_slot p d) = Suc (syncs xs)" "sync_slot p d < n"
  using dl_invD(2) [OF inv p] at p by (auto simp: way_ok_def sync_slot_def split: if_splits)

lemma dl_inv_arrive_Sync:
  assumes inv: "dl_inv n loc s" and p: "p < n" "d < n" and at: "dl_way s p d = Sync # xs"
  shows "dl_inv n loc (arrive p d Sync (s\<lparr>dl_way := put2 p d xs (dl_way s)\<rparr>))"
proof -
  let ?i = "sync_slot p d"
  define t where "t = arrive p d Sync (s\<lparr>dl_way := put2 p d xs (dl_way s)\<rparr>)"
  note f = arrive_Sync_flight [OF inv p at]
  have t: "dl_bar t = set_sync d ?i 1 (set_flight d ?i (syncs xs) (dl_bar s))" "dl_made t = dl_made s"
    "\<And>q c. dl_way t q c = (if q = p \<and> c = d then xs else dl_way s q c)"
    "dl_stored t = dl_stored s" "dl_heap t = dl_heap s"
    by (simp_all add: t_def Let_def f(2))
  have "dl_inv n loc t"
  proof (rule dl_invI)
    show "bar_inv n (dl_bar t)" unfolding t by (rule bar_inv_deliver [OF dl_invD(1) [OF inv] p(2) f(3,2)])
    show "way_ok loc (dl_bar t) q c (dl_way t q c)" if qc: "q < n" "c < n" for q c
    proof -
      have "sync_sent (dl_bar t) q c = sync_sent (dl_bar s) q c"
        by (simp only: t) (simp add: sync_sent_def barrier_updates)
      moreover have "bar_flight (dl_bar t) c (sync_slot q c) =
          (if q = p \<and> c = d then syncs xs else bar_flight (dl_bar s) c (sync_slot q c))" if "star q c"
        using that f(1) by (simp only: t) (auto simp: barrier_updates sync_slot_def star_def split: if_splits)
      ultimately show ?thesis using dl_invD(2) [OF inv qc] at f(1)
        by (auto simp: t(3) way_ok_def dest: in_order_tl split: if_splits)
    qed
    show "kept (dl_made t q c) (dl_way t q c) (dl_stored t c)" if "q < n" "c < n" for q c
      using dl_invD(3) [OF inv that] at by (auto simp: t)
  qed (use dl_invD(4,5) [OF inv] in \<open>simp_all add: t made_some_def\<close>)
  thus ?thesis unfolding t_def .
qed

inductive_cases dl_stepE: "dl_step n loc s t"

lemma dl_inv_step:
  assumes "dl_inv n loc s" and "dl_step n loc s t"
  shows "dl_inv n loc t"
  using assms(2)
proof (rule dl_stepE)
  fix p d off v assume t: "t = user_put loc p d off v s" and p: "p < n" "d < n" "bar_pc (dl_bar s) p = Outside"
  show ?thesis unfolding t
    using dl_inv_put_local [OF assms(1) p(1,2)] dl_inv_put_remote [OF assms(1) p] by (cases "loc p d") blast+
next
  fix p d x xs assume t: "t = arrive p d x (s\<lparr>dl_way := put2 p d xs (dl_way s)\<rparr>)"
    and p: "p < n" "d < n" "dl_way s p d = x # xs"
  show ?thesis unfolding t
    using dl_inv_arrive_Sync [OF assms(1) p(1,2)] dl_inv_arrive_User [OF assms(1) p(1,2)] p(3) by (cases x) auto
qed (use dl_inv_run [OF assms(1)] dl_inv_enter [OF assms(1)] in auto)

interpretation delivery: inductive_invariant "dl_start n" "dl_step n loc" "dl_inv n loc" for n loc
  by unfold_locales (blast intro: dl_inv_start dl_inv_step)+

text \<open>With its ways forgotten, a run is one of \<open>Barrier\<close>.\<close>

lemma dl_bar_step:
  assumes inv: "dl_inv n loc s" and step: "dl_step n loc s t"
  shows "dl_bar t = dl_bar s \<or> bar_step n loc (dl_bar s) (dl_bar t)"
  using step
proof (rule dl_stepE)
  fix p assume "t = s\<lparr>dl_bar := enter_barrier p (dl_bar s)\<rparr>" "p < n" "bar_pc (dl_bar s) p = Outside"
  thus ?thesis by (auto intro: bar_step.enter)
next
  fix p b assume t: "t = barrier_run n loc p b s" and p: "p < n" "comm_barrier_all n loc p (dl_bar s) = Some b"
  have "dl_bar t = b" by (simp add: t barrier_run_def send_to_def split: option.splits)
  with p show ?thesis by (auto intro: bar_step.move bar_move.run)
next
  fix p d off v assume "t = user_put loc p d off v s"
  thus ?thesis by (simp add: user_put_def send_to_def store_at_def Let_def)
next
  fix p d x xs assume t: "t = arrive p d x (s\<lparr>dl_way := put2 p d xs (dl_way s)\<rparr>)" and p: "p < n" "d < n" "dl_way s p d = x # xs"
  show ?thesis
  proof (cases x)
    case Sync
    have ok: "way_ok loc (dl_bar s) p d (Sync # xs)" using dl_invD(2) [OF inv p(1,2)] p(3) Sync by simp
    then obtain k where k: "bar_flight (dl_bar s) d (sync_slot p d) = Suc k" by (auto simp: way_ok_def split: if_splits)
    have "sync_slot p d < n" using p(1,2) by (simp add: sync_slot_def)
    from deliver [OF p(2) this k] k show ?thesis by (auto simp: t Sync Let_def intro: bar_step.move)
  qed (simp add: t store_at_def)
qed

interpretation barrier_of_delivery: step_refinement "dl_start n" "dl_step n loc" "dl_inv n loc" dl_bar "bar_start n" "bar_step n loc"
  for n loc
  by unfold_locales (auto simp: dl_start_def dest: dl_bar_step)

section \<open>Properties\<close>

lemma way_empty_after:
  assumes inv: "dl_inv n loc s" and p: "p < n" "d < n" and pd: "p = 0 \<or> d = 0 \<or> loc p d"
    and loc: "\<And>q. loc q q" and way: "User e a v \<in> set (dl_way s p d)"
  shows "bar_left (dl_bar s) d \<le> e"
proof -
  have ok: "way_ok loc (dl_bar s) p d (dl_way s p d)" by (rule dl_invD(2) [OF inv p])
  have "\<not> loc p d" using ok way by (auto simp: way_ok_def)
  with pd loc [of p] have star: "star p d" by (auto simp: star_def)
  hence "bar_flight (dl_bar s) d (sync_slot p d) = syncs (dl_way s p d)"
    "in_order (sync_sent (dl_bar s) p d) (dl_way s p d)" using ok by (simp_all add: way_ok_def)
  hence le: "sync_sent (dl_bar s) p d \<le> e + bar_flight (dl_bar s) d (sync_slot p d)"
    using in_order_member [OF _ way] by simp
  show ?thesis
  proof (cases "d = 0")
    case True
    with star le bar_invD(4) [OF dl_invD(1) [OF inv] p(1)] show ?thesis by (simp add: star_def sync_sent_def sync_slot_def)
  next
    case False
    with star le bar_invD(5) [OF dl_invD(1) [OF inv] p(2)] show ?thesis by (simp add: star_def sync_sent_def sync_slot_def)
  qed
qed

text \<open>Steps of the barrier can be taken while nothing of the program is on the ways to and from PE 0.\<close>

definition only_syncs :: "nat \<Rightarrow> delivery \<Rightarrow> bool" where
  "only_syncs n s \<longleftrightarrow> (\<forall>p < n. \<forall>d < n. star p d \<longrightarrow> set (dl_way s p d) \<subseteq> {Sync})"

lemma only_syncs_run: "only_syncs n s \<Longrightarrow> only_syncs n (barrier_run n loc p b s)"
  by (auto simp: only_syncs_def barrier_run_def send_to_def split: option.splits)

lemma only_syncs_arrive: "only_syncs n s \<Longrightarrow> dl_way s p d = Sync # xs \<Longrightarrow>
    only_syncs n (arrive p d Sync (s\<lparr>dl_way := put2 p d xs (dl_way s)\<rparr>))"
  by (fastforce simp: only_syncs_def Let_def)

lemma sync_on_way:
  assumes inv: "dl_inv n loc s" and only: "only_syncs n s" and d: "d < n" "i < n" and at: "bar_flight (dl_bar s) d i = Suc k"
  obtains p xs where "p < n" "dl_way s p d = Sync # xs" "sync_slot p d = i" "syncs xs = k"
proof -
  have slot: "d = 0 \<or> i = d" "i \<noteq> 0"
    using dl_invD(1) [OF inv] d at unfolding bar_inv_def no_stray_def by (metis Zero_not_Suc)+
  define p where "p = (if d = 0 then i else 0)"
  have p: "p < n" "star p d" "sync_slot p d = i" using slot d by (auto simp: p_def star_def sync_slot_def)
  hence "syncs (dl_way s p d) = Suc k" "set (dl_way s p d) \<subseteq> {Sync}"
    using dl_invD(2) [OF inv p(1) d(1)] at only d(1) by (simp_all add: way_ok_def only_syncs_def)
  then obtain xs where "dl_way s p d = Sync # xs" "syncs xs = k" by (cases "dl_way s p d") auto
  with p show thesis by (intro that)
qed

lemma bar_step_lifts:
  assumes inv: "dl_inv n loc s" and only: "only_syncs n s" and step: "bar_step n loc (dl_bar s) b"
  shows "\<exists>t. dl_step n loc s t \<and> only_syncs n t \<and> dl_bar t = b \<and> dl_made t = dl_made s \<and> dl_heap t = dl_heap s"
  using step
proof (rule bar_stepE)
  fix p assume "b = enter_barrier p (dl_bar s)" "p < n" "bar_pc (dl_bar s) p = Outside"
  thus ?thesis using only by (intro exI [of _ "s\<lparr>dl_bar := b\<rparr>"]) (auto simp: only_syncs_def intro: dl_enter)
next
  assume "bar_move n loc (dl_bar s) b"
  thus ?thesis
  proof (rule bar_moveE)
    fix p assume p: "p < n" "comm_barrier_all n loc p (dl_bar s) = Some b"
    show ?thesis using dl_run [OF p] only_syncs_run [OF only, of loc p b]
      by (intro exI [of _ "barrier_run n loc p b s"]) (simp add: barrier_run_def send_to_def split: option.splits)
  next
    fix d i k assume b: "b = set_sync d i (Suc 0) (set_flight d i k (dl_bar s))" "d < n" "i < n" "bar_flight (dl_bar s) d i = Suc k"
    obtain p xs where p: "p < n" "dl_way s p d = Sync # xs" "sync_slot p d = i"
      by (rule sync_on_way [OF inv only b(2-4)])
    show ?thesis using dl_arrive [OF p(1) b(2) p(2), of loc] only_syncs_arrive [OF only p(2)] b(1,4) p(3)
      by (intro exI [of _ "arrive p d Sync (s\<lparr>dl_way := put2 p d xs (dl_way s)\<rparr>)"]) (simp add: Let_def)
  qed
qed

lemma bar_steps_lift:
  assumes "(bar_step n loc)\<^sup>*\<^sup>* b b'" and "reach (dl_start n) (dl_step n loc) s" "only_syncs n s" "dl_bar s = b"
  shows "\<exists>t. reach (dl_start n) (dl_step n loc) t \<and> only_syncs n t \<and> dl_bar t = b' \<and> dl_made t = dl_made s \<and> dl_heap t = dl_heap s"
  using assms(1)
proof (induction rule: rtranclp_induct)
  case (step b1 b2)
  then obtain t where t: "reach (dl_start n) (dl_step n loc) t" "only_syncs n t" "dl_bar t = b1" "dl_made t = dl_made s"
    "dl_heap t = dl_heap s" by blast
  with bar_step_lifts [OF delivery.reach_inv [OF t(1)] t(2), of b2] step.hyps(2) show ?case by (auto intro: reach_next)
qed (use assms(2-4) in blast)

lemma all_can_enter:
  assumes "\<forall>p<n. bar_pc b p = Outside \<and> bar_entered b p = 0"
  shows "m \<le> n \<Longrightarrow> \<exists>b'. (bar_step n loc)\<^sup>*\<^sup>* b b' \<and>
    (\<forall>p<n. bar_entered b' p = (if p < m then 1 else 0) \<and> (m \<le> p \<longrightarrow> bar_pc b' p = Outside))"
proof (induction m)
  case (Suc m)
  then obtain b' where b': "(bar_step n loc)\<^sup>*\<^sup>* b b'"
    "\<forall>p<n. bar_entered b' p = (if p < m then 1 else 0) \<and> (m \<le> p \<longrightarrow> bar_pc b' p = Outside)" by auto
  hence "bar_step n loc b' (enter_barrier m b')" using Suc.prems by (intro bar_step.enter) auto
  with b' Suc.prems show ?case
    by (intro exI [of _ "enter_barrier m b'"]) (auto simp: barrier_updates intro: rtranclp.rtrancl_into_rtrancl)
qed (use assms in \<open>auto intro: exI [of _ b]\<close>)

lemma all_can_leave:
  assumes "0 < n"
  shows "\<exists>b. (bar_step n loc)\<^sup>*\<^sup>* bar_init b \<and> (\<forall>p<n. bar_pc b p = Outside \<and> bar_left b p = 1)"
proof -
  obtain b where b: "(bar_step n loc)\<^sup>*\<^sup>* bar_init b" "\<forall>p<n. bar_entered b p = 1"
    using all_can_enter [of n bar_init n loc] by (auto simp: bar_init_def)
  have "reach (bar_start n) (bar_step n loc) b"
    using reach_rtranclp [OF b(1)] bar_init [OF assms] by (blast intro: reach_start)
  from inevitable_reaches [OF bar_all_entered [OF barrier.reach_inv [OF this] b(2), of loc]]
  obtain c where c: "(bar_move n loc)\<^sup>*\<^sup>* b c" "\<forall>p<n. bar_pc c p = Outside \<and> bar_left c p = 1" by blast
  have "(bar_step n loc)\<^sup>*\<^sup>* b c"
    by (rule rtranclp_mono [THEN predicate2D, OF _ c(1)]) (auto intro: bar_step.move)
  with b(1) c(2) show ?thesis by (meson rtranclp_trans)
qed

text \<open>The system before its first step, with every heap filled with \<open>w\<close>.\<close>

definition dl_init :: "byte \<Rightarrow> delivery" where
  "dl_init w = \<lparr>dl_bar = bar_init, dl_way = \<lambda>_ _. [], dl_made = \<lambda>_ _. [], dl_heap = \<lambda>_ _. w, dl_stored = \<lambda>_. []\<rparr>"

lemma dl_init_reached: "0 < n \<Longrightarrow> reach (dl_start n) (dl_step n loc) (dl_init w)"
  by (rule reach_start) (simp add: dl_start_def dl_init_def bar_init)

lemma put_reached:
  "p < n \<Longrightarrow> d < n \<Longrightarrow> reach (dl_start n) (dl_step n loc) (user_put loc p d off v (dl_init w))"
  by (rule reach_next [OF dl_init_reached dl_put]) (simp_all add: dl_init_def bar_init_def)

text \<open>Two puts store the same wherever they overlap.\<close>

definition agree :: "nat \<times> byte list \<Rightarrow> nat \<times> byte list \<Rightarrow> bool" where
  "agree x y \<longleftrightarrow> (\<forall>(a, v) \<in> set (put_cells (fst x) (snd x)). \<forall>(b, w) \<in> set (put_cells (fst y) (snd y)). a = b \<longrightarrow> v = w)"

lemma agree_refl [simp]: "agree x x"
  by (auto simp: agree_def put_cells_iff)

lemma agreeD: "agree (a, bs) (b, cs) \<Longrightarrow> (x, v) \<in> set (put_cells a bs) \<Longrightarrow> (x, w) \<in> set (put_cells b cs) \<Longrightarrow> v = w"
  by (fastforce simp: agree_def)

lemma stored_bytes:
  assumes inv: "dl_inv n loc s" and d: "d < n" and st: "set (put_cells off bs) \<subseteq> set (dl_stored s d)"
    and same: "\<forall>q < n. \<forall>(f, y) \<in> set (dl_made s q d). agree (off, bs) y"
  shows "map (dl_heap s d) [off ..< off + length bs] = bs"
proof (rule nth_equalityI)
  fix i assume "i < length (map (dl_heap s d) [off ..< off + length bs])"
  hence i: "i < length bs" by simp
  hence c: "(off + i, bs ! i) \<in> set (put_cells off bs)" by (simp add: put_cells_iff)
  have "dl_heap s d (off + i) = bs ! i"
  proof (rule holdsD [OF dl_invD(5) [OF inv d]])
    show "(off + i, bs ! i) \<in> set (dl_stored s d)" using st c by blast
    fix w assume "(off + i, w) \<in> set (dl_stored s d)"
    then obtain q f a cs where "q < n" "(f, a, cs) \<in> set (dl_made s q d)" "(off + i, w) \<in> set (put_cells a cs)"
      using dl_invD(4) [OF inv d] unfolding made_some_def by blast
    with same agreeD [OF _ c] show "w = bs ! i" by fastforce
  qed
  with i show "map (dl_heap s d) [off ..< off + length bs] ! i = bs ! i" by simp
qed simp

text \<open>
  C22: no other put is completed. Between any two nodes without PE 0 a put made before a
  barrier can still be on its way when every PE has left the barrier, its place in the
  receiver's heap unchanged.
\<close>

theorem barrier_misses_put:
  assumes p: "p < n" "d < n" "p \<noteq> 0" "d \<noteq> 0" "\<not> loc p d"
  shows "\<exists>s. reach (dl_start n) (dl_step n loc) s \<and> (\<forall>q<n. bar_pc (dl_bar s) q = Outside \<and> bar_left (dl_bar s) q = 1) \<and>
    (0, off, bs) \<in> set (dl_made s p d) \<and> dl_heap s d = (\<lambda>_. w)"
proof -
  let ?s = "user_put loc p d off bs (dl_init w)"
  have s: "dl_bar ?s = bar_init" "dl_heap ?s = (\<lambda>_ _. w)" "(0, off, bs) \<in> set (dl_made ?s p d)" "only_syncs n ?s"
    using p by (auto simp: user_put_def send_to_def dl_init_def Let_def bar_init_def only_syncs_def star_def)
  obtain b where b: "(bar_step n loc)\<^sup>*\<^sup>* bar_init b" "\<forall>q<n. bar_pc b q = Outside \<and> bar_left b q = 1"
    using all_can_leave [of n loc] p(1) by auto
  obtain t where "reach (dl_start n) (dl_step n loc) t" "dl_bar t = b" "dl_made t = dl_made ?s" "dl_heap t = dl_heap ?s"
    using bar_steps_lift [OF b(1) put_reached [OF p(1,2)] s(4,1)] by auto
  with b(2) s(2,3) show ?thesis by auto
qed

theorem barrier_misses_put_witness:
  "\<exists>s. reach (dl_start 3) (dl_step 3 (=)) s \<and> (\<forall>q<3. bar_pc (dl_bar s) q = Outside \<and> bar_left (dl_bar s) q = 1) \<and>
    (0, 7, [5, 6]) \<in> set (dl_made s 1 2) \<and> dl_heap s 2 = (\<lambda>_. 0)"
  by (rule barrier_misses_put) simp_all

end
