(* ===== verification/Pipeline.thy ===== *)
theory Pipeline
  imports Delivery
begin

text \<open>
  The way of a put to another node, queue by queue: \<open>comm_remote_put\<close> appends it to the one
  send queue of its PE (\<open>comm_remote.c\<close>), the communication thread takes it from there to the
  socket of its destination, the communication thread of the receiver from the socket to the
  one job queue of its PE (\<open>work.c\<close>), and the worker executes it. Each queue is a list here;
  \<open>Comm_Remote\<close> and \<open>Work_Queue\<close> prove that the linked ones in the code are. \<open>Transport\<close>
  follows the bytes through all of them. A step is what one of the threads does with one
  packet or job, and all of them interleave.

  Every run of these queues is a run of \<open>Delivery\<close>, where a way is the part of the three
  queues that goes from one PE to another. So what is proved there of the barrier holds here.
  Nothing is lost in these queues; \<open>Barrier_Transport\<close> shows that the runs of the code in
  which nothing is lost are runs of them.
\<close>

section \<open>Definitions\<close>

text \<open>
  The barrier; the send queue of each PE, with destinations; the sockets, by sender and
  receiver; the job queue of each PE, with origins; then as in \<open>Delivery\<close>.
\<close>

record pipeline =
  pl_bar :: barrier
  pl_send :: "nat \<Rightarrow> (nat \<times> parcel) list"
  pl_socket :: "nat \<Rightarrow> nat \<Rightarrow> parcel list"
  pl_jobs :: "nat \<Rightarrow> (nat \<times> parcel) list"
  pl_made :: "nat \<Rightarrow> nat \<Rightarrow> (nat \<times> nat \<times> byte list) list"
  pl_heap :: "nat \<Rightarrow> nat \<Rightarrow> byte"
  pl_stored :: "nat \<Rightarrow> (nat \<times> byte) list"

definition pipe_store :: "nat \<Rightarrow> nat \<Rightarrow> byte list \<Rightarrow> pipeline \<Rightarrow> pipeline" where
  "pipe_store d off bs s = s\<lparr>pl_heap := (pl_heap s)(d := set_cells (put_cells off bs) (pl_heap s d)),
     pl_stored := (pl_stored s)(d := pl_stored s d @ put_cells off bs)\<rparr>"

text \<open>\<open>__comm_thread_enqueue\<close>.\<close>

definition pipe_enqueue :: "nat \<Rightarrow> nat \<Rightarrow> parcel \<Rightarrow> pipeline \<Rightarrow> pipeline" where
  "pipe_enqueue p d x s = s\<lparr>pl_send := (pl_send s)(p := pl_send s p @ [(d, x)])\<rparr>"

definition pipe_put :: "(nat \<Rightarrow> nat \<Rightarrow> bool) \<Rightarrow> nat \<Rightarrow> nat \<Rightarrow> nat \<Rightarrow> byte list \<Rightarrow> pipeline \<Rightarrow> pipeline" where
  "pipe_put loc p d off v s = (let e = bar_entered (pl_bar s) p;
       t = s\<lparr>pl_made := put2 p d (pl_made s p d @ [(e, off, v)]) (pl_made s)\<rparr>
     in if loc p d then pipe_store d off v t else pipe_enqueue p d (User e off v) t)"

definition pipe_run :: "nat \<Rightarrow> (nat \<Rightarrow> nat \<Rightarrow> bool) \<Rightarrow> nat \<Rightarrow> barrier \<Rightarrow> pipeline \<Rightarrow> pipeline" where
  "pipe_run n loc p b s =
     (case sync_target n (bar_pc (pl_bar s) p) of
        None \<Rightarrow> s\<lparr>pl_bar := b\<rparr>
      | Some d \<Rightarrow> if loc p d then s\<lparr>pl_bar := b\<rparr> else pipe_enqueue p d Sync (s\<lparr>pl_bar := b\<rparr>))"

text \<open>The worker of \<open>d\<close> executes a job that came from \<open>p\<close>.\<close>

fun pipe_execute :: "nat \<Rightarrow> nat \<Rightarrow> parcel \<Rightarrow> pipeline \<Rightarrow> pipeline" where
  "pipe_execute p d Sync s = (let b = pl_bar s; i = sync_slot p d in
     s\<lparr>pl_bar := set_sync d i 1 (set_flight d i (bar_flight b d i - 1) b)\<rparr>)"
| "pipe_execute p d (User e off v) s = pipe_store d off v s"

text \<open>
  The threads: \<open>__comm_thread_send\<close> and \<open>__comm_thread_receive\<close> with one packet, the worker
  with one job.
\<close>

inductive pipe_move :: "nat \<Rightarrow> pipeline \<Rightarrow> pipeline \<Rightarrow> bool" for n where
  pl_sent: "p < n \<Longrightarrow> pl_send s p = (d, x) # q \<Longrightarrow>
    pipe_move n s (s\<lparr>pl_send := (pl_send s)(p := q), pl_socket := put2 p d (pl_socket s p d @ [x]) (pl_socket s)\<rparr>)"
| pl_received: "p < n \<Longrightarrow> d < n \<Longrightarrow> pl_socket s p d = x # q \<Longrightarrow>
    pipe_move n s (s\<lparr>pl_socket := put2 p d q (pl_socket s), pl_jobs := (pl_jobs s)(d := pl_jobs s d @ [(p, x)])\<rparr>)"
| pl_worked: "d < n \<Longrightarrow> pl_jobs s d = (p, x) # q \<Longrightarrow>
    pipe_move n s (pipe_execute p d x (s\<lparr>pl_jobs := (pl_jobs s)(d := q)\<rparr>))"

inductive pipe_step :: "nat \<Rightarrow> (nat \<Rightarrow> nat \<Rightarrow> bool) \<Rightarrow> pipeline \<Rightarrow> pipeline \<Rightarrow> bool" for n loc where
  pl_enter: "p < n \<Longrightarrow> bar_pc (pl_bar s) p = Outside \<Longrightarrow>
    pipe_step n loc s (s\<lparr>pl_bar := enter_barrier p (pl_bar s)\<rparr>)"
| pl_run: "p < n \<Longrightarrow> comm_barrier_all n loc p (pl_bar s) = Some b \<Longrightarrow> pipe_step n loc s (pipe_run n loc p b s)"
| pl_put: "p < n \<Longrightarrow> d < n \<Longrightarrow> bar_pc (pl_bar s) p = Outside \<Longrightarrow> pipe_step n loc s (pipe_put loc p d off v s)"
| pl_move: "pipe_move n s t \<Longrightarrow> pipe_step n loc s t"

definition pipe_start :: "nat \<Rightarrow> pipeline \<Rightarrow> bool" where
  "pipe_start n s \<longleftrightarrow> bar_start n (pl_bar s) \<and> pl_send s = (\<lambda>_. []) \<and> pl_socket s = (\<lambda>_ _. []) \<and>
     pl_jobs s = (\<lambda>_. []) \<and> pl_made s = (\<lambda>_ _. []) \<and> pl_stored s = (\<lambda>_. [])"

inductive_cases pipe_stepE: "pipe_step n loc s t"
inductive_cases pipe_moveE: "pipe_move n s t"

section \<open>Every run is one of Delivery\<close>

definition pipe_way :: "pipeline \<Rightarrow> nat \<Rightarrow> nat \<Rightarrow> parcel list" where
  "pipe_way s p d = sel p (pl_jobs s d) @ pl_socket s p d @ sel d (pl_send s p)"

definition pipe_abs :: "pipeline \<Rightarrow> delivery" where
  "pipe_abs s = \<lparr>dl_bar = pl_bar s, dl_way = pipe_way s, dl_made = pl_made s, dl_heap = pl_heap s,
     dl_stored = pl_stored s\<rparr>"

text \<open>Only PEs of the job are origins and destinations.\<close>

definition pipe_inv :: "nat \<Rightarrow> pipeline \<Rightarrow> bool" where
  "pipe_inv n s \<longleftrightarrow> (\<forall>p < n. \<forall>x \<in> set (pl_send s p). fst x < n) \<and> (\<forall>d < n. \<forall>x \<in> set (pl_jobs s d). fst x < n)"

lemma sync_target_less: "p < n \<Longrightarrow> sync_target n c = Some d \<Longrightarrow> d < n"
  by (cases c) (auto split: if_splits)

lemma pipe_execute_keeps [simp]:
  "pl_send (pipe_execute p d x s) = pl_send s" "pl_socket (pipe_execute p d x s) = pl_socket s"
  "pl_jobs (pipe_execute p d x s) = pl_jobs s" "pl_made (pipe_execute p d x s) = pl_made s"
  by (cases x; simp add: Let_def pipe_store_def)+

lemma pipe_inv_step:
  assumes inv: "pipe_inv n s" and step: "pipe_step n loc s t"
  shows "pipe_inv n t"
  using step
proof (rule pipe_stepE)
  fix p b assume "t = pipe_run n loc p b s" "p < n"
  with inv show ?thesis
    by (auto simp: pipe_run_def pipe_inv_def pipe_enqueue_def dest: sync_target_less split: option.splits)
next
  fix p d off v assume "t = pipe_put loc p d off v s" "d < n"
  with inv show ?thesis by (auto simp: pipe_put_def pipe_inv_def pipe_enqueue_def pipe_store_def Let_def)
next
  assume "pipe_move n s t"
  thus ?thesis by (rule pipe_moveE) (use inv in \<open>auto simp: pipe_inv_def\<close>)
qed (use inv in \<open>simp add: pipe_inv_def\<close>)

lemma way_updates [simp]:
  "pipe_way (s\<lparr>pl_bar := b\<rparr>) = pipe_way s" "pipe_way (s\<lparr>pl_made := m\<rparr>) = pipe_way s"
  "pipe_way (s\<lparr>pl_heap := h\<rparr>) = pipe_way s" "pipe_way (s\<lparr>pl_stored := st\<rparr>) = pipe_way s"
  by (simp_all add: pipe_way_def fun_eq_iff)

lemma abs_bar: "dl_bar (pipe_abs s) = pl_bar s"
  by (simp add: pipe_abs_def)

lemma abs_updates:
  "pipe_abs (s\<lparr>pl_bar := b\<rparr>) = pipe_abs s\<lparr>dl_bar := b\<rparr>"
  "pipe_abs (s\<lparr>pl_made := m\<rparr>) = pipe_abs s\<lparr>dl_made := m\<rparr>"
  by (simp_all add: pipe_abs_def)

lemma abs_enqueue: "pipe_abs (pipe_enqueue p d x s) = send_to p d x (pipe_abs s)"
  by (auto simp: pipe_abs_def send_to_def pipe_enqueue_def pipe_way_def fun_eq_iff)

lemma abs_store: "pipe_abs (pipe_store d off v s) = store_at d off v (pipe_abs s)"
  by (simp add: pipe_abs_def store_at_def pipe_store_def)

lemma abs_put: "pipe_abs (pipe_put loc p d off v s) = user_put loc p d off v (pipe_abs s)"
proof -
  have "dl_made (pipe_abs s) = pl_made s" by (simp add: pipe_abs_def)
  thus ?thesis by (simp add: pipe_put_def user_put_def Let_def abs_enqueue abs_store abs_updates abs_bar)
qed

lemma abs_run: "pipe_abs (pipe_run n loc p b s) = barrier_run n loc p b (pipe_abs s)"
  by (simp add: pipe_run_def barrier_run_def abs_enqueue abs_updates abs_bar split: option.splits)

lemma abs_execute: "pipe_abs (pipe_execute p d x s) = arrive p d x (pipe_abs s)"
  by (cases x) (simp_all add: abs_store abs_updates abs_bar Let_def)

lemma abs_move:
  assumes inv: "pipe_inv n s" and move: "pipe_move n s t"
  shows "pipe_abs t = pipe_abs s \<or> dl_step n loc (pipe_abs s) (pipe_abs t)"
  using move
proof (rule pipe_moveE)
  fix d p x q assume t: "t = pipe_execute p d x (s\<lparr>pl_jobs := (pl_jobs s)(d := q)\<rparr>)"
    and d: "d < n" "pl_jobs s d = (p, x) # q"
  let ?u = "s\<lparr>pl_jobs := (pl_jobs s)(d := q)\<rparr>"
  have p: "p < n" using inv d by (auto simp: pipe_inv_def)
  have way: "dl_way (pipe_abs s) p d = x # pipe_way ?u p d" using d(2) by (simp add: pipe_abs_def pipe_way_def)
  have "pipe_way ?u = put2 p d (pipe_way ?u p d) (pipe_way s)"
    using d(2) by (auto simp: pipe_way_def fun_eq_iff)
  hence "pipe_abs ?u = pipe_abs s\<lparr>dl_way := put2 p d (pipe_way ?u p d) (dl_way (pipe_abs s))\<rparr>"
    by (simp add: pipe_abs_def)
  with dl_arrive [OF p d(1) way, of loc] show ?thesis by (simp add: t abs_execute)
qed (auto simp: pipe_abs_def pipe_way_def fun_eq_iff)

lemma abs_step:
  assumes inv: "pipe_inv n s" and step: "pipe_step n loc s t"
  shows "pipe_abs t = pipe_abs s \<or> dl_step n loc (pipe_abs s) (pipe_abs t)"
  using step
proof (rule pipe_stepE)
  fix p assume "t = s\<lparr>pl_bar := enter_barrier p (pl_bar s)\<rparr>" "p < n" "bar_pc (pl_bar s) p = Outside"
  thus ?thesis using dl_enter [of p n "pipe_abs s" loc] by (simp add: abs_updates abs_bar)
next
  fix p b assume "t = pipe_run n loc p b s" "p < n" "comm_barrier_all n loc p (pl_bar s) = Some b"
  thus ?thesis using dl_run [of p n loc "pipe_abs s" b] by (simp add: abs_run abs_bar)
next
  fix p d off v assume "t = pipe_put loc p d off v s" "p < n" "d < n" "bar_pc (pl_bar s) p = Outside"
  thus ?thesis using dl_put [of p n d "pipe_abs s" loc off v] by (simp add: abs_put abs_bar)
qed (rule abs_move [OF inv])

interpretation pipeline: step_refinement "pipe_start n" "pipe_step n loc" "pipe_inv n" pipe_abs "dl_start n" "dl_step n loc"
  for n loc
proof unfold_locales
  show "dl_start n (pipe_abs s)" if "pipe_start n s" for s
    using that by (simp add: pipe_start_def dl_start_def pipe_abs_def pipe_way_def fun_eq_iff)
  show "pipe_inv n s" if "pipe_start n s" for s using that by (simp add: pipe_start_def pipe_inv_def)
qed (rule abs_step pipe_inv_step; assumption)+

text \<open>
  Conversely, the queues can be served so promptly that only the sockets hold anything.
  Then they are the ways of \<open>Delivery\<close>, and each of its steps is one or two steps here.
\<close>

definition pipe_of :: "delivery \<Rightarrow> pipeline" where
  "pipe_of s = \<lparr>pl_bar = dl_bar s, pl_send = \<lambda>_. [], pl_socket = dl_way s, pl_jobs = \<lambda>_. [], pl_made = dl_made s,
     pl_heap = dl_heap s, pl_stored = dl_stored s\<rparr>"

lemma const_upd [simp]: "(\<lambda>_. c)(d := c) = (\<lambda>_. c)"
  by (simp add: fun_eq_iff)

lemma pipe_abs_of [simp]: "pipe_abs (pipe_of s) = s"
  by (cases s) (simp add: pipe_abs_def pipe_of_def pipe_way_def fun_eq_iff)

text \<open>A packet in the send queue is sent at once.\<close>

lemma sent_at_once:
  assumes "p < n" and "pipe_step n loc (pipe_of s) (pipe_enqueue p d x (pipe_of t))"
    and "reach i (pipe_step n loc) (pipe_of s)"
  shows "reach i (pipe_step n loc) (pipe_of (send_to p d x t))"
proof -
  let ?u = "pipe_enqueue p d x (pipe_of t)"
  have at: "pl_send ?u p = (d, x) # []" by (simp add: pipe_enqueue_def pipe_of_def)
  have eq: "?u\<lparr>pl_send := (pl_send ?u)(p := []), pl_socket := put2 p d (pl_socket ?u p d @ [x]) (pl_socket ?u)\<rparr> =
      pipe_of (send_to p d x t)"
    by (simp add: pipe_enqueue_def pipe_of_def send_to_def fun_eq_iff)
  have "pipe_move n ?u (pipe_of (send_to p d x t))"
    using pl_sent [OF assms(1) at] unfolding eq .
  hence "pipe_step n loc ?u (pipe_of (send_to p d x t))" by (rule pl_move)
  with reach_next [OF assms(3,2)] show ?thesis by (rule reach_next)
qed

lemma pipe_of_store: "pipe_store d off v (pipe_of s) = pipe_of (store_at d off v s)"
  by (simp add: pipe_store_def store_at_def pipe_of_def)

lemma pipe_of_updates:
  "pipe_of s\<lparr>pl_bar := b\<rparr> = pipe_of (s\<lparr>dl_bar := b\<rparr>)" "pipe_of s\<lparr>pl_made := m\<rparr> = pipe_of (s\<lparr>dl_made := m\<rparr>)"
  "pl_bar (pipe_of s) = dl_bar s" "pl_made (pipe_of s) = dl_made s"
  by (simp_all add: pipe_of_def)

lemma pipe_of_execute: "pipe_execute p d x (pipe_of s) = pipe_of (arrive p d x s)"
  by (cases x) (simp_all add: pipe_of_store pipe_of_updates Let_def)

lemma pipe_of_step:
  assumes step: "dl_step n loc s t" and r: "reach i (pipe_step n loc) (pipe_of s)"
  shows "reach i (pipe_step n loc) (pipe_of t)"
  using step
proof (rule dl_stepE)
  fix p assume "t = s\<lparr>dl_bar := enter_barrier p (dl_bar s)\<rparr>" "p < n" "bar_pc (dl_bar s) p = Outside"
  thus ?thesis using reach_next [OF r pl_enter [of p n]] by (simp add: pipe_of_updates)
next
  fix p b assume t: "t = barrier_run n loc p b s" and p: "p < n" "comm_barrier_all n loc p (dl_bar s) = Some b"
  have st: "pipe_step n loc (pipe_of s) (pipe_run n loc p b (pipe_of s))"
    using p by (intro pl_run) (simp_all add: pipe_of_updates)
  show ?thesis using reach_next [OF r st] sent_at_once [OF p(1) _ r, of _ Sync "s\<lparr>dl_bar := b\<rparr>"] st
    by (auto simp: t pipe_run_def barrier_run_def pipe_of_updates split: option.splits if_splits)
next
  fix p d off v assume t: "t = user_put loc p d off v s" and p: "p < n" "d < n" "bar_pc (dl_bar s) p = Outside"
  have st: "pipe_step n loc (pipe_of s) (pipe_put loc p d off v (pipe_of s))"
    using p by (intro pl_put) (simp_all add: pipe_of_updates)
  show ?thesis using reach_next [OF r st] sent_at_once [OF p(1) _ r] st
    by (auto simp: t pipe_put_def user_put_def pipe_of_updates pipe_of_store Let_def split: if_splits)
next
  fix p d x xs assume t: "t = arrive p d x (s\<lparr>dl_way := put2 p d xs (dl_way s)\<rparr>)"
    and p: "p < n" "d < n" "dl_way s p d = x # xs"
  let ?u = "pipe_of s\<lparr>pl_socket := put2 p d xs (dl_way s), pl_jobs := (\<lambda>_. [])(d := [(p, x)])\<rparr>"
  have "pipe_move n (pipe_of s) ?u"
    using pl_received [of p n d "pipe_of s" x xs] p by (simp add: pipe_of_def)
  moreover have "pipe_move n ?u (pipe_of t)"
    using pl_worked [of d n ?u p x "[]"] p pipe_of_execute [of p d x "s\<lparr>dl_way := put2 p d xs (dl_way s)\<rparr>"]
    by (simp add: t) (simp add: pipe_of_def)
  ultimately show ?thesis using r by (blast intro: reach_next pl_move)
qed

lemma pipe_of_reach: "reach (dl_start n) (dl_step n loc) s \<Longrightarrow> reach (pipe_start n) (pipe_step n loc) (pipe_of s)"
proof (induction rule: reach.induct)
  case (reach_start s)
  thus ?case by (intro reach.reach_start) (simp add: dl_start_def pipe_start_def pipe_of_def)
qed (rule pipe_of_step)

section \<open>The threads bring every put to its heap\<close>

text \<open>The steps the threads have before them.\<close>

definition pipe_load :: "nat \<Rightarrow> pipeline \<Rightarrow> nat" where
  "pipe_load n s = (\<Sum>p<n. 3 * length (pl_send s p)) + (\<Sum>p<n. \<Sum>d<n. 2 * length (pl_socket s p d)) +
     (\<Sum>d<n. length (pl_jobs s d))"

lemma pipe_move_load:
  assumes inv: "pipe_inv n s" and move: "pipe_move n s t"
  shows "pipe_load n t < pipe_load n s"
  using move
proof (rule pipe_moveE)
  fix p d x q assume t: "t = s\<lparr>pl_send := (pl_send s)(p := q), pl_socket := put2 p d (pl_socket s p d @ [x]) (pl_socket s)\<rparr>"
    and p: "p < n" "pl_send s p = (d, x) # q"
  have "d < n" using inv p by (force simp: pipe_inv_def)
  thus ?thesis using sum_update [OF p(1), of "\<lambda>_ ys. 3 * length ys" "pl_send s" q]
      sum_update2 [OF p(1), of d "\<lambda>ys. 2 * length ys" "pl_socket s p d @ [x]" "pl_socket s"] p(2)
    by (simp add: t pipe_load_def del: put2_apply)
next
  fix p d x q assume t: "t = s\<lparr>pl_socket := put2 p d q (pl_socket s), pl_jobs := (pl_jobs s)(d := pl_jobs s d @ [(p, x)])\<rparr>"
    and p: "p < n" "d < n" "pl_socket s p d = x # q"
  thus ?thesis using sum_update [OF p(2), of "\<lambda>_ ys. length ys" "pl_jobs s" "pl_jobs s d @ [(p, x)]"]
      sum_update2 [OF p(1,2), of "\<lambda>ys. 2 * length ys" q "pl_socket s"]
    by (simp add: pipe_load_def del: put2_apply)
next
  fix d p x q assume t: "t = pipe_execute p d x (s\<lparr>pl_jobs := (pl_jobs s)(d := q)\<rparr>)"
    and p: "d < n" "pl_jobs s d = (p, x) # q"
  thus ?thesis using sum_update [OF p(1), of "\<lambda>_ ys. length ys" "pl_jobs s" q] by (simp add: pipe_load_def)
qed

definition pipe_empty :: "nat \<Rightarrow> pipeline \<Rightarrow> bool" where
  "pipe_empty n s \<longleftrightarrow> (\<forall>p < n. pl_send s p = [] \<and> pl_jobs s p = [] \<and> (\<forall>d < n. pl_socket s p d = []))"

lemma pipe_can_move: "\<not> pipe_empty n s \<Longrightarrow> \<exists>t. pipe_move n s t"
  by (auto simp: pipe_empty_def neq_Nil_conv intro: pl_sent pl_received pl_worked)

lemma pipe_move_made: "pipe_move n s t \<Longrightarrow> pl_made t = pl_made s"
  by (erule pipe_moveE) simp_all

section \<open>The queues implement the ways\<close>

text \<open>
  The states that the send queues, sockets and job queues of all PEs reach are, with a way for
  the part of the queues from one PE to another, exactly those of \<open>Delivery\<close>.
\<close>

lemma pipeline_delivers:
  "reach (dl_start n) (dl_step n loc) u \<longleftrightarrow> (\<exists>s. reach (pipe_start n) (pipe_step n loc) s \<and> pipe_abs s = u)"
  using pipeline.reach_abs pipe_of_reach pipe_abs_of by metis

end
