(* ===== verification/Barrier_Transport.thy ===== *)
theory Barrier_Transport
  imports Transport Pipeline
begin

text \<open>
  The barrier on the transport: \<open>comm_barrier_all\<close> of \<open>comm/comm.c\<close> on the memory and the state
  of each PE. It tests and clears the elements of \<open>pSync\<close> with loads and stores of an \<open>int\<close> in
  its own symmetric heap, and sets those of other PEs with \<open>comm_put\<close> of the bytes of the
  integer 1, which go the way of every put: packets, sockets, buffers and jobs of \<open>Transport\<close>.
  PEs of one node share its memory, and \<open>comm_put\<close> stores in it at once.

  The theory proves that as long as nothing has been lost (\<open>tp_intact\<close> of \<open>Transport\<close>) this
  program with its threads does what \<open>Pipeline\<close> says: the queues
  hold the bytes of the parcels there, and the bytes of \<open>pSync\<close> in each heap are its elements.
  So what is proved of the barrier in \<open>Barrier\<close> and \<open>Delivery\<close> is true of the code's own
  functions on bytes.
\<close>

section \<open>Definitions\<close>

text \<open>The element \<open>__pSync[i]\<close>, and an \<open>int\<close> in memory.\<close>

definition psync_at :: "pe_state \<Rightarrow> nat \<Rightarrow> ptr" where
  "psync_at s i = ps_psync s + of_nat (4 * i)"

definition load_int :: "ptr \<Rightarrow> node_mem \<times> pe_state \<Rightarrow> nat option" where
  "load_int a x = do {
     let (nm, s) = x;
     bs \<leftarrow> load_bytes nm (me_of s) (maps_of s) a 4;
     Some (nat_of_bytes bs)
   }"

definition store_int :: "ptr \<Rightarrow> nat \<Rightarrow> node_mem \<times> pe_state \<Rightarrow> (node_mem \<times> pe_state) option" where
  "store_int a v x = do {
     let (nm, s) = x;
     nm \<leftarrow> store_bytes nm (me_of s) (maps_of s) a (bytes_of_nat 4 v);
     Some (nm, s)
   }"

text \<open>\<open>comm_put\<close> of the local variable \<open>value\<close> to element \<open>i\<close> of the array of PE \<open>pe\<close>.\<close>

definition psync_put :: "ptr \<Rightarrow> nat \<Rightarrow> c_int \<Rightarrow> node_mem \<times> pe_state \<Rightarrow> (node_mem \<times> pe_state) option" where
  "psync_put value i pe x = do {
     off \<leftarrow> comm_local_offset (ps_local (snd x)) (psync_at (snd x) i);
     comm_put off value 4 pe x
   }"

definition my_index :: "pe_state \<Rightarrow> nat" where
  "my_index s = nat (sint (comm_remote_pe (ps_remote s)))"

definition below_n_pes :: "nat \<Rightarrow> pe_state \<Rightarrow> bool" where
  "below_n_pes i s \<longleftrightarrow> int i < sint (comm_remote_n_pes (ps_remote s))"

text \<open>
  \<open>comm_barrier_all\<close> between two accesses to the arrays: where it begins, and one step from
  each of the program points of \<open>Barrier\<close>.
\<close>

definition barrier_entry :: "pe_state \<Rightarrow> bar_pc" where
  "barrier_entry s = (if comm_remote_pe (ps_remote s) = 0 then Gather 1 else Notify)"

fun barrier_turn :: "ptr \<Rightarrow> bar_pc \<Rightarrow> node_mem \<times> pe_state \<Rightarrow> (bar_pc \<times> node_mem \<times> pe_state) option" where
  "barrier_turn value Outside x = None"
| "barrier_turn value (Gather i) x =
     (if below_n_pes i (snd x) then do { v \<leftarrow> load_int (psync_at (snd x) i) x; Some (if v = 0 then Gather i else Clear i, x) }
      else Some (Release 1, x))"
| "barrier_turn value (Clear i) x = do { x \<leftarrow> store_int (psync_at (snd x) i) 0 x; Some (Gather (Suc i), x) }"
| "barrier_turn value (Release i) x =
     (if below_n_pes i (snd x) then do { x \<leftarrow> psync_put value i (of_nat i) x; Some (Release (Suc i), x) }
      else Some (Outside, x))"
| "barrier_turn value Notify x = do { x \<leftarrow> psync_put value (my_index (snd x)) 0 x; Some (Await, x) }"
| "barrier_turn value Await x = do {
     v \<leftarrow> load_int (psync_at (snd x) (my_index (snd x))) x;
     Some (if v = 0 then Await else ClearOwn, x)
   }"
| "barrier_turn value ClearOwn x = do { x \<leftarrow> store_int (psync_at (snd x) (my_index (snd x))) 0 x; Some (Outside, x) }"

text \<open>
  A run: the transport, the place of each PE in the barrier, how often it has entered and left
  it, and the puts of its program, each with the number of barriers entered before.
\<close>

record job_run =
  jr_tp :: transport
  jr_pc :: "nat \<Rightarrow> bar_pc"
  jr_entered :: "nat \<Rightarrow> nat"
  jr_left :: "nat \<Rightarrow> nat"
  jr_puts :: "nat \<Rightarrow> nat \<Rightarrow> (nat \<times> nat \<times> byte list) list"

abbreviation jr_at :: "layout \<Rightarrow> job_run \<Rightarrow> nat \<Rightarrow> node_mem \<times> pe_state" where
  "jr_at L s p \<equiv> (mem_at L (jr_tp s) p, tp_pe (jr_tp s) p)"

definition jr_moved :: "nat \<Rightarrow> bar_pc \<Rightarrow> job_run \<Rightarrow> job_run" where
  "jr_moved p c s = s\<lparr>jr_pc := (jr_pc s)(p := c),
     jr_left := (if c = Outside then (jr_left s)(p := Suc (jr_left s p)) else jr_left s)\<rparr>"

text \<open>A put that goes to another node is one of the transport's.\<close>

abbreviation near :: "layout \<Rightarrow> nat \<Rightarrow> nat \<Rightarrow> bool" where
  "near L \<equiv> \<lambda>p q. ly_node L p = ly_node L q"

definition tp_note :: "layout \<Rightarrow> nat \<Rightarrow> nat \<Rightarrow> nat \<times> byte list \<Rightarrow> transport \<Rightarrow> transport" where
  "tp_note L p q x s = (if apart L p q then tp_log p q x s else s)"

definition sync_note :: "nat \<Rightarrow> layout \<Rightarrow> nat \<Rightarrow> nat \<Rightarrow> bar_pc \<Rightarrow> transport \<Rightarrow> transport" where
  "sync_note n L ps p c s = (case sync_target n c of
     None \<Rightarrow> s | Some q \<Rightarrow> tp_note L p q (ps + 4 * sync_slot p q, bytes_of_nat 4 1) s)"

text \<open>The local variable \<open>value\<close> of \<open>comm_barrier_all\<close>, which is 1.\<close>

definition one_at :: "ptr \<Rightarrow> node_mem \<times> pe_state \<Rightarrow> bool" where
  "one_at value x \<longleftrightarrow> load_int value x = Some 1 \<and> priv_area (maps_of (snd x)) value 4"

text \<open>The program keeps off the array, which is at offset \<open>ps\<close> of every heap.\<close>

definition off_psync :: "nat \<Rightarrow> nat \<Rightarrow> nat \<Rightarrow> nat \<Rightarrow> bool" where
  "off_psync n ps off m \<longleftrightarrow> off + m \<le> ps \<or> ps + 4 * n \<le> off"

inductive jr_step :: "nat \<Rightarrow> layout \<Rightarrow> nat \<Rightarrow> (ptr \<Rightarrow> byte) \<Rightarrow> job_run \<Rightarrow> job_run \<Rightarrow> bool" for n L ps junk where
  jr_enter: "p < n \<Longrightarrow> jr_pc s p = Outside \<Longrightarrow>
    jr_step n L ps junk s (s\<lparr>jr_pc := (jr_pc s)(p := barrier_entry (tp_pe (jr_tp s) p)),
      jr_entered := (jr_entered s)(p := Suc (jr_entered s p))\<rparr>)"
| jr_turn: "p < n \<Longrightarrow> one_at value (jr_at L s p) \<Longrightarrow>
    barrier_turn value (jr_pc s p) (jr_at L s p) = Some (c, m, t) \<Longrightarrow>
    jr_step n L ps junk s (jr_moved p c (s\<lparr>jr_tp := sync_note n L ps p (jr_pc s p) (tp_with L p m t (jr_tp s))\<rparr>))"
| jr_put: "p < n \<Longrightarrow> q < n \<Longrightarrow> jr_pc s p = Outside \<Longrightarrow> off + unat sz \<le> SYMMETRIC_HEAP_SIZE \<Longrightarrow> off_psync n ps off (unat sz) \<Longrightarrow>
    load_bytes (mem_at L (jr_tp s) p) (me_of (tp_pe (jr_tp s) p)) (maps_of (tp_pe (jr_tp s) p)) src (unat sz) = Some xs \<Longrightarrow>
    near L p q \<longrightarrow> priv_area (maps_of (tp_pe (jr_tp s) p)) src (unat sz) \<Longrightarrow>
    comm_put (of_nat off) src sz (of_nat q) (jr_at L s p) = Some (m, t) \<Longrightarrow>
    jr_step n L ps junk s (s\<lparr>jr_tp := tp_note L p q (off, xs) (tp_with L p m t (jr_tp s)),
      jr_puts := put2 p q (jr_puts s p q @ [(jr_entered s p, off, xs)]) (jr_puts s)\<rparr>)"
| jr_threads: "tp_thread n L junk (jr_tp s) u \<Longrightarrow> jr_step n L ps junk s (s\<lparr>jr_tp := u\<rparr>)"

text \<open>
  What the initialization leaves: a job of more than zero PEs, each of which knows its number,
  with the array at offset \<open>ps\<close> of its heap, cleared.
\<close>

definition job_pe :: "nat \<Rightarrow> nat \<Rightarrow> nat \<Rightarrow> pe_state \<Rightarrow> bool" where
  "job_pe n ps p s \<longleftrightarrow> cr_my_pe (ps_remote s) = of_nat p \<and> cr_n_pes (ps_remote s) = of_nat n \<and> ps + 4 * n \<le> SYMMETRIC_HEAP_SIZE \<and>
     (\<exists>h. cl_symmetric_heap (ps_local s) = Some h \<and>
       local_pe (ps_node s) (ps_local s) (of_nat p) (me_of s) (h_ptr (sh_heap h)) \<and>
       ps_psync s = h_ptr (sh_heap h) + of_nat ps)"

definition jr_start :: "nat \<Rightarrow> layout \<Rightarrow> nat \<Rightarrow> job_run \<Rightarrow> bool" where
  "jr_start n L ps s \<longleftrightarrow> 0 < n \<and> tp_start n L (jr_tp s) \<and>
     (\<forall>p < n. job_pe n ps p (tp_pe (jr_tp s) p) \<and> (\<forall>k. ps \<le> k \<and> k < ps + 4 * n \<longrightarrow> own_heap L (jr_tp s) p k = 0)) \<and>
     jr_pc s = (\<lambda>_. Outside) \<and> jr_entered s = (\<lambda>_. 0) \<and> jr_left s = (\<lambda>_. 0) \<and> jr_puts s = (\<lambda>_ _. [])"

inductive_cases jr_stepE: "jr_step n L ps junk s t"

section \<open>The array in the heap\<close>

text \<open>Element \<open>i\<close>, from the bytes.\<close>

definition sync_int :: "nat \<Rightarrow> (nat \<Rightarrow> byte) \<Rightarrow> nat \<Rightarrow> nat" where
  "sync_int ps h i = nat_of_bytes (map h [ps + 4 * i ..< ps + 4 * i + 4])"

lemma bytes_at_map: "map (bytes_at off bs h) [off ..< off + length bs] = bs"
  by (rule nth_equalityI) (simp_all add: bytes_at_def)

lemma bytes_at_other: "k < off \<or> off + length bs \<le> k \<Longrightarrow> bytes_at off bs h k = h k"
  by (auto simp: bytes_at_def)

lemma sync_int_set:
  "sync_int ps (bytes_at (ps + 4 * i) (bytes_of_nat 4 v) h) j = (if j = i then v mod 2 ^ 32 else sync_int ps h j)"
proof (cases "j = i")
  case True
  thus ?thesis using bytes_at_map [of "ps + 4 * i" "bytes_of_nat 4 v" h] by (simp add: sync_int_def nat_of_bytes_of_nat)
next
  case False
  hence "map (bytes_at (ps + 4 * i) (bytes_of_nat 4 v) h) [ps + 4 * j ..< ps + 4 * j + 4] = map h [ps + 4 * j ..< ps + 4 * j + 4]"
    by (intro map_cong refl bytes_at_other) auto
  thus ?thesis by (simp only: sync_int_def False if_False)
qed

lemma sync_int_off:
  assumes "off_psync n ps off (length bs)" and "j < n"
  shows "sync_int ps (bytes_at off bs h) j = sync_int ps h j"
proof -
  have "map (bytes_at off bs h) [ps + 4 * j ..< ps + 4 * j + 4] = map h [ps + 4 * j ..< ps + 4 * j + 4]"
    using assms by (intro map_cong refl bytes_at_other) (auto simp: off_psync_def)
  thus ?thesis by (simp only: sync_int_def)
qed

lemma set_cells_at: "set_cells (put_cells off bs) h = bytes_at off bs h"
proof (induction bs arbitrary: off h)
  case Nil
  show ?case by (auto simp: put_cells_def set_cells_simps bytes_at_def fun_eq_iff)
next
  case (Cons v bs)
  have "put_cells off (v # bs) = (off, v) # put_cells (Suc off) bs"
    by (simp add: put_cells_def upt_conv_Cons del: upt_Suc)
  hence "set_cells (put_cells off (v # bs)) h = bytes_at (Suc off) bs (h(off := v))" by (simp only: set_cells_simps Cons.IH)
  also have "\<dots> = bytes_at off (v # bs) h" by (auto simp: bytes_at_def fun_eq_iff nth_Cons')
  finally show ?case .
qed

lemma job_pe_same: "same_pe s t \<Longrightarrow> job_pe n ps p s \<Longrightarrow> job_pe n ps p t"
  by (simp add: same_pe_def job_pe_def)

lemma job_pe_heap:
  assumes "job_pe n ps p s"
  obtains h where "cl_symmetric_heap (ps_local s) = Some h" "ps_psync s = h_ptr (sh_heap h) + of_nat ps"
    "local_pe (ps_node s) (ps_local s) (of_nat p) (me_of s) (h_ptr (sh_heap h))"
    "maps_ok (maps_of s)" "me_of s < length (maps_of s)" "maps_of s ! me_of s = Some (h_ptr (sh_heap h))"
  using assms by (auto simp: job_pe_def local_pe_def)

lemma psync_load:
  assumes "job_pe n ps p s" and "i < n"
  shows "load_int (psync_at s i) (nm, s) = Some (sync_int ps (nm_heap nm (me_of s)) i)"
proof -
  obtain h where "cl_symmetric_heap (ps_local s) = Some h" and h: "ps_psync s = h_ptr (sh_heap h) + of_nat ps"
    and "local_pe (ps_node s) (ps_local s) (of_nat p) (me_of s) (h_ptr (sh_heap h))"
    and m: "maps_ok (maps_of s)" "me_of s < length (maps_of s)" "maps_of s ! me_of s = Some (h_ptr (sh_heap h))"
    by (rule job_pe_heap [OF assms(1)])
  have "ps + 4 * i + 4 \<le> SYMMETRIC_HEAP_SIZE" using assms by (simp add: job_pe_def)
  note l = load_bytes_heap [OF m this, of nm "me_of s"]
  have "psync_at s i = h_ptr (sh_heap h) + of_nat (ps + 4 * i)" by (simp add: psync_at_def h add.assoc)
  thus ?thesis unfolding load_int_def Let_def split_conv by (simp only: l bind.bind_lunit sync_int_def heap_bytes_def)
qed

lemma psync_store:
  assumes "job_pe n ps p s" and "i < n"
  shows "store_int (psync_at s i) v (nm, s) = Some (put_heap nm (me_of s) (ps + 4 * i) (bytes_of_nat 4 v), s)"
proof -
  obtain h where "cl_symmetric_heap (ps_local s) = Some h" and h: "ps_psync s = h_ptr (sh_heap h) + of_nat ps"
    and "local_pe (ps_node s) (ps_local s) (of_nat p) (me_of s) (h_ptr (sh_heap h))"
    and m: "maps_ok (maps_of s)" "me_of s < length (maps_of s)" "maps_of s ! me_of s = Some (h_ptr (sh_heap h))"
    by (rule job_pe_heap [OF assms(1)])
  have "ps + 4 * i + length (bytes_of_nat 4 v) \<le> SYMMETRIC_HEAP_SIZE" using assms by (simp add: job_pe_def)
  note l = store_bytes_heap [OF m this, of nm "me_of s"]
  have "psync_at s i = h_ptr (sh_heap h) + of_nat (ps + 4 * i)" by (simp add: psync_at_def h add.assoc)
  thus ?thesis unfolding store_int_def Let_def split_conv by (simp only: l bind.bind_lunit)
qed

lemma psync_put_eq:
  assumes "job_pe n ps p s"
  shows "psync_put value i pe (nm, s) = comm_put (of_nat (ps + 4 * i)) value 4 pe (nm, s)"
proof -
  obtain h where "cl_symmetric_heap (ps_local s) = Some h" "ps_psync s = h_ptr (sh_heap h) + of_nat ps"
    by (rule job_pe_heap [OF assms])
  thus ?thesis by (simp add: psync_put_def comm_local_offset_def shared_heap_offset_def heap_offset_def psync_at_def add.assoc)
qed

lemma job_pe_numbers:
  assumes "job_pe n ps p s" and "p < n" "n < 2 ^ 31"
  shows "my_index s = p" and "below_n_pes i s \<longleftrightarrow> i < n" and "barrier_entry s = (if p = 0 then Gather 1 else Notify)"
proof -
  have r: "cr_my_pe (ps_remote s) = of_nat p" "cr_n_pes (ps_remote s) = of_nat n" using assms(1) by (simp_all add: job_pe_def)
  have p: "sint (of_nat p :: c_int) = int p" and n: "sint (of_nat n :: c_int) = int n" using assms by (auto intro: sint_of_nat_small)
  show "my_index s = p" "below_n_pes i s \<longleftrightarrow> i < n"
    by (simp_all add: my_index_def below_n_pes_def comm_remote_pe_def comm_remote_n_pes_def r p n)
  have "(of_nat p :: c_int) = 0 \<longleftrightarrow> p = 0" using p by (auto dest: arg_cong [where f = sint])
  thus "barrier_entry s = (if p = 0 then Gather 1 else Notify)" by (simp add: barrier_entry_def comm_remote_pe_def r)
qed

section \<open>The lanes carry the parcels of the pipeline\<close>

text \<open>What the bytes of a parcel from \<open>p\<close> to \<open>d\<close> are; entries of a send queue and of a job queue.\<close>

fun parcel_bytes :: "nat \<Rightarrow> nat \<Rightarrow> nat \<Rightarrow> nat \<Rightarrow> parcel \<Rightarrow> nat \<times> byte list \<Rightarrow> bool" where
  "parcel_bytes n ps p d Sync y = (y = (ps + 4 * sync_slot p d, bytes_of_nat 4 1))"
| "parcel_bytes n ps p d (User e off bs) y = (y = (off, bs) \<and> off_psync n ps off (length bs))"

definition sent_bytes :: "nat \<Rightarrow> nat \<Rightarrow> nat \<Rightarrow> nat \<times> parcel \<Rightarrow> nat \<times> nat \<times> byte list \<Rightarrow> bool" where
  "sent_bytes n ps p x y \<longleftrightarrow> fst y = fst x \<and> parcel_bytes n ps p (fst x) (snd x) (snd y)"

definition job_bytes :: "nat \<Rightarrow> nat \<Rightarrow> nat \<Rightarrow> nat \<times> parcel \<Rightarrow> nat \<times> nat \<times> byte list \<Rightarrow> bool" where
  "job_bytes n ps d x y \<longleftrightarrow> fst y = fst x \<and> parcel_bytes n ps (fst x) d (snd x) (snd y)"

definition heap_match :: "nat \<Rightarrow> nat \<Rightarrow> nat \<Rightarrow> (nat \<Rightarrow> byte) \<Rightarrow> pipeline \<Rightarrow> bool" where
  "heap_match n ps d h u \<longleftrightarrow> (\<forall>i < n. bar_sync (pl_bar u) d i = sync_int ps h i) \<and>
     (\<forall>k. k < ps \<or> ps + 4 * n \<le> k \<longrightarrow> pl_heap u d k = h k)"

definition lane_match :: "nat \<Rightarrow> layout \<Rightarrow> nat \<Rightarrow> lane_state \<Rightarrow> pipeline \<Rightarrow> bool" where
  "lane_match n L ps a u \<longleftrightarrow> (\<forall>p < n. list_all2 (sent_bytes n ps p) (pl_send u p) (la_send a p) \<and>
     list_all2 (job_bytes n ps p) (pl_jobs u p) (la_jobs a p) \<and> heap_match n ps p (la_heap a p) u) \<and>
     (\<forall>p < n. \<forall>d < n. apart L p d \<longrightarrow> list_all2 (parcel_bytes n ps p d) (pl_socket u p d) (la_sock a p d))"

lemma lane_matchI:
  assumes "\<And>p. p < n \<Longrightarrow> list_all2 (sent_bytes n ps p) (pl_send u p) (la_send a p)"
    and "\<And>p. p < n \<Longrightarrow> list_all2 (job_bytes n ps p) (pl_jobs u p) (la_jobs a p)"
    and "\<And>p. p < n \<Longrightarrow> heap_match n ps p (la_heap a p) u"
    and "\<And>p d. p < n \<Longrightarrow> d < n \<Longrightarrow> apart L p d \<Longrightarrow> list_all2 (parcel_bytes n ps p d) (pl_socket u p d) (la_sock a p d)"
  shows "lane_match n L ps a u"
  using assms by (simp add: lane_match_def)

lemma lane_matchD:
  assumes "lane_match n L ps a u"
  shows "p < n \<Longrightarrow> list_all2 (sent_bytes n ps p) (pl_send u p) (la_send a p)"
    and "p < n \<Longrightarrow> list_all2 (job_bytes n ps p) (pl_jobs u p) (la_jobs a p)"
    and "p < n \<Longrightarrow> heap_match n ps p (la_heap a p) u"
    and "p < n \<Longrightarrow> d < n \<Longrightarrow> apart L p d \<Longrightarrow> list_all2 (parcel_bytes n ps p d) (pl_socket u p d) (la_sock a p d)"
  using assms by (simp_all add: lane_match_def)

text \<open>Storing an element of the array, and bytes of the program.\<close>

lemma heap_match_sync:
  assumes "heap_match n ps d h u" and "i < n" "v < 2 ^ 32"
    and "bar_sync (pl_bar t) d = (bar_sync (pl_bar u) d)(i := v)" "pl_heap t d = pl_heap u d"
  shows "heap_match n ps d (bytes_at (ps + 4 * i) (bytes_of_nat 4 v) h) t"
proof -
  have "bytes_at (ps + 4 * i) (bytes_of_nat 4 v) h k = h k" if "k < ps \<or> ps + 4 * n \<le> k" for k
    using that assms(2) by (intro bytes_at_other) auto
  with assms show ?thesis by (simp add: heap_match_def sync_int_set)
qed

lemma heap_match_user:
  assumes "heap_match n ps d h u" and "off_psync n ps off (length bs)"
    and "bar_sync (pl_bar t) d = bar_sync (pl_bar u) d" "pl_heap t d = bytes_at off bs (pl_heap u d)"
  shows "heap_match n ps d (bytes_at off bs h) t"
proof -
  have "bytes_at off bs (pl_heap u d) k = bytes_at off bs h k" if "k < ps \<or> ps + 4 * n \<le> k" for k
    using assms(1) that by (auto simp: heap_match_def bytes_at_def)
  with assms show ?thesis by (simp add: heap_match_def sync_int_off)
qed

lemma heap_match_same:
  "heap_match n ps d h u \<Longrightarrow> bar_sync (pl_bar t) d = bar_sync (pl_bar u) d \<Longrightarrow> pl_heap t d = pl_heap u d \<Longrightarrow> heap_match n ps d h t"
  by (simp add: heap_match_def)

text \<open>The program's part of the pipeline, which its threads leave alone.\<close>

definition same_program :: "pipeline \<Rightarrow> pipeline \<Rightarrow> bool" where
  "same_program u v \<longleftrightarrow> bar_pc (pl_bar v) = bar_pc (pl_bar u) \<and> bar_entered (pl_bar v) = bar_entered (pl_bar u) \<and>
     bar_left (pl_bar v) = bar_left (pl_bar u) \<and> pl_made v = pl_made u"

lemma same_program_refl [simp]: "same_program u u"
  by (simp add: same_program_def)

lemma match_sent:
  assumes m: "lane_match n L ps a u" and p: "p < n" "q < n" "apart L p q" "la_send a p = (q, x) # qs"
  shows "\<exists>v. pipe_move n u v \<and> same_program u v \<and>
    lane_match n L ps (a\<lparr>la_send := (la_send a)(p := qs), la_sock := put2 p q (la_sock a p q @ [x]) (la_sock a)\<rparr>) v"
proof -
  obtain k us where k: "pl_send u p = (q, k) # us" "parcel_bytes n ps p q k x" "list_all2 (sent_bytes n ps p) us qs"
    using lane_matchD(1) [OF m p(1)] by (auto simp: p(4) list_all2_Cons2 sent_bytes_def)
  let ?v = "u\<lparr>pl_send := (pl_send u)(p := us), pl_socket := put2 p q (pl_socket u p q @ [k]) (pl_socket u)\<rparr>"
  have "list_all2 (parcel_bytes n ps p q) (pl_socket u p q @ [k]) (la_sock a p q @ [x])"
    using lane_matchD(4) [OF m p(1-3)] k(2) by (intro list_all2_appendI) simp_all
  hence "lane_match n L ps (a\<lparr>la_send := (la_send a)(p := qs), la_sock := put2 p q (la_sock a p q @ [x]) (la_sock a)\<rparr>) ?v"
    by (intro lane_matchI) (use lane_matchD [OF m] k(3) in \<open>auto simp: heap_match_def\<close>)
  moreover have "pipe_move n u ?v" by (rule pl_sent [OF p(1) k(1)])
  ultimately show ?thesis by (auto simp: same_program_def)
qed

lemma match_received:
  assumes m: "lane_match n L ps a u" and p: "p < n" "q < n" "apart L p q" "la_sock a p q = x # xs"
  shows "\<exists>v. pipe_move n u v \<and> same_program u v \<and>
    lane_match n L ps (a\<lparr>la_sock := put2 p q xs (la_sock a), la_jobs := (la_jobs a)(q := la_jobs a q @ [(p, x)])\<rparr>) v"
proof -
  obtain k us where k: "pl_socket u p q = k # us" "parcel_bytes n ps p q k x" "list_all2 (parcel_bytes n ps p q) us xs"
    using lane_matchD(4) [OF m p(1-3)] by (auto simp: p(4) list_all2_Cons2)
  let ?v = "u\<lparr>pl_socket := put2 p q us (pl_socket u), pl_jobs := (pl_jobs u)(q := pl_jobs u q @ [(p, k)])\<rparr>"
  have "list_all2 (job_bytes n ps q) (pl_jobs u q @ [(p, k)]) (la_jobs a q @ [(p, x)])"
    using lane_matchD(2) [OF m p(2)] k(2) by (intro list_all2_appendI) (simp_all add: job_bytes_def)
  hence "lane_match n L ps (a\<lparr>la_sock := put2 p q xs (la_sock a), la_jobs := (la_jobs a)(q := la_jobs a q @ [(p, x)])\<rparr>) ?v"
    by (intro lane_matchI) (use lane_matchD [OF m] k(3) in \<open>auto simp: heap_match_def\<close>)
  moreover have "pipe_move n u ?v" by (rule pl_received [OF p(1,2) k(1)])
  ultimately show ?thesis by (auto simp: same_program_def)
qed

lemma match_worked:
  assumes m: "lane_match n L ps a u" and p: "p < n" "d < n" "apart L p d" "la_jobs a d = (p, off, xs) # js"
  shows "\<exists>v. pipe_move n u v \<and> same_program u v \<and>
    lane_match n L ps (a\<lparr>la_jobs := (la_jobs a)(d := js), la_heap := (la_heap a)(d := bytes_at off xs (la_heap a d))\<rparr>) v"
proof -
  obtain k us where k: "pl_jobs u d = (p, k) # us" "parcel_bytes n ps p d k (off, xs)" "list_all2 (job_bytes n ps d) us js"
    using lane_matchD(2) [OF m p(2)] by (auto simp: p(4) list_all2_Cons2 job_bytes_def)
  let ?w = "u\<lparr>pl_jobs := (pl_jobs u)(d := us)\<rparr>"
  let ?v = "pipe_execute p d k ?w"
  have other: "bar_sync (pl_bar ?v) q = bar_sync (pl_bar u) q" "pl_heap ?v q = pl_heap u q" if "q \<noteq> d" for q
    using that by (cases k; simp add: Let_def set_sync_def set_flight_def pipe_store_def)+
  have "heap_match n ps d (bytes_at off xs (la_heap a d)) ?v"
  proof (cases k)
    case Sync
    have "sync_slot p d < n" using p(1,2) by (simp add: sync_slot_def)
    from heap_match_sync [OF lane_matchD(3) [OF m p(2)] this, of 1 ?v] k(2) Sync show ?thesis
      by (simp add: Let_def set_sync_def set_flight_def)
  next
    case (User e off' bs)
    from heap_match_user [OF lane_matchD(3) [OF m p(2)], of off xs ?v] k(2) User show ?thesis
      by (simp add: pipe_store_def set_cells_at)
  qed
  moreover have "heap_match n ps q (la_heap a q) ?v" if "q < n" "q \<noteq> d" for q
    using heap_match_same [OF lane_matchD(3) [OF m that(1)] other [OF that(2)]] .
  ultimately have "lane_match n L ps (a\<lparr>la_jobs := (la_jobs a)(d := js), la_heap := (la_heap a)(d := bytes_at off xs (la_heap a d))\<rparr>) ?v"
    by (intro lane_matchI) (use lane_matchD [OF m] k(3) in auto)
  moreover have "pipe_move n u ?v" by (rule pl_worked [OF p(2) k(1)])
  moreover have "same_program u ?v" by (cases k) (simp_all add: same_program_def Let_def set_sync_def set_flight_def pipe_store_def)
  ultimately show ?thesis by blast
qed

lemma lane_move_pipe:
  assumes m: "lane_match n L ps a u" and move: "lane_move n L a b"
  shows "\<exists>v. pipe_move n u v \<and> same_program u v \<and> lane_match n L ps b v"
  using move
proof (rule lane_moveE)
  fix p q x qs assume b: "b = a\<lparr>la_send := (la_send a)(p := qs), la_sock := put2 p q (la_sock a p q @ [x]) (la_sock a)\<rparr>"
    and p: "p < n" "q < n" "apart L p q" "la_send a p = (q, x) # qs"
  from match_sent [OF m p] show ?thesis unfolding b .
next
  fix p q x xs assume b: "b = a\<lparr>la_sock := put2 p q xs (la_sock a), la_jobs := (la_jobs a)(q := la_jobs a q @ [(p, x)])\<rparr>"
    and p: "p < n" "q < n" "apart L p q" "la_sock a p q = x # xs"
  from match_received [OF m p] show ?thesis unfolding b .
next
  fix p d off xs js
  assume b: "b = a\<lparr>la_jobs := (la_jobs a)(d := js), la_heap := (la_heap a)(d := bytes_at off xs (la_heap a d))\<rparr>"
    and p: "p < n" "d < n" "apart L p d" "la_jobs a d = (p, off, xs) # js"
  from match_worked [OF m p] show ?thesis unfolding b by blast
qed

section \<open>The program's steps\<close>

text \<open>A store of PE \<open>p\<close> in the heap of PE \<open>q\<close> of its node.\<close>

definition heap_stored :: "layout \<Rightarrow> nat \<Rightarrow> nat \<Rightarrow> nat \<Rightarrow> byte list \<Rightarrow> transport \<Rightarrow> transport" where
  "heap_stored L p q off xs s = tp_with L p (put_heap (mem_at L s p) (ly_local L q) off xs) (tp_pe s p) s"

lemma heap_stored_pe [simp]: "tp_pe (heap_stored L p q off xs s) = tp_pe s"
  by (simp add: heap_stored_def tp_with_def)

lemma tp_with_same [simp]: "tp_with L p (mem_at L s p) (tp_pe s p) s = s"
  by (simp add: tp_with_def)

text \<open>A run and the state of the pipeline it corresponds to.\<close>

definition jr_rep :: "nat \<Rightarrow> layout \<Rightarrow> nat \<Rightarrow> job_run \<Rightarrow> pipeline \<Rightarrow> bool" where
  "jr_rep n L ps s u \<longleftrightarrow> (\<exists>a. tp_rep n L (jr_tp s) a \<and> lane_match n L ps a u) \<and>
     (\<forall>p < n. job_pe n ps p (tp_pe (jr_tp s) p)) \<and> jr_pc s = bar_pc (pl_bar u) \<and> jr_entered s = bar_entered (pl_bar u) \<and>
     jr_left s = bar_left (pl_bar u) \<and> jr_puts s = pl_made u"

lemma jr_repI:
  assumes "tp_rep n L (jr_tp s) a" "lane_match n L ps a u" "\<And>p. p < n \<Longrightarrow> job_pe n ps p (tp_pe (jr_tp s) p)"
    and "jr_pc s = bar_pc (pl_bar u)" "jr_entered s = bar_entered (pl_bar u)" "jr_left s = bar_left (pl_bar u)" "jr_puts s = pl_made u"
  shows "jr_rep n L ps s u"
  using assms by (auto simp: jr_rep_def)

lemma jr_repE:
  assumes "jr_rep n L ps s u"
  obtains a where "tp_rep n L (jr_tp s) a" "lane_match n L ps a u"
  using assms by (auto simp: jr_rep_def)

lemma jr_repD:
  assumes "jr_rep n L ps s u"
  shows "p < n \<Longrightarrow> job_pe n ps p (tp_pe (jr_tp s) p)"
    and "jr_pc s = bar_pc (pl_bar u)" and "jr_entered s = bar_entered (pl_bar u)" and "jr_left s = bar_left (pl_bar u)"
    and "jr_puts s = pl_made u"
  using assms by (simp_all add: jr_rep_def)

text \<open>The barrier of PE \<open>p\<close> goes on to \<open>c\<close>.\<close>

definition bar_goes :: "nat \<Rightarrow> bar_pc \<Rightarrow> barrier \<Rightarrow> barrier \<Rightarrow> bool" where
  "bar_goes p c b b' \<longleftrightarrow> bar_pc b' = (bar_pc b)(p := c) \<and> bar_entered b' = bar_entered b \<and>
     bar_left b' = (if c = Outside then (bar_left b)(p := Suc (bar_left b p)) else bar_left b)"

lemma lane_match_bar:
  assumes "lane_match n L ps a u" and "\<And>q. q < n \<Longrightarrow> heap_match n ps q (h q) (u\<lparr>pl_bar := b\<rparr>)"
  shows "lane_match n L ps (a\<lparr>la_heap := h\<rparr>) (u\<lparr>pl_bar := b\<rparr>)"
  by (rule lane_matchI) (use assms lane_matchD [OF assms(1)] in auto)

text \<open>A step that only looks, one that clears an element, one that puts.\<close>

lemma jr_looks:
  assumes rep: "jr_rep n L ps s u" and b: "bar_goes p c (pl_bar u) b" "bar_sync b = bar_sync (pl_bar u)"
  shows "jr_rep n L ps (jr_moved p c s) (u\<lparr>pl_bar := b\<rparr>)"
proof -
  obtain a where a: "tp_rep n L (jr_tp s) a" "lane_match n L ps a u"
    by (rule jr_repE [OF rep])
  have "lane_match n L ps a (u\<lparr>pl_bar := b\<rparr>)"
    using lane_match_bar [OF a(2), of "la_heap a" b] lane_matchD(3) [OF a(2)] b(2) by (simp add: heap_match_def)
  thus ?thesis by (intro jr_repI [where a = a]) (use a(1) jr_repD [OF rep] b(1) in \<open>simp_all add: jr_moved_def bar_goes_def\<close>)
qed

lemma jr_stores:
  assumes rep: "jr_rep n L ps s u" and q: "p < n" "q < n" "\<not> apart L p q"
    and at: "\<And>h. heap_match n ps q h u \<Longrightarrow> heap_match n ps q (bytes_at off xs h) v"
    and other: "\<And>d. d \<noteq> q \<Longrightarrow> bar_sync (pl_bar v) d = bar_sync (pl_bar u) d \<and> pl_heap v d = pl_heap u d"
    and v: "pl_send v = pl_send u" "pl_socket v = pl_socket u" "pl_jobs v = pl_jobs u"
    and r: "jr_tp r = heap_stored L p q off xs (jr_tp s)" "jr_pc r = bar_pc (pl_bar v)"
      "jr_entered r = bar_entered (pl_bar v)" "jr_left r = bar_left (pl_bar v)" "jr_puts r = pl_made v"
  shows "jr_rep n L ps r v"
proof -
  obtain a where a: "tp_rep n L (jr_tp s) a" "lane_match n L ps a u" by (rule jr_repE [OF rep])
  let ?b = "lane_store q (off, xs) a"
  have "heap_match n ps d (la_heap ?b d) v" if "d < n" for d
  proof (cases "d = q")
    case True
    with at [OF lane_matchD(3) [OF a(2) q(2)]] show ?thesis by (simp add: lane_store_def)
  next
    case False
    with heap_match_same [OF lane_matchD(3) [OF a(2) that]] other show ?thesis by (simp add: lane_store_def)
  qed
  hence "lane_match n L ps ?b v"
    by (intro lane_matchI) (use lane_matchD [OF a(2)] in \<open>simp_all add: v lane_store_def\<close>)
  moreover have "tp_rep n L (jr_tp r) ?b" unfolding r(1) heap_stored_def by (rule tp_rep_stored [OF a(1) q])
  ultimately show ?thesis by (intro jr_repI [where a = ?b]) (use jr_repD [OF rep] r in simp_all)
qed

lemma lane_match_put:
  assumes "lane_match n L ps a u" and "p < n" "parcel_bytes n ps p q k x" and "bar_sync (pl_bar t) = bar_sync (pl_bar u)"
    "pl_send t = (pl_send u)(p := pl_send u p @ [(q, k)])" "pl_socket t = pl_socket u" "pl_jobs t = pl_jobs u" "pl_heap t = pl_heap u"
  shows "lane_match n L ps (lane_put p q x a) t"
proof (rule lane_matchI)
  fix p' assume p': "p' < n"
  have "list_all2 (sent_bytes n ps p) (pl_send u p @ [(q, k)]) (la_send a p @ [(q, x)])"
    using lane_matchD(1) [OF assms(1,2)] assms(3) by (intro list_all2_appendI) (simp_all add: sent_bytes_def)
  with lane_matchD(1) [OF assms(1) p'] show "list_all2 (sent_bytes n ps p') (pl_send t p') (la_send (lane_put p q x a) p')"
    by (simp add: lane_put_def assms(5))
qed (use lane_matchD [OF assms(1)] assms(4,6-8) in \<open>simp_all add: lane_put_def heap_match_def\<close>)

text \<open>\<open>comm_put\<close> to another PE, from the barrier or from the program.\<close>

lemma jr_sends:
  assumes rep: "jr_rep n L ps s u" and q: "p < n" "q < n" "apart L p q" "off + unat sz \<le> SYMMETRIC_HEAP_SIZE"
    and src: "load_bytes (mem_at L (jr_tp s) p) (me_of (tp_pe (jr_tp s) p)) (maps_of (tp_pe (jr_tp s) p)) src (unat sz) = Some xs"
    and put: "comm_put (of_nat off) src sz (of_nat q) (jr_at L s p) = Some (m, t)"
    and k: "parcel_bytes n ps p q k (off, xs)" and sync: "bar_sync (pl_bar v) = bar_sync (pl_bar u)"
    and v: "pl_send v = (pl_send u)(p := pl_send u p @ [(q, k)])" "pl_socket v = pl_socket u" "pl_jobs v = pl_jobs u" "pl_heap v = pl_heap u"
    and r: "jr_tp r = tp_log p q (off, xs) (tp_with L p m t (jr_tp s))" "jr_pc r = bar_pc (pl_bar v)"
      "jr_entered r = bar_entered (pl_bar v)" "jr_left r = bar_left (pl_bar v)" "jr_puts r = pl_made v"
  shows "jr_rep n L ps r v"
proof -
  obtain a where a: "tp_rep n L (jr_tp s) a" "lane_match n L ps a u"
    by (rule jr_repE [OF rep])
  note tp = tp_rep_put [OF a(1) q src put]
  show ?thesis
  proof (rule jr_repI)
    show "tp_rep n L (jr_tp r) (lane_put p q (off, xs) a)" unfolding r(1) by (rule tp(1))
    show "lane_match n L ps (lane_put p q (off, xs) a) v" by (rule lane_match_put [OF a(2) q(1) k sync v])
    show "job_pe n ps p' (tp_pe (jr_tp r) p')" if "p' < n" for p'
      using jr_repD(1) [OF rep that] job_pe_same [OF tp(2) jr_repD(1) [OF rep q(1)]] by (simp add: r(1) tp_log_def tp_with_def)
  qed (rule r(2-5))+
qed

lemma nat_of_bytes_inverse: "bytes_of_nat (length xs) (nat_of_bytes xs) = xs"
proof (induction xs)
  case (Cons b bs)
  have "unat b < 256" using unsigned_less [of b] by simp
  hence "(unat b + 256 * nat_of_bytes bs) div 256 = nat_of_bytes bs" by simp
  moreover have z: "(256 :: byte) = 0" by simp
  have "of_nat (unat b + 256 * nat_of_bytes bs) = b" unfolding of_nat_add of_nat_mult of_nat_numeral z by simp
  ultimately show ?case using Cons.IH by simp
qed simp

lemma load_int_bytes:
  assumes "load_int a (nm, s) = Some v"
  shows "load_bytes nm (me_of s) (maps_of s) a 4 = Some (bytes_of_nat 4 v)"
proof -
  obtain xs where xs: "load_bytes nm (me_of s) (maps_of s) a 4 = Some xs" "v = nat_of_bytes xs"
    using assms by (auto simp: load_int_def bind_eq_Some_conv)
  with nat_of_bytes_inverse [of xs] load_bytes_length [OF xs(1)] show ?thesis by simp
qed

lemma one_at_bytes:
  assumes "one_at a (nm, s)"
  shows "load_bytes nm (me_of s) (maps_of s) a 4 = Some (bytes_of_nat 4 1)" and "priv_area (maps_of s) a 4"
  using assms load_int_bytes [of a nm s 1] by (simp_all add: one_at_def)

text \<open>What the barrier reads in memory is the element of the pipeline.\<close>

lemma jr_sync:
  assumes rep: "jr_rep n L ps s u" and p: "p < n" "i < n"
  shows "load_int (psync_at (tp_pe (jr_tp s) p) i) (jr_at L s p) = Some (bar_sync (pl_bar u) p i)"
proof -
  obtain a where a: "tp_rep n L (jr_tp s) a" "lane_match n L ps a u" by (rule jr_repE [OF rep])
  have "bar_sync (pl_bar u) p i = sync_int ps (own_heap L (jr_tp s) p) i"
    using lane_matchD(3) [OF a(2) p(1)] tp_repD(3,6) [OF a(1) p(1)] p(2) by (simp add: heap_match_def own_heap_def)
  with psync_load [OF jr_repD(1) [OF rep p(1)] p(2), of "mem_at L (jr_tp s) p"] tp_repD(6) [OF a(1) p(1)] show ?thesis by (simp add: own_heap_def)
qed

definition run_step :: "nat \<Rightarrow> layout \<Rightarrow> nat \<Rightarrow> nat \<Rightarrow> bar_pc \<Rightarrow> node_mem \<Rightarrow> pe_state \<Rightarrow> job_run \<Rightarrow> job_run" where
  "run_step n L ps p c m t s = jr_moved p c (s\<lparr>jr_tp := sync_note n L ps p (jr_pc s p) (tp_with L p m t (jr_tp s))\<rparr>)"

lemmas bar_go_defs = bar_goes_def comm_barrier_all_def barrier_updates

text \<open>The three kinds of steps, as steps of the pipeline.\<close>

lemma run_looks:
  assumes rep: "jr_rep n L ps s u" and b: "bar_goes p c (pl_bar u) b" "bar_sync b = bar_sync (pl_bar u)"
    and none: "sync_target n (bar_pc (pl_bar u) p) = None" and x: "(m, t) = jr_at L s p"
  shows "jr_rep n L ps (run_step n L ps p c m t s) (pipe_run n (near L) p b u)"
  using jr_looks [OF rep b] none x by (simp add: run_step_def sync_note_def pipe_run_def jr_repD(2) [OF rep])

lemma run_clears:
  assumes rep: "jr_rep n L ps s u" and p: "p < n" "i < n" and b: "bar_goes p c (pl_bar u) b"
    "bar_sync b = (bar_sync (pl_bar u))(p := (bar_sync (pl_bar u) p)(i := 0))"
    and none: "sync_target n (bar_pc (pl_bar u) p) = None"
    and x: "store_int (psync_at (tp_pe (jr_tp s) p) i) 0 (jr_at L s p) = Some (m, t)"
  shows "jr_rep n L ps (run_step n L ps p c m t s) (pipe_run n (near L) p b u)"
proof -
  have pe: "job_pe n ps p (tp_pe (jr_tp s) p)" by (rule jr_repD(1) [OF rep p(1)])
  obtain a where a: "tp_rep n L (jr_tp s) a" by (rule jr_repE [OF rep])
  have v: "pipe_run n (near L) p b u = u\<lparr>pl_bar := b\<rparr>" using none by (simp add: pipe_run_def)
  show ?thesis unfolding v
  proof (rule jr_stores [OF rep p(1) p(1), where off = "ps + 4 * i" and xs = "bytes_of_nat 4 0"])
    show "heap_match n ps p (bytes_at (ps + 4 * i) (bytes_of_nat 4 0) h) (u\<lparr>pl_bar := b\<rparr>)" if "heap_match n ps p h u" for h
      by (rule heap_match_sync [OF that p(2)]) (simp_all add: b(2))
    show "jr_tp (run_step n L ps p c m t s) = heap_stored L p p (ps + 4 * i) (bytes_of_nat 4 0) (jr_tp s)"
      using psync_store [OF pe p(2), of 0 "mem_at L (jr_tp s) p"] x none tp_repD(6) [OF a p(1)]
      by (simp add: run_step_def jr_moved_def sync_note_def heap_stored_def jr_repD(2) [OF rep])
  qed (use b jr_repD [OF rep] in \<open>simp_all add: run_step_def jr_moved_def bar_goes_def\<close>)
qed

text \<open>\<open>comm_put\<close> of the variable: to another node, and within the node.\<close>

lemma run_sends:
  assumes rep: "jr_rep n L ps s u" and q: "p < n" "q < n" "p \<noteq> q" "apart L p q" and one: "one_at value (jr_at L s p)"
    and b: "bar_goes p c (pl_bar u) b" "bar_sync b = bar_sync (pl_bar u)"
    and to: "sync_target n (bar_pc (pl_bar u) p) = Some q"
    and x: "comm_put (of_nat (ps + 4 * sync_slot p q)) value 4 (of_nat q) (jr_at L s p) = Some (m, t)"
  shows "jr_rep n L ps (run_step n L ps p c m t s) (pipe_run n (near L) p b u)"
proof -
  have pe: "job_pe n ps p (tp_pe (jr_tp s) p)" by (rule jr_repD(1) [OF rep q(1)])
  have slot: "sync_slot p q < n" using q by (simp add: sync_slot_def)
  have v: "pipe_run n (near L) p b u = pipe_enqueue p q Sync (u\<lparr>pl_bar := b\<rparr>)" using to q(4) by (simp add: pipe_run_def)
  show ?thesis
  proof (rule jr_sends [OF rep q(1,2,4) _ _ x, where k = Sync])
    show "ps + 4 * sync_slot p q + unat (4 :: size_t) \<le> SYMMETRIC_HEAP_SIZE" using pe slot by (simp add: job_pe_def)
    show "load_bytes (mem_at L (jr_tp s) p) (me_of (tp_pe (jr_tp s) p)) (maps_of (tp_pe (jr_tp s) p)) value (unat (4 :: size_t)) =
        Some (bytes_of_nat 4 1)" using one_at_bytes(1) [OF one] by simp
    show "jr_tp (run_step n L ps p c m t s) = tp_log p q (ps + 4 * sync_slot p q, bytes_of_nat 4 1) (tp_with L p m t (jr_tp s))"
      using to q(4) by (simp add: run_step_def jr_moved_def sync_note_def tp_note_def jr_repD(2) [OF rep])
  qed (use b jr_repD [OF rep] in \<open>simp_all add: v pipe_enqueue_def run_step_def jr_moved_def bar_goes_def\<close>)
qed

lemma run_stores:
  assumes rep: "jr_rep n L ps s u" and q: "p < n" "q < n" "p \<noteq> q" "\<not> apart L p q" and one: "one_at value (jr_at L s p)"
    and b: "bar_goes p c (pl_bar u) b" "bar_sync b = (bar_sync (pl_bar u))(q := (bar_sync (pl_bar u) q)(sync_slot p q := 1))"
    and to: "sync_target n (bar_pc (pl_bar u) p) = Some q"
    and x: "comm_put (of_nat (ps + 4 * sync_slot p q)) value 4 (of_nat q) (jr_at L s p) = Some (m, t)"
  shows "jr_rep n L ps (run_step n L ps p c m t s) (pipe_run n (near L) p b u)"
proof -
  have pe: "job_pe n ps p (tp_pe (jr_tp s) p)" by (rule jr_repD(1) [OF rep q(1)])
  have slot: "sync_slot p q < n" using q by (simp add: sync_slot_def)
  have v: "pipe_run n (near L) p b u = u\<lparr>pl_bar := b\<rparr>" using to q(4) by (simp add: pipe_run_def)
  obtain a where a: "tp_rep n L (jr_tp s) a" by (rule jr_repE [OF rep])
  have "ps + 4 * sync_slot p q + unat (4 :: size_t) \<le> SYMMETRIC_HEAP_SIZE" using pe slot by (simp add: job_pe_def)
  note st = tp_rep_store [OF a q(1,2,4) this _ _ x, of "bytes_of_nat 4 1"]
  have "t = tp_pe (jr_tp s) p" "m = put_heap (mem_at L (jr_tp s) p) (ly_local L q) (ps + 4 * sync_slot p q) (bytes_of_nat 4 1)"
    by (rule st; use one_at_bytes [OF one] in simp)+
  hence tp: "jr_tp (run_step n L ps p c m t s) = heap_stored L p q (ps + 4 * sync_slot p q) (bytes_of_nat 4 1) (jr_tp s)"
    using to q(4) by (simp add: run_step_def jr_moved_def sync_note_def tp_note_def jr_repD(2) [OF rep] heap_stored_def)
  show ?thesis unfolding v
  proof (rule jr_stores [OF rep q(1,2,4) _ _ _ _ _ tp])
    show "heap_match n ps q (bytes_at (ps + 4 * sync_slot p q) (bytes_of_nat 4 1) h) (u\<lparr>pl_bar := b\<rparr>)" if "heap_match n ps q h u" for h
      by (rule heap_match_sync [OF that slot]) (simp_all add: b(2))
  qed (use b jr_repD [OF rep] in \<open>simp_all add: run_step_def jr_moved_def bar_goes_def\<close>)
qed

lemma run_puts:
  assumes rep: "jr_rep n L ps s u" and q: "p < n" "q < n" "p \<noteq> q" and one: "one_at value (jr_at L s p)"
    and to: "sync_target n (bar_pc (pl_bar u) p) = Some q" and b: "b = set_pc p c (put_one (near L) p q (sync_slot p q) (pl_bar u))" "c \<noteq> Outside"
    and x: "psync_put value (sync_slot p q) (of_nat q) (jr_at L s p) = Some (m, t)"
  shows "jr_rep n L ps (run_step n L ps p c m t s) (pipe_run n (near L) p b u)"
proof -
  note x = x [unfolded psync_put_eq [OF jr_repD(1) [OF rep q(1)]]]
  have go: "bar_goes p c (pl_bar u) b" using b(2) by (simp add: b(1) bar_go_defs)
  show ?thesis
  proof (cases "apart L p q")
    case True
    with run_sends [OF rep q True one go _ to x] show ?thesis by (simp add: b(1) barrier_updates)
  next
    case False
    with run_stores [OF rep q False one go _ to x] show ?thesis by (simp add: b(1) barrier_updates)
  qed
qed

lemma jr_rep_turn:
  assumes rep: "jr_rep n L ps s u" and inv: "bar_inv n (pl_bar u)" and p: "p < n"
    and one: "one_at value (jr_at L s p)" and turn: "barrier_turn value (jr_pc s p) (jr_at L s p) = Some (c, m, t)"
  shows "\<exists>b. comm_barrier_all n (near L) p (pl_bar u) = Some b \<and> jr_rep n L ps (run_step n L ps p c m t s) (pipe_run n (near L) p b u)"
proof -
  obtain a where a: "tp_rep n L (jr_tp s) a" by (rule jr_repE [OF rep])
  have pe: "job_pe n ps p (tp_pe (jr_tp s) p)" by (rule jr_repD(1) [OF rep p])
  note num = job_pe_numbers [OF pe p tp_repD(4) [OF a]]
  have ok: "pc_ok n p (bar_pc (pl_bar u) p)" by (rule bar_invD(2) [OF inv p])
  note pc = jr_repD(2) [OF rep]
  let ?b = "pl_bar u"
  show ?thesis
  proof (cases "bar_pc ?b p")
    case Outside
    with turn show ?thesis by (simp add: pc)
  next
    case (Gather i)
    with ok have i: "p = 0" "i \<le> n" by simp_all
    show ?thesis
    proof (cases "i < n")
      case True
      hence c: "c = (if bar_sync ?b p i = 0 then Gather i else Clear i)" "(m, t) = jr_at L s p"
        using turn Gather jr_sync [OF rep p True] by (simp_all add: pc num)
      define b where "b = (if bar_sync ?b p i = 0 then ?b else set_pc p (Clear i) ?b)"
      have "comm_barrier_all n (near L) p ?b = Some b" using Gather True i by (simp add: b_def comm_barrier_all_def)
      moreover have "bar_goes p c ?b b" "bar_sync b = bar_sync ?b" using Gather by (simp_all add: c b_def bar_go_defs fun_eq_iff)
      ultimately show ?thesis using run_looks [OF rep _ _ _ c(2)] Gather by fastforce
    next
      case False
      hence c: "c = Release 1" "(m, t) = jr_at L s p" using turn Gather by (simp_all add: pc num)
      have "comm_barrier_all n (near L) p ?b = Some (set_pc p (Release 1) ?b)" using Gather False i by (simp add: comm_barrier_all_def)
      moreover have "bar_goes p c ?b (set_pc p (Release 1) ?b)" by (simp add: c bar_go_defs)
      ultimately show ?thesis using run_looks [OF rep _ _ _ c(2)] Gather by (fastforce simp: set_pc_def)
    qed
  next
    case (Clear i)
    with ok have i: "p = 0" "i < n" by simp_all
    hence c: "c = Gather (Suc i)" "store_int (psync_at (tp_pe (jr_tp s) p) i) 0 (jr_at L s p) = Some (m, t)"
      using turn Clear by (auto simp: pc bind_eq_Some_conv)
    let ?c = "set_pc p (Gather (Suc i)) (set_sync p i 0 ?b)"
    have "comm_barrier_all n (near L) p ?b = Some ?c" using Clear i by (simp add: comm_barrier_all_def)
    moreover have "bar_goes p c ?b ?c" "bar_sync ?c = (bar_sync ?b)(p := (bar_sync ?b p)(i := 0))" by (simp_all add: c bar_go_defs)
    ultimately show ?thesis using run_clears [OF rep p i(2) _ _ _ c(2)] Clear by fastforce
  next
    case (Release i)
    with ok have i: "p = 0" "0 < i" by simp_all
    hence slot: "sync_slot p i = i" by (simp add: sync_slot_def)
    show ?thesis
    proof (cases "i < n")
      case True
      hence c: "c = Release (Suc i)" "psync_put value (sync_slot p i) (of_nat i) (jr_at L s p) = Some (m, t)"
        using turn Release True slot by (auto simp: pc num bind_eq_Some_conv)
      have "comm_barrier_all n (near L) p ?b = Some (set_pc p c (put_one (near L) p i (sync_slot p i) ?b))"
        using Release True i by (simp add: comm_barrier_all_def c sync_slot_def)
      moreover have "p \<noteq> i" "sync_target n (bar_pc ?b p) = Some i" "c \<noteq> Outside" using i Release True by (simp_all add: c)
      ultimately show ?thesis using run_puts [OF rep p True _ one _ refl _ c(2)] by blast
    next
      case False
      hence c: "c = Outside" "(m, t) = jr_at L s p" using turn Release by (simp_all add: pc num)
      have "comm_barrier_all n (near L) p ?b = Some (leave_barrier p ?b)" using Release False i by (simp add: comm_barrier_all_def)
      moreover have "bar_goes p c ?b (leave_barrier p ?b)" "bar_sync (leave_barrier p ?b) = bar_sync ?b"
        by (simp_all add: c bar_go_defs)
      ultimately show ?thesis using run_looks [OF rep _ _ _ c(2)] Release False by fastforce
    qed
  next
    case Notify
    with ok have i: "p \<noteq> 0" by simp
    hence c: "c = Await" "psync_put value (sync_slot p 0) (of_nat 0) (jr_at L s p) = Some (m, t)"
      using turn Notify by (auto simp: pc num bind_eq_Some_conv sync_slot_def)
    have "0 < n" using p by simp
    moreover have "comm_barrier_all n (near L) p ?b = Some (set_pc p c (put_one (near L) p 0 (sync_slot p 0) ?b))"
      using Notify by (simp add: comm_barrier_all_def c sync_slot_def)
    moreover have "sync_target n (bar_pc ?b p) = Some 0" "c \<noteq> Outside" using Notify by (simp_all add: c)
    ultimately show ?thesis using run_puts [OF rep p _ i one _ refl _ c(2)] by blast
  next
    case Await
    hence c: "c = (if bar_sync ?b p p = 0 then Await else ClearOwn)" "(m, t) = jr_at L s p"
      using turn jr_sync [OF rep p p] by (simp_all add: pc num)
    define b where "b = (if bar_sync ?b p p = 0 then ?b else set_pc p ClearOwn ?b)"
    have "comm_barrier_all n (near L) p ?b = Some b" using Await by (simp add: b_def comm_barrier_all_def)
    moreover have "bar_goes p c ?b b" "bar_sync b = bar_sync ?b" using Await by (simp_all add: c b_def bar_go_defs fun_eq_iff)
    ultimately show ?thesis using run_looks [OF rep _ _ _ c(2)] Await by fastforce
  next
    case ClearOwn
    hence c: "c = Outside" "store_int (psync_at (tp_pe (jr_tp s) p) p) 0 (jr_at L s p) = Some (m, t)"
      using turn by (auto simp: pc num bind_eq_Some_conv)
    let ?c = "leave_barrier p (set_sync p p 0 ?b)"
    have "comm_barrier_all n (near L) p ?b = Some ?c" using ClearOwn by (simp add: comm_barrier_all_def)
    moreover have "bar_goes p c ?b ?c" "bar_sync ?c = (bar_sync ?b)(p := (bar_sync ?b p)(p := 0))" by (simp_all add: c bar_go_defs)
    ultimately show ?thesis using run_clears [OF rep p p _ _ _ c(2)] ClearOwn by fastforce
  qed
qed

text \<open>Entering a barrier.\<close>

lemma jr_rep_enter:
  assumes rep: "jr_rep n L ps s u" and p: "p < n"
  shows "jr_rep n L ps (s\<lparr>jr_pc := (jr_pc s)(p := barrier_entry (tp_pe (jr_tp s) p)),
      jr_entered := (jr_entered s)(p := Suc (jr_entered s p))\<rparr>) (u\<lparr>pl_bar := enter_barrier p (pl_bar u)\<rparr>)"
proof -
  obtain a where a: "tp_rep n L (jr_tp s) a" "lane_match n L ps a u" by (rule jr_repE [OF rep])
  have "barrier_entry (tp_pe (jr_tp s) p) = (if p = 0 then Gather 1 else Notify)"
    by (rule job_pe_numbers(3) [OF jr_repD(1) [OF rep p] p tp_repD(4) [OF a(1)]])
  moreover have "lane_match n L ps a (u\<lparr>pl_bar := enter_barrier p (pl_bar u)\<rparr>)"
    using lane_match_bar [OF a(2), of "la_heap a" "enter_barrier p (pl_bar u)"] lane_matchD(3) [OF a(2)]
    by (simp add: heap_match_def barrier_updates)
  ultimately show ?thesis
    by (intro jr_repI [where a = a]) (use a(1) jr_repD [OF rep] in \<open>simp_all add: barrier_updates\<close>)
qed

text \<open>A put of the program.\<close>

lemma jr_rep_put:
  assumes rep: "jr_rep n L ps s u" and p: "p < n" "q < n" and off: "off + unat sz \<le> SYMMETRIC_HEAP_SIZE" "off_psync n ps off (unat sz)"
    and src: "load_bytes (mem_at L (jr_tp s) p) (me_of (tp_pe (jr_tp s) p)) (maps_of (tp_pe (jr_tp s) p)) src (unat sz) = Some xs"
    and own: "near L p q \<longrightarrow> priv_area (maps_of (tp_pe (jr_tp s) p)) src (unat sz)"
    and put: "comm_put (of_nat off) src sz (of_nat q) (jr_at L s p) = Some (m, t)"
  shows "jr_rep n L ps (s\<lparr>jr_tp := tp_note L p q (off, xs) (tp_with L p m t (jr_tp s)),
      jr_puts := put2 p q (jr_puts s p q @ [(jr_entered s p, off, xs)]) (jr_puts s)\<rparr>) (pipe_put (near L) p q off xs u)"
proof (cases "apart L p q")
  case True
  have len: "length xs = unat sz" by (rule load_bytes_length [OF src])
  have v: "pipe_put (near L) p q off xs u = pipe_enqueue p q (User (jr_entered s p) off xs)
      (u\<lparr>pl_made := put2 p q (pl_made u p q @ [(jr_entered s p, off, xs)]) (pl_made u)\<rparr>)"
    using True by (simp add: pipe_put_def Let_def jr_repD(3) [OF rep])
  show ?thesis
    by (rule jr_sends [OF rep p True off(1) src put, where k = "User (jr_entered s p) off xs"])
      (use True off(2) len jr_repD [OF rep] in \<open>simp_all add: v pipe_enqueue_def tp_note_def\<close>)
next
  case False
  let ?v = "pipe_put (near L) p q off xs u"
  have len: "length xs = unat sz" by (rule load_bytes_length [OF src])
  obtain a where a: "tp_rep n L (jr_tp s) a" by (rule jr_repE [OF rep])
  have "priv_area (maps_of (tp_pe (jr_tp s) p)) src (unat sz)" using own False by simp
  note st = tp_rep_store [OF a p False off(1) src this put]
  have v: "pl_bar ?v = pl_bar u" "pl_heap ?v = (pl_heap u)(q := bytes_at off xs (pl_heap u q))" "pl_send ?v = pl_send u"
    "pl_socket ?v = pl_socket u" "pl_jobs ?v = pl_jobs u" "pl_made ?v = put2 p q (pl_made u p q @ [(jr_entered s p, off, xs)]) (pl_made u)"
    using False by (simp_all add: pipe_put_def pipe_store_def set_cells_at Let_def jr_repD(3) [OF rep])
  show ?thesis
  proof (rule jr_stores [OF rep p False _ _ v(3-5)])
    show "heap_match n ps q (bytes_at off xs h) ?v" if "heap_match n ps q h u" for h
      by (rule heap_match_user [OF that]) (use off(2) len in \<open>simp_all add: v\<close>)
  qed (use False jr_repD [OF rep] in \<open>simp_all add: v st tp_note_def heap_stored_def\<close>)
qed

text \<open>The threads.\<close>

lemma jr_rep_threads:
  assumes rep: "jr_rep n L ps s u" and step: "tp_thread n L junk (jr_tp s) t" and intact: "tp_intact t"
  shows "\<exists>v. (v = u \<or> pipe_move n u v) \<and> jr_rep n L ps (s\<lparr>jr_tp := t\<rparr>) v"
proof -
  obtain a where a: "tp_rep n L (jr_tp s) a" "lane_match n L ps a u" by (rule jr_repE [OF rep])
  obtain b where b: "b = a \<or> lane_move n L a b" "tp_rep n L t b" "\<forall>p. same_pe (tp_pe (jr_tp s) p) (tp_pe t p)"
    using tp_thread_lanes [OF a(1) step intact] by blast
  obtain v where v: "v = u \<or> pipe_move n u v" "same_program u v" "lane_match n L ps b v"
    using b(1) lane_move_pipe [OF a(2), of b] a(2) same_program_refl by blast
  have "job_pe n ps p (tp_pe t p)" if "p < n" for p using job_pe_same b(3) jr_repD(1) [OF rep that] by blast
  hence "jr_rep n L ps (s\<lparr>jr_tp := t\<rparr>) v"
    by (intro jr_repI [where a = b]) (use b(2) v(2,3) jr_repD [OF rep] in \<open>simp_all add: same_program_def\<close>)
  with v(1) show ?thesis by blast
qed

lemma jr_rep_start:
  assumes st: "jr_start n L ps s"
  shows "\<exists>u. pipe_start n u \<and> jr_rep n L ps s u"
proof -
  have tp: "tp_start n L (jr_tp s)" using st by (simp add: jr_start_def)
  obtain a where a: "lane_start a" "tp_rep n L (jr_tp s) a" using tp_rep_start [OF tp] by blast
  define u where "u = \<lparr>pl_bar = bar_init, pl_send = \<lambda>_. [], pl_socket = \<lambda>_ _. [], pl_jobs = \<lambda>_. [], pl_made = \<lambda>_ _. [],
    pl_heap = la_heap a, pl_stored = \<lambda>_. []\<rparr>"
  have "0 < n" using st by (simp add: jr_start_def)
  hence "pipe_start n u" by (simp add: pipe_start_def u_def bar_init)
  moreover have "heap_match n ps p (la_heap a p) u" if p: "p < n" for p
  proof -
    have "la_heap a p k = 0" if "ps \<le> k" "k < ps + 4 * n" for k
      using st that p tp_repD(3) [OF a(2) p] by (simp add: jr_start_def)
    hence "map (la_heap a p) [ps + 4 * i ..< ps + 4 * i + 4] = map (\<lambda>_. 0) [ps + 4 * i ..< ps + 4 * i + 4]" if "i < n" for i
      using that by (intro map_cong) auto
    moreover have "nat_of_bytes (map (\<lambda>_. 0) ks) = 0" for ks :: "nat list" by (induction ks) simp_all
    ultimately have "sync_int ps (la_heap a p) i = 0" if "i < n" for i using that by (simp only: sync_int_def)
    thus ?thesis by (simp add: heap_match_def u_def bar_init_def)
  qed
  hence "lane_match n L ps a u" by (intro lane_matchI) (use a(1) in \<open>simp_all add: lane_start_def u_def\<close>)
  with a(2) have "jr_rep n L ps s u"
    by (intro jr_repI [where a = a]) (use st in \<open>simp_all add: jr_start_def u_def bar_init_def\<close>)
  ultimately show ?thesis by blast
qed

text \<open>As long as nothing has been lost.\<close>

lemma jr_step_intact: "jr_step n L ps junk s t \<Longrightarrow> tp_intact (jr_tp t) \<Longrightarrow> tp_intact (jr_tp s)"
  by (erule jr_stepE) (auto simp: jr_moved_def sync_note_def tp_note_def tp_log_def tp_with_def tp_thread_intact split: option.splits if_splits)

lemma jr_rep_step:
  assumes rep: "jr_rep n L ps s u" and u: "reach (pipe_start n) (pipe_step n (near L)) u" and step: "jr_step n L ps junk s t"
    and intact: "tp_intact (jr_tp t)"
  shows "\<exists>v. (v = u \<or> pipe_step n (near L) u v) \<and> jr_rep n L ps t v"
  using step
proof (rule jr_stepE)
  fix p
  assume t: "t = s\<lparr>jr_pc := (jr_pc s)(p := barrier_entry (tp_pe (jr_tp s) p)), jr_entered := (jr_entered s)(p := Suc (jr_entered s p))\<rparr>"
    and p: "p < n" "jr_pc s p = Outside"
  from jr_rep_enter [OF rep p(1)] pl_enter [OF p(1)] p(2) show ?thesis unfolding t jr_repD(2) [OF rep] by blast
next
  fix p val c m t'
  assume t: "t = jr_moved p c (s\<lparr>jr_tp := sync_note n L ps p (jr_pc s p) (tp_with L p m t' (jr_tp s))\<rparr>)"
    and p: "p < n" "one_at val (jr_at L s p)" "barrier_turn val (jr_pc s p) (jr_at L s p) = Some (c, m, t')"
  have "bar_inv n (pl_bar u)"
    using dl_invD(1) [OF delivery.reach_inv [OF pipeline.reach_abs [OF u]]] by (simp add: abs_bar)
  then obtain b where b: "comm_barrier_all n (near L) p (pl_bar u) = Some b"
    "jr_rep n L ps (run_step n L ps p c m t' s) (pipe_run n (near L) p b u)"
    using jr_rep_turn [OF rep _ p(1,2,3)] by auto
  from pl_run [OF p(1) b(1)] b(2) show ?thesis unfolding t run_step_def by blast
next
  fix p q off sz src xs m t'
  assume t: "t = s\<lparr>jr_tp := tp_note L p q (off, xs) (tp_with L p m t' (jr_tp s)),
      jr_puts := put2 p q (jr_puts s p q @ [(jr_entered s p, off, xs)]) (jr_puts s)\<rparr>"
    and p: "p < n" "q < n" "jr_pc s p = Outside" "off + unat sz \<le> SYMMETRIC_HEAP_SIZE" "off_psync n ps off (unat sz)"
      "load_bytes (mem_at L (jr_tp s) p) (me_of (tp_pe (jr_tp s) p)) (maps_of (tp_pe (jr_tp s) p)) src (unat sz) = Some xs"
      "near L p q \<longrightarrow> priv_area (maps_of (tp_pe (jr_tp s) p)) src (unat sz)"
      "comm_put (of_nat off) src sz (of_nat q) (jr_at L s p) = Some (m, t')"
  from jr_rep_put [OF rep p(1,2,4-8)] pl_put [OF p(1,2)] p(3) show ?thesis unfolding t jr_repD(2) [OF rep] by blast
next
  fix t' assume t: "t = s\<lparr>jr_tp := t'\<rparr>" and p: "tp_thread n L junk (jr_tp s) t'"
  have "tp_intact t'" using intact by (simp add: t)
  from jr_rep_threads [OF rep p this] show ?thesis unfolding t by (blast intro: pl_move)
qed

interpretation job_run: step_simulation "jr_start n L ps" "jr_step n L ps junk" "\<lambda>s u. tp_intact (jr_tp s) \<longrightarrow> jr_rep n L ps s u"
    "pipe_start n" "pipe_step n (near L)" for n L ps junk
proof unfold_locales
  show "\<exists>u. pipe_start n u \<and> (tp_intact (jr_tp s) \<longrightarrow> jr_rep n L ps s u)" if "jr_start n L ps s" for s
    using jr_rep_start [OF that] by blast
next
  fix s t u
  assume rep: "tp_intact (jr_tp s) \<longrightarrow> jr_rep n L ps s u" and u: "reach (pipe_start n) (pipe_step n (near L)) u"
    and step: "jr_step n L ps junk s t"
  show "\<exists>v. (v = u \<or> pipe_step n (near L) u v) \<and> (tp_intact (jr_tp t) \<longrightarrow> jr_rep n L ps t v)"
  proof (cases "tp_intact (jr_tp t)")
    case True
    with rep jr_step_intact [OF step] have "jr_rep n L ps s u" by blast
    from jr_rep_step [OF this u step True] show ?thesis by blast
  qed blast
qed

end
