(* ===== verification/Code_Barrier.thy ===== *)
theory Code_Barrier
  imports Barrier_Transport
begin

text \<open>
  What the simulation of \<open>Barrier_Transport\<close> gives for the code: the barrier completes puts
  byte for byte, and does not get stuck. A scheduler that executes the steps one by one shows
  that such runs exist.
\<close>

section \<open>What the program has put\<close>

definition puts_off :: "nat \<Rightarrow> nat \<Rightarrow> job_run \<Rightarrow> bool" where
  "puts_off n ps s \<longleftrightarrow> (\<forall>p d. \<forall>(e, off, bs) \<in> set (jr_puts s p d). off_psync n ps off (length bs))"

interpretation job_puts: inductive_invariant "jr_start n L ps" "jr_step n L ps junk" "puts_off n ps" for n L ps junk
proof unfold_locales
  fix s t assume inv: "puts_off n ps s" and step: "jr_step n L ps junk s t"
  show "puts_off n ps t"
    using step
  proof (rule jr_stepE)
    fix p q off sz src xs m t'
    assume t: "t = s\<lparr>jr_tp := tp_note L p q (off, xs) (tp_with L p m t' (jr_tp s)),
        jr_puts := put2 p q (jr_puts s p q @ [(jr_entered s p, off, xs)]) (jr_puts s)\<rparr>"
      and off: "off_psync n ps off (unat sz)"
      and src: "load_bytes (mem_at L (jr_tp s) p) (me_of (tp_pe (jr_tp s) p)) (maps_of (tp_pe (jr_tp s) p)) src (unat sz) = Some xs"
    show ?thesis using inv off load_bytes_length [OF src] by (auto simp: t puts_off_def)
  qed (use inv in \<open>simp_all add: puts_off_def jr_moved_def\<close>)
qed (simp add: puts_off_def jr_start_def)

lemma reached_job:
  assumes "reach (jr_start n L ps) (jr_step n L ps junk) s" and "tp_intact (jr_tp s)"
  obtains u where "reach (pipe_start n) (pipe_step n (near L)) u" "jr_rep n L ps s u" "dl_inv n (near L) (pipe_abs u)" "bar_inv n (pl_bar u)"
proof -
  obtain u where u: "reach (pipe_start n) (pipe_step n (near L)) u" "jr_rep n L ps s u" using job_run.reach_match [OF assms(1)] assms(2) by blast
  have inv: "dl_inv n (near L) (pipe_abs u)" by (rule delivery.reach_inv [OF pipeline.reach_abs [OF u(1)]])
  with dl_invD(1) [OF inv] u show thesis by (intro that) (simp_all add: abs_bar)
qed

text \<open>Bytes the program has put are where the pipeline has them.\<close>

lemma jr_heap_bytes:
  assumes rep: "jr_rep n L ps s u" and d: "d < n" and off: "off_psync n ps off m"
  shows "heap_bytes (mem_at L (jr_tp s) d) (me_of (tp_pe (jr_tp s) d)) off m = map (pl_heap u d) [off ..< off + m]"
proof -
  obtain a where a: "tp_rep n L (jr_tp s) a" "lane_match n L ps a u" by (rule jr_repE [OF rep])
  have "own_heap L (jr_tp s) d k = pl_heap u d k" if "off \<le> k" "k < off + m" for k
    using lane_matchD(3) [OF a(2) d] tp_repD(3) [OF a(1) d] off that by (auto simp: heap_match_def off_psync_def)
  thus ?thesis using tp_repD(6) [OF a(1) d] by (auto simp: heap_bytes_def own_heap_def)
qed

section \<open>Progress\<close>

text \<open>Whatever a PE is about to do in the barrier, it can do.\<close>

lemma psync_put_total:
  assumes rep: "jr_rep n L ps s u" and q: "p < n" "q < n" and i: "i < n" and one: "one_at value (jr_at L s p)"
    and room: "r_room (ps_remote (tp_pe (jr_tp s) p)) 2"
  shows "psync_put value i (of_nat q) (jr_at L s p) \<noteq> None"
proof -
  obtain a where a: "tp_rep n L (jr_tp s) a" by (rule jr_repE [OF rep])
  note ln = tp_repD(1) [OF a q(1)]
  have pe: "job_pe n ps p (tp_pe (jr_tp s) p)" by (rule jr_repD(1) [OF rep q(1)])
  have st: "pe_static n L p (tp_pe (jr_tp s) p)" using ln by (simp add: lanes_def)
  have src: "load_bytes (mem_at L (jr_tp s) p) (me_of (tp_pe (jr_tp s) p)) (maps_of (tp_pe (jr_tp s) p)) value (unat (4 :: size_t)) =
      Some (bytes_of_nat 4 1)" "priv_area (maps_of (tp_pe (jr_tp s) p)) value (unat (4 :: size_t))"
    using one_at_bytes [OF one] by simp_all
  show ?thesis
  proof (cases "apart L p q")
    case True
    obtain zs where zs: "pq_rep (ps_remote (tp_pe (jr_tp s) p)) zs" using ln by (auto simp: lanes_def queued_def)
    obtain mp where mp: "comm_node_map (ps_node (tp_pe (jr_tp s) p)) (of_nat q) = Some mp" "lm_type mp \<noteq> PE_TYPE_LOCAL"
      using st q True unfolding pe_static_def by metis
    from comm_put_remote_queued [OF mp zs room src(1)] show ?thesis
      unfolding psync_put_eq [OF pe] by (metis option.distinct(1))
  next
    case False
    have off: "ps + 4 * i + unat (4 :: size_t) \<le> SYMMETRIC_HEAP_SIZE" using pe i by (simp add: job_pe_def)
    obtain b where b: "local_pe (ps_node (tp_pe (jr_tp s) p)) (ps_local (tp_pe (jr_tp s) p)) (of_nat q) (ly_local L q) b"
      using pe_static_local(2) [OF st q(2) False] by blast
    from comm_local_put_stores [OF b off src(2,1)] b show ?thesis
      unfolding psync_put_eq [OF pe] by (auto simp: comm_put_def local_pe_def)
  qed
qed

lemma barrier_turn_total:
  assumes rep: "jr_rep n L ps s u" and inv: "bar_inv n (pl_bar u)" and p: "p < n" "jr_pc s p \<noteq> Outside"
    and one: "one_at value (jr_at L s p)" and room: "r_room (ps_remote (tp_pe (jr_tp s) p)) 2"
  shows "barrier_turn value (jr_pc s p) (jr_at L s p) \<noteq> None"
proof -
  obtain a where a: "tp_rep n L (jr_tp s) a" by (rule jr_repE [OF rep])
  have pe: "job_pe n ps p (tp_pe (jr_tp s) p)" by (rule jr_repD(1) [OF rep p(1)])
  note num = job_pe_numbers [OF pe p(1) tp_repD(4) [OF a]]
  have ok: "pc_ok n p (jr_pc s p)" using bar_invD(2) [OF inv p(1)] jr_repD(2) [OF rep] by simp
  note put = psync_put_total [OF rep p(1) _ _ one room]
  show ?thesis
  proof (cases "jr_pc s p")
    case (Gather i)
    show ?thesis using jr_sync [OF rep p(1), of i] by (cases "i < n") (simp_all add: Gather num)
  next
    case (Clear i)
    with ok psync_store [OF pe, of i 0] show ?thesis by simp
  next
    case (Release i)
    with put [of i i] show ?thesis by (cases "i < n") (auto simp: num Release)
  next
    case Notify
    with put [of 0 p] p(1) show ?thesis by (auto simp: num)
  next
    case Await
    with jr_sync [OF rep p(1,1)] show ?thesis by (simp add: num)
  next
    case ClearOwn
    with psync_store [OF pe p(1), of 0] show ?thesis by (simp add: num)
  qed (use p(2) in simp)
qed

lemma barrier_moves_on:
  assumes "comm_barrier_all n loc p b = Some b'"
  shows "b' = b \<or> bar_pc b' p \<noteq> bar_pc b p"
  using assms by (auto simp: comm_barrier_all_def barrier_updates split: bar_pc.splits if_splits)

text \<open>When the queues are empty no put of the barrier is in flight.\<close>

lemma idle_flight:
  assumes inv: "dl_inv n loc s" and idle: "\<And>p d. p < n \<Longrightarrow> d < n \<Longrightarrow> \<not> loc p d \<Longrightarrow> dl_way s p d = []" and d: "d < n" "i < n"
  shows "bar_flight (dl_bar s) d i = 0"
proof (cases "d \<noteq> 0 \<and> i \<noteq> d \<or> i = 0")
  case True
  with dl_invD(1) [OF inv] d show ?thesis by (auto simp: bar_inv_def no_stray_def)
next
  case False
  define p where "p = (if d = 0 then i else 0)"
  have p: "p < n" "star p d" "sync_slot p d = i" using False d by (auto simp: p_def star_def sync_slot_def)
  from dl_invD(2) [OF inv p(1) d(1)] idle [OF p(1) d(1)] p(2,3) show ?thesis by (auto simp: way_ok_def)
qed

lemma idle_ways:
  assumes rep: "jr_rep n L ps s u" and idle: "job_idle n L (jr_tp s)" and p: "p < n" "d < n" "apart L p d"
  shows "pipe_way u p d = []"
proof -
  obtain a where a: "tp_rep n L (jr_tp s) a" "lane_match n L ps a u" by (rule jr_repE [OF rep])
  have e: "on_lane a p d = []" by (rule lane_empty [OF a(1) p]) (use idle p in \<open>auto simp: job_idle_def\<close>)
  have jobs: "la_jobs a d = []" using tp_repD(1) [OF a(1) p(2)] idle p(2)
    by (auto simp: lanes_def waiting_def work_rep_def wq_rep_def job_idle_def)
  have send: "la_send a p = []" using tp_repD(1) [OF a(1) p(1)] idle p(1)
    by (auto simp: lanes_def queued_def pq_rep_def job_idle_def)
  have "pl_socket u p d = []" using lane_matchD(4) [OF a(2) p] e by (simp add: on_lane_def)
  moreover have "pl_jobs u d = []" using lane_matchD(2) [OF a(2) p(2)] jobs by simp
  moreover have "pl_send u p = []" using lane_matchD(1) [OF a(2) p(1)] send by simp
  ultimately show ?thesis by (simp add: pipe_way_def)
qed

section \<open>Executing a run\<close>

text \<open>
  What can be done next in a run, and the state after it; \<open>None\<close> when its condition fails.
\<close>

datatype job_act = Enter nat | Turn nat ptr | Put nat nat nat ptr size_t | Send nat | Wire nat nat | Receive nat nat | Work nat

text \<open>Here \<open>write\<close> takes all bytes, and the network carries all that there are.\<close>

fun do_thread :: "nat \<Rightarrow> layout \<Rightarrow> (ptr \<Rightarrow> byte) \<Rightarrow> job_act \<Rightarrow> transport \<Rightarrow> transport option" where
  "do_thread n L junk (Send p) s =
     (if p < n \<and> cr_queue_send (ps_remote (tp_pe s p)) \<noteq> NULL
      then do { t \<leftarrow> send_turn (\<lambda>m. m) (tp_pe s p);
        Some (s\<lparr>tp_pe := (tp_pe s)(p := t), tp_intact := (tp_intact s \<and> write_full (\<lambda>m. m) (tp_pe s p))\<rparr>) } else None)"
| "do_thread n L junk (Wire p q) s =
     (let bs = cr_out (ps_remote (tp_pe s p)) ! ly_index L p q in
      if p < n \<and> q < n \<and> apart L p q \<and> bs \<noteq> []
      then Some (s\<lparr>tp_pe := (tp_pe s)(p := set_out (ly_index L p q) [] (tp_pe s p),
        q := set_in (ly_index L q p) (cr_in (ps_remote (tp_pe s q)) ! ly_index L q p @ bs) (tp_pe s q))\<rparr>) else None)"
| "do_thread n L junk (Receive p q) s =
     (if p < n \<and> q < n \<and> apart L p q \<and> cr_in (ps_remote (tp_pe s q)) ! ly_index L q p \<noteq> []
      then do {
        (m, t) \<leftarrow> receive_turn junk (ly_index L q p) (mem_at L s q, tp_pe s q);
        Some (s\<lparr>tp_mem := (tp_mem s)(ly_node L q := m), tp_pe := (tp_pe s)(q := t),
          tp_intact := (tp_intact s \<and> arrived (ly_index L q p) (mem_at L s q) (tp_pe s q))\<rparr>)
      } else None)"
| "do_thread n L junk (Work d) s = do {
     (j, _) \<leftarrow> work_thread_turn (ps_work (tp_pe s d));
     j \<leftarrow> j;
     (m, t) \<leftarrow> worker_turn (mem_at L s d, tp_pe s d);
     let p = unat (j_origin_pe j);
     if d < n then Some (s\<lparr>tp_mem := (tp_mem s)(ly_node L d := m), tp_pe := (tp_pe s)(d := t), tp_done := put2 p d (tp_done s p d @
        [(unat (j_dest j), heap_bytes m (me_of t) (unat (j_dest j)) (unat (j_size j)))]) (tp_done s)\<rparr>) else None
   }"
| "do_thread n L junk a s = None"

fun do_act :: "nat \<Rightarrow> layout \<Rightarrow> nat \<Rightarrow> (ptr \<Rightarrow> byte) \<Rightarrow> job_act \<Rightarrow> job_run \<Rightarrow> job_run option" where
  "do_act n L ps junk (Enter p) s =
     (if p < n \<and> jr_pc s p = Outside
      then Some (s\<lparr>jr_pc := (jr_pc s)(p := barrier_entry (tp_pe (jr_tp s) p)), jr_entered := (jr_entered s)(p := Suc (jr_entered s p))\<rparr>)
      else None)"
| "do_act n L ps junk (Turn p a) s =
     (if p < n \<and> one_at a (jr_at L s p)
      then do {
        (c, m, t) \<leftarrow> barrier_turn a (jr_pc s p) (jr_at L s p);
        Some (jr_moved p c (s\<lparr>jr_tp := sync_note n L ps p (jr_pc s p) (tp_with L p m t (jr_tp s))\<rparr>))
      } else None)"
| "do_act n L ps junk (Put p q off src sz) s =
     (if p < n \<and> q < n \<and> jr_pc s p = Outside \<and> off + unat sz \<le> SYMMETRIC_HEAP_SIZE \<and> off_psync n ps off (unat sz) \<and>
         (near L p q \<longrightarrow> priv_area (maps_of (tp_pe (jr_tp s) p)) src (unat sz))
      then do {
        xs \<leftarrow> load_bytes (mem_at L (jr_tp s) p) (me_of (tp_pe (jr_tp s) p)) (maps_of (tp_pe (jr_tp s) p)) src (unat sz);
        (m, t) \<leftarrow> comm_put (of_nat off) src sz (of_nat q) (jr_at L s p);
        Some (s\<lparr>jr_tp := tp_note L p q (off, xs) (tp_with L p m t (jr_tp s)),
          jr_puts := put2 p q (jr_puts s p q @ [(jr_entered s p, off, xs)]) (jr_puts s)\<rparr>)
      } else None)"
| "do_act n L ps junk a s = do { u \<leftarrow> do_thread n L junk a (jr_tp s); Some (s\<lparr>jr_tp := u\<rparr>) }"

fun do_acts :: "nat \<Rightarrow> layout \<Rightarrow> nat \<Rightarrow> (ptr \<Rightarrow> byte) \<Rightarrow> job_act list \<Rightarrow> job_run \<Rightarrow> job_run option" where
  "do_acts n L ps junk [] s = Some s"
| "do_acts n L ps junk (a # as) s = do { s \<leftarrow> do_act n L ps junk a s; do_acts n L ps junk as s }"

lemma do_thread_step:
  assumes "do_thread n L junk a s = Some t"
  shows "tp_thread n L junk s t"
proof (cases a)
  case (Send p)
  with assms show ?thesis by (auto simp: bind_eq_Some_conv split: if_splits intro: tp_send)
next
  case (Wire p q)
  with assms show ?thesis by (auto simp: Let_def split: if_splits intro: tp_wire)
next
  case (Receive p q)
  with assms show ?thesis
    by (auto simp: bind_eq_Some_conv split: if_splits intro: tp_receive)
next
  case (Work d)
  with assms show ?thesis by (auto simp: Let_def bind_eq_Some_conv split: if_splits intro: tp_work)
qed (use assms in simp_all)

lemma do_act_step:
  assumes "do_act n L ps junk a s = Some t"
  shows "jr_step n L ps junk s t"
proof (cases a)
  case (Enter p)
  with assms show ?thesis by (auto split: if_splits intro: jr_enter)
next
  case (Turn p v)
  with assms show ?thesis by (auto simp: bind_eq_Some_conv split: if_splits intro: jr_turn)
next
  case (Put p q off src sz)
  with assms show ?thesis by (auto simp: bind_eq_Some_conv split: if_splits intro!: jr_put)
qed (use assms in \<open>auto simp: bind_eq_Some_conv simp del: do_thread.simps intro: jr_threads do_thread_step\<close>)

lemma do_acts_reach:
  "reach i (jr_step n L ps junk) s \<Longrightarrow> do_acts n L ps junk as s = Some t \<Longrightarrow> reach i (jr_step n L ps junk) t"
proof (induction as arbitrary: s)
  case (Cons a as)
  then obtain u where "do_act n L ps junk a s = Some u" "do_acts n L ps junk as u = Some t" by (auto simp: bind_eq_Some_conv)
  with Cons show ?case by (blast intro: reach_next do_act_step)
qed simp

section \<open>A run of three PEs\<close>

text \<open>
  PEs 0 and 1 share a node, PE 2 is on another one. PEs 1 and 2 put two bytes each to PE 0, one
  at once and one by packets, and all enter the barrier; PE 0 has left it in the end. The
  variable \<open>value\<close> is at address 72. First, what evaluates the steps.
\<close>

lemmas packet_only = has_packet_encode [where rest = "[]", simplified] decode_encode [where rest = "[]", simplified]

lemma header_length: "length (take sizeof_packet (encode_packet k @ rest)) = sizeof_packet"
  by (simp add: length_encode_packet)

lemma encode_packet_not_Nil: "encode_packet k \<noteq> []"
  by (simp add: encode_packet_def)

lemma load2: "load_bytes nm me bs a 2 = do { x \<leftarrow> load nm me bs a; y \<leftarrow> load nm me bs (a + 1); Some [x, y] }"
  by (simp add: numeral_2_eq_2)

lemma load4: "load_bytes nm me bs a 4 = do { x \<leftarrow> load nm me bs a; y \<leftarrow> load nm me bs (a + 1); z \<leftarrow> load nm me bs (a + 2); w \<leftarrow> load nm me bs (a + 3); Some [x, y, z, w] }"
proof -
  have 4: "4 = Suc (Suc (Suc (Suc 0)))" by simp
  have n: "a + 1 + 1 = a + 2" "a + 2 + 1 = a + 3" by simp_all
  show ?thesis unfolding 4 load_bytes.simps bind.bind_lunit n Option.bind_assoc by simp
qed

lemma mapping_of_run:
  "mapping_of [Some 4096] a = (if unat (a - 4096) < SYMMETRIC_HEAP_SIZE then Some 0 else None)"
  "mapping_of [Some 4096, Some b] a = (if unat (a - 4096) < SYMMETRIC_HEAP_SIZE then Some 0
     else if unat (a - b) < SYMMETRIC_HEAP_SIZE then Some 1 else None)"
  by (simp_all add: mapping_of_def)

lemma all_below_2: "(\<forall>k < (2::nat). P k) \<longleftrightarrow> P 0 \<and> P 1"
  by (auto simp: less_2_cases_iff)

lemma all_below_4: "(\<forall>k < (4::nat). P k) \<longleftrightarrow> P 0 \<and> P 1 \<and> P 2 \<and> P 3"
proof (intro iffI allI impI)
  fix k :: nat assume P: "P 0 \<and> P 1 \<and> P 2 \<and> P 3" and "k < 4"
  hence "k = 0 \<or> k = 1 \<or> k = 2 \<or> k = 3" by arith
  with P show "P k" by (elim disjE) simp_all
qed auto

lemma bytes_of_nat_4: "bytes_of_nat 4 (Suc 0) = [1, 0, 0, 0]" "bytes_of_nat 4 0 = [0, 0, 0, 0]"
proof -
  have "bytes_of_nat 4 x = [of_nat x, of_nat (x div 256), of_nat (x div 256 div 256), of_nat (x div 256 div 256 div 256)]" for x
  proof -
    have 4: "4 = Suc (Suc (Suc (Suc 0)))" by simp
    show ?thesis unfolding 4 bytes_of_nat.simps ..
  qed
  from this [of "Suc 0"] this [of 0] show "bytes_of_nat 4 (Suc 0) = [1, 0, 0, 0]" "bytes_of_nat 4 0 = [0, 0, 0, 0]" by simp_all
qed

definition run_mem :: node_mem where
  "run_mem = \<lparr>nm_heap = \<lambda>_ _. 0, nm_priv = \<lambda>_. Map.empty
     (64 := Some 65, 65 := Some 66, 72 := Some 1, 73 := Some 0, 74 := Some 0, 75 := Some 0)\<rparr>"

definition run_layout :: layout where
  "run_layout = \<lparr>ly_node = \<lambda>p. if p = 2 then 1 else 0, ly_local = \<lambda>p. if p = 1 then 1 else 0,
     ly_index = \<lambda>p q. if p = 2 \<and> q = 1 then 1 else 0\<rparr>"

definition run_remote :: "nat \<Rightarrow> remote_state" where
  "run_remote p = \<lparr>cr_my_pe = of_nat p, cr_n_pes = 3, cr_n_remote_pes = (if p = 2 then 2 else 1), cr_finished = 0,
     cr_queue_send = 0, cr_queue_send_tail = 0, cr_request_indices = (if p = 2 then [0, 0] else [0]), cr_cells = Map.empty,
     cr_packets = Map.empty, cr_out = (if p = 2 then [[], []] else [[]]), cr_in = (if p = 2 then [[], []] else [[]]),
     cr_answers = [64, 128, 192, 256, 320, 384], cr_buffers = [128, 136]\<rparr>"

definition run_local :: "nat \<Rightarrow> comm_local_state" where
  "run_local p = \<lparr>cl_my_local_pe = (if p = 1 then 1 else 0), cl_n_local_pes = (if p = 2 then 1 else 2),
     cl_symmetric_heap = Some \<lparr>sh_heap = heap_zero (if p = 1 then 1073741824 else 4096) (of_nat SYMMETRIC_HEAP_SIZE) 64,
       sh_key = ''dwl2x-shmem-0''\<rparr>,
     cl_shared_memory = (if p = 2 then [Some 4096] else [Some 4096, Some 1073741824])\<rparr>"

definition run_work :: work_state where
  "run_work = \<lparr>w_head = 0, w_tail = 0, w_finished = 0, w_cells = Map.empty, w_jobs = Map.empty, w_answers = [64, 128, 192, 256, 320, 384]\<rparr>"

definition run_entry :: "8 word \<Rightarrow> c_int \<Rightarrow> locality_map_t option" where
  "run_entry k i = Some \<lparr>lm_type = k, lm_index = i, lm_host = (if k = PE_TYPE_LOCAL then 0 else 1)\<rparr>"

definition run_node :: "nat \<Rightarrow> node_state" where
  "run_node p = (comm_node_init 4096 0 1 3 2)\<lparr>nd_map :=
     (if p = 2 then [run_entry PE_TYPE_REMOTE 0, run_entry PE_TYPE_REMOTE 1, run_entry PE_TYPE_LOCAL 0]
      else [run_entry PE_TYPE_LOCAL 0, run_entry PE_TYPE_LOCAL 1, run_entry PE_TYPE_REMOTE 0])\<rparr>"

definition run_pe :: "nat \<Rightarrow> pe_state" where
  "run_pe p = \<lparr>ps_node = run_node p, ps_local = run_local p, ps_remote = run_remote p, ps_work = run_work,
     ps_psync = (if p = 1 then 1073741824 else 4096), ps_store = demo_mem, ps_maps = Map.empty\<rparr>"

definition run_start :: job_run where
  "run_start = \<lparr>jr_tp = \<lparr>tp_mem = \<lambda>_. run_mem, tp_pe = run_pe, tp_made = \<lambda>_ _. [], tp_done = \<lambda>_ _. [], tp_intact = True\<rparr>,
    jr_pc = \<lambda>_. Outside, jr_entered = \<lambda>_. 0, jr_left = \<lambda>_. 0, jr_puts = \<lambda>_ _. []\<rparr>"

lemma run_nodes: "comm_node_map (run_node p) 0 = (if p = 2 then run_entry PE_TYPE_REMOTE 0 else run_entry PE_TYPE_LOCAL 0)"
  "comm_node_map (run_node p) 1 = (if p = 2 then run_entry PE_TYPE_REMOTE 1 else run_entry PE_TYPE_LOCAL 1)"
  "comm_node_map (run_node p) 2 = (if p = 2 then run_entry PE_TYPE_LOCAL 0 else run_entry PE_TYPE_REMOTE 0)"
  by (simp_all add: run_node_def comm_node_map_def numeral_2_eq_2)

lemma run_locals: "cl_me (run_local p) = (if p = 1 then 1 else 0)"
  "cl_shared_memory (run_local p) = (if p = 2 then [Some 4096] else [Some 4096, Some 1073741824])"
  "comm_local_offset (run_local p) a = Some (a - (if p = 1 then 1073741824 else 4096))"
  by (simp_all add: run_local_def cl_me_def comm_local_offset_def shared_heap_offset_def heap_offset_def heap_zero_def)

lemmas eval_put = comm_put_def comm_remote_put_def malloc_packet_def comm_thread_enqueue_def malloc_pcell_def upd_pcell_def
  r_used_def user_ptr_def load_def load2 load4 tp_note_def tp_log_def tp_with_def off_psync_def mapping_of_run SYMMETRIC_HEAP_SIZE_def
lemmas eval_barrier = barrier_entry_def comm_remote_pe_def comm_remote_n_pes_def load_int_def store_int_def jr_moved_def sync_note_def
  my_index_def below_n_pes_def one_at_def psync_put_def psync_at_def sync_slot_def store_def offset_in_def bytes_of_nat_4
lemmas eval_threads = send_turn_def comm_thread_dequeue_def send_packet_def has_packet_encode packet_only arrived_def write_full_def decode_encode header_length
  encode_packet_not_Nil set_out_def set_in_def receive_turn_def receive_from_def socket_read_def can_receive_def malloc_buffer_def
  priv_area_def all_below_2 all_below_4 whole_def length_encode_packet work_put_remote_def malloc_job_def work_thread_enqueue_def
  w_room_def answers_ok_def w_used_def malloc_cell_def upd_cell_def worker_turn_def work_thread_turn_def work_thread_dequeue_def
  work_thread_execute_def comm_local_put_def memcpy_def mapped_heap_def
lemmas eval_run = run_layout_def run_nodes run_locals run_entry_def run_remote_def run_work_def run_pe_def run_mem_def run_start_def

definition run_acts :: "job_act list \<Rightarrow> job_run option" where
  "run_acts as = do_acts 3 run_layout 0 (\<lambda>_. 0) as run_start"

lemma less_3: "p < (3 :: nat) \<longleftrightarrow> p = 0 \<or> p = 1 \<or> p = 2"
  by arith

lemma run_start: "jr_start 3 run_layout 0 run_start"
proof -
  have q: "pq_rep (run_remote p) []" for p by (auto simp: pq_rep_def run_remote_def)
  have "run_work = work_start run_work" by (simp add: run_work_def work_start_def)
  hence w: "work_rep run_work []" using work_rep_start by metis
  have "maps_ok [Some 4096, Some 1073741824]" by (simp add: maps_ok_def SYMMETRIC_HEAP_SIZE_def less_Suc_eq)
  hence pe: "job_pe 3 0 p (run_pe p)" and st: "pe_static 3 run_layout p (run_pe p)" if "p < 3" for p
    using that demo_maps run_nodes [of p] run_locals
    by (auto simp: less_3 job_pe_def pe_static_def local_pe_def run_pe_def run_remote_def SYMMETRIC_HEAP_SIZE_def
        run_local_def run_entry_def heap_zero_def run_layout_def)
  have r: "ps_remote (run_pe p) = run_remote p" "ps_work (run_pe p) = run_work" for p by (simp_all add: run_pe_def)
  have "\<forall>r < 3. apart run_layout r p \<longrightarrow> cr_out (run_remote p) ! ly_index run_layout p r = [] \<and>
      cr_in (run_remote p) ! ly_index run_layout p r = []" for p by (auto simp: less_3 run_remote_def run_layout_def)
  moreover have "layout_ok 3 run_layout" by (auto simp: layout_ok_def less_3 run_layout_def)
  ultimately have "tp_start 3 run_layout (jr_tp run_start)" using st q w by (simp add: tp_start_def run_start_def r)
  with pe show ?thesis by (simp add: jr_start_def own_heap_def) (simp add: run_start_def run_mem_def)
qed

lemma run_acts_reach:
  assumes "run_acts as = Some s"
  shows "reach (jr_start 3 run_layout 0) (jr_step 3 run_layout 0 (\<lambda>_. 0)) s"
proof -
  have "reach (jr_start 3 run_layout 0) (jr_step 3 run_layout 0 (\<lambda>_. 0)) run_start" by (rule reach_start) (rule run_start)
  thus ?thesis using assms unfolding run_acts_def by (rule do_acts_reach)
qed

lemma run_completes:
  obtains s where "reach (jr_start 3 run_layout 0) (jr_step 3 run_layout 0 (\<lambda>_. 0)) s" "jr_puts s 0 0 = []"
    "jr_puts s 1 0 = [(0, 200, [65, 66])]" "jr_puts s 2 0 = [(0, 100, [65, 66])]" "jr_left s 0 = 1" "me_of (tp_pe (jr_tp s) 0) = 0"
    "tp_intact (jr_tp s)"
proof -
  have "case run_acts [Put 2 0 100 64 2, Put 1 0 200 64 2, Enter 2, Turn 2 72, Send 2, Send 2, Wire 2 0,
      Receive 2 0, Receive 2 0, Work 0, Work 0, Enter 1, Turn 1 72, Enter 0, Turn 0 72, Turn 0 72, Turn 0 72, Turn 0 72,
      Turn 0 72, Turn 0 72, Turn 0 72, Turn 0 72] of None \<Rightarrow> False
    | Some s \<Rightarrow> jr_puts s 0 0 = [] \<and> jr_puts s 1 0 = [(0, 200, [65, 66])] \<and> jr_puts s 2 0 = [(0, 100, [65, 66])] \<and>
        jr_left s 0 = 1 \<and> me_of (tp_pe (jr_tp s) 0) = 0 \<and> tp_intact (jr_tp s)"
    by (simp add: run_acts_def eval_put eval_barrier eval_threads eval_run Let_def cong: if_cong)
  thus thesis by (auto intro: that run_acts_reach simp del: One_nat_def split: option.splits)
qed

lemma run_entered:
  obtains s where "reach (jr_start 3 run_layout 0) (jr_step 3 run_layout 0 (\<lambda>_. 0)) s" "jr_pc s 0 = Gather 1" "jr_tp s = jr_tp run_start"
    "jr_entered s 0 = 1" "jr_entered s 1 = 1" "jr_entered s 2 = 1"
proof -
  have "case run_acts [Enter 1, Enter 2, Enter 0] of None \<Rightarrow> False
    | Some s \<Rightarrow> jr_pc s 0 = Gather 1 \<and> jr_tp s = jr_tp run_start \<and> jr_entered s 0 = 1 \<and> jr_entered s 1 = 1 \<and> jr_entered s 2 = 1"
    by (simp add: run_acts_def eval_barrier eval_run)
  thus thesis by (auto intro: that run_acts_reach simp del: One_nat_def split: option.splits)
qed

section \<open>Properties\<close>

text \<open>
  C4: the code's barrier implements the barrier of \<open>Barrier\<close>. In every run of the loads,
  stores and puts of \<open>comm_barrier_all\<close> on the memory of the PEs, through their queues,
  packets, sockets, buffers and jobs, in which nothing has been lost (\<open>write\<close> has taken every
  packet whole, and every packet had arrived whole when it was read), the places of the PEs
  in the barrier, their counts, and the integers they read in their arrays \<open>pSync\<close> are those
  of a state that the steps of \<open>Barrier\<close> reach.
\<close>

theorem code_barrier_refines:
  assumes "reach (jr_start n L ps) (jr_step n L ps junk) s" and "tp_intact (jr_tp s)"
  shows "\<exists>b. reach (bar_start n) (bar_step n (near L)) b \<and> bar_pc b = jr_pc s \<and> bar_entered b = jr_entered s \<and> bar_left b = jr_left s \<and>
    (\<forall>p < n. \<forall>i < n. load_int (psync_at (tp_pe (jr_tp s) p) i) (jr_at L s p) = Some (bar_sync b p i))"
proof -
  obtain u where u: "reach (pipe_start n) (pipe_step n (near L)) u" "jr_rep n L ps s u"
    by (rule reached_job [OF assms])
  have "reach (bar_start n) (bar_step n (near L)) (pl_bar u)"
    using barrier_of_delivery.reach_abs [OF pipeline.reach_abs [OF u(1)]] by (simp add: abs_bar)
  with jr_repD(2-4) [OF u(2)] jr_sync [OF u(2)] show ?thesis by (intro exI [of _ "pl_bar u"]) simp
qed

text \<open>
  C3: the code's barrier completes puts, byte for byte. In every run of the barrier's loads,
  stores and puts on the memory of the PEs, through their queues, packets, sockets, buffers and
  jobs, in which nothing has been lost (\<open>write\<close> has taken every packet whole, and every packet
  had arrived whole, with \<open>malloc\<close> giving memory for it, when it was read), and in which no put
  of the program stores into an array \<open>pSync\<close>: when PE \<open>p\<close> has put bytes into the heap of \<open>d\<close>
  before a barrier, and one of the two is PE 0 or both are on the same node, then once \<open>d\<close> has
  left that barrier the bytes are at their offset in the memory of \<open>d\<close>, if no put ever made to
  \<open>d\<close> stores anything else there; and no PE has then left more barriers than any other one has
  entered.
\<close>

theorem code_barrier_completes_puts:
  assumes "reach (jr_start n L ps) (jr_step n L ps junk) s" and intact: "tp_intact (jr_tp s)" and p: "p < n" "d < n" "p = 0 \<or> d = 0 \<or> near L p d"
    and made: "(e, off, bs) \<in> set (jr_puts s p d)" "e < jr_left s d"
    and same: "\<forall>q < n. \<forall>(f, y) \<in> set (jr_puts s q d). agree (off, bs) y"
  shows "heap_bytes (mem_at L (jr_tp s) d) (me_of (tp_pe (jr_tp s) d)) off (length bs) = bs \<and> (\<forall>q < n. jr_left s d \<le> jr_entered s q)"
proof -
  obtain u where u: "reach (pipe_start n) (pipe_step n (near L)) u" "jr_rep n L ps s u" "dl_inv n (near L) (pipe_abs u)" "bar_inv n (pl_bar u)"
    by (rule reached_job [OF assms(1) intact])
  have abs: "dl_made (pipe_abs u) = jr_puts s" "dl_bar (pipe_abs u) = pl_bar u" "bar_left (pl_bar u) = jr_left s"
    "dl_heap (pipe_abs u) = pl_heap u" using jr_repD [OF u(2)] by (simp_all add: pipe_abs_def)
  have "User e off bs \<notin> set (dl_way (pipe_abs u) p d)"
    using way_empty_after [OF u(3) p] made(2) unfolding abs by fastforce
  hence "set (put_cells off bs) \<subseteq> set (dl_stored (pipe_abs u) d)"
    using dl_invD(3) [OF u(3) p(1,2)] made(1) unfolding kept_def abs by blast
  from stored_bytes [OF u(3) p(2) this] same have "map (pl_heap u d) [off ..< off + length bs] = bs" unfolding abs by blast
  moreover have "off_psync n ps off (length bs)"
    using job_puts.reach_inv [OF assms(1)] made(1) unfolding puts_off_def by blast
  ultimately have "heap_bytes (mem_at L (jr_tp s) d) (me_of (tp_pe (jr_tp s) d)) off (length bs) = bs"
    using jr_heap_bytes [OF u(2) p(2)] by simp
  moreover have "jr_left s d \<le> jr_entered s q" if "q < n" for q
    using bar_inv_left_entered [OF u(4) p(2) that] jr_repD(3,4) [OF u(2)] by simp
  ultimately show ?thesis by blast
qed

text \<open>
  C8: the code's barrier does not get stuck as long as nothing has been lost: \<open>write\<close> has taken
  every packet whole, and every packet had arrived whole, with \<open>malloc\<close> giving memory for it,
  when it was read. Let \<open>value\<close> hold 1 at every PE and two \<open>malloc\<close>s succeed there. Then, whenever
  a PE is in the barrier, its next step of \<open>comm_barrier_all\<close> is defined; and when every PE has
  entered this barrier and all queues and sockets are empty, some PE's next step takes it
  further, so that the PEs do not all wait.
\<close>

theorem code_barrier_progress:
  assumes "reach (jr_start n L ps) (jr_step n L ps junk) s" and intact: "tp_intact (jr_tp s)" and p: "p < n" "jr_pc s p \<noteq> Outside"
    and ready: "\<forall>q < n. one_at (one q) (jr_at L s q) \<and> r_room (ps_remote (tp_pe (jr_tp s) q)) 2"
  shows "barrier_turn (one p) (jr_pc s p) (jr_at L s p) \<noteq> None \<and>
    ((\<forall>q < n. jr_entered s p \<le> jr_entered s q) \<and> job_idle n L (jr_tp s) \<longrightarrow>
      (\<exists>q < n. \<exists>c m t. barrier_turn (one q) (jr_pc s q) (jr_at L s q) = Some (c, m, t) \<and> c \<noteq> jr_pc s q))"
proof (intro conjI impI)
  obtain u where u: "reach (pipe_start n) (pipe_step n (near L)) u" "jr_rep n L ps s u" "dl_inv n (near L) (pipe_abs u)" "bar_inv n (pl_bar u)"
    by (rule reached_job [OF assms(1) intact])
  have turn: "barrier_turn (one q) (jr_pc s q) (jr_at L s q) \<noteq> None" if "q < n" "jr_pc s q \<noteq> Outside" for q
    using barrier_turn_total [OF u(2,4) that] ready that(1) by blast
  show "barrier_turn (one p) (jr_pc s p) (jr_at L s p) \<noteq> None" by (rule turn [OF p])
  assume all: "(\<forall>q < n. jr_entered s p \<le> jr_entered s q) \<and> job_idle n L (jr_tp s)"
  have "\<exists>t. bar_move n (near L) (pl_bar u) t"
    by (rule bar_progress [OF u(4) p(1)]) (use p(2) all jr_repD(2,3) [OF u(2)] in auto)
  then obtain b where "bar_move n (near L) (pl_bar u) b" by blast
  then obtain q where q: "q < n" "comm_barrier_all n (near L) q (pl_bar u) = Some b" "b \<noteq> pl_bar u"
  proof (cases rule: bar_move.cases)
    case (deliver d i k)
    have "bar_flight (dl_bar (pipe_abs u)) d i = 0"
      by (rule idle_flight [OF u(3) _ deliver(2,3)]) (use idle_ways [OF u(2)] all in \<open>simp add: pipe_abs_def\<close>)
    with deliver(4) show ?thesis by (simp add: abs_bar)
  qed blast
  have "jr_pc s q \<noteq> Outside" using q(2) jr_repD(2) [OF u(2)] by (auto simp: comm_barrier_all_def)
  then obtain c m t where c: "barrier_turn (one q) (jr_pc s q) (jr_at L s q) = Some (c, m, t)"
    using turn [OF q(1)] by (metis not_Some_eq prod_cases3)
  have "one_at (one q) (jr_at L s q)" using ready q(1) by blast
  from jr_rep_turn [OF u(2,4) q(1) this c] q(2) have "jr_rep n L ps (run_step n L ps q c m t s) (pipe_run n (near L) q b u)" by auto
  from jr_repD(2) [OF this] have "c = bar_pc (pl_bar (pipe_run n (near L) q b u)) q" by (simp add: run_step_def jr_moved_def fun_eq_iff split: if_splits)
  hence "c = bar_pc b q" by (simp add: pipe_run_def pipe_enqueue_def split: option.splits)
  hence "c \<noteq> jr_pc s q" using barrier_moves_on [OF q(2)] q(3) jr_repD(2) [OF u(2)] by simp
  with c q(1) show "\<exists>q < n. \<exists>c m t. barrier_turn (one q) (jr_pc s q) (jr_at L s q) = Some (c, m, t) \<and> c \<noteq> jr_pc s q" by blast
qed

theorem code_barrier_completes_puts_witness:
  "\<exists>s. reach (jr_start 3 run_layout 0) (jr_step 3 run_layout 0 (\<lambda>_. 0)) s \<and>
    jr_puts s 1 0 = [(0, 200, [65, 66])] \<and> jr_puts s 2 0 = [(0, 100, [65, 66])] \<and> jr_left s 0 = 1 \<and>
    heap_bytes (mem_at run_layout (jr_tp s) 0) 0 100 2 = [65, 66] \<and> heap_bytes (mem_at run_layout (jr_tp s) 0) 0 200 2 = [65, 66]"
proof -
  obtain s where s: "reach (jr_start 3 run_layout 0) (jr_step 3 run_layout 0 (\<lambda>_. 0)) s" "jr_puts s 0 0 = []"
    "jr_puts s 1 0 = [(0, 200, [65, 66])]" "jr_puts s 2 0 = [(0, 100, [65, 66])]" "jr_left s 0 = 1" "me_of (tp_pe (jr_tp s) 0) = 0"
    "tp_intact (jr_tp s)"
    by (rule run_completes)
  have same: "\<forall>q < 3. \<forall>(f, y) \<in> set (jr_puts s q 0). agree (off, [65, 66]) y" if "off = 100 \<or> off = 200" for off
  proof -
    have "agree (100, [65, 66]) (200, [65, 66])" "agree (200, [65, 66]) (100, [65, 66])" by (auto simp: agree_def put_cells_iff)
    with that s(2-4) show ?thesis by (auto simp: less_3)
  qed
  have "heap_bytes (mem_at run_layout (jr_tp s) 0) (me_of (tp_pe (jr_tp s) 0)) 100 (length [65, 66 :: byte]) = [65, 66] \<and>
      (\<forall>q < 3. jr_left s 0 \<le> jr_entered s q)"
    by (rule code_barrier_completes_puts [OF s(1,7), of 2 0 0]) (use s same [of 100] in simp_all)
  moreover have "heap_bytes (mem_at run_layout (jr_tp s) 0) (me_of (tp_pe (jr_tp s) 0)) 200 (length [65, 66 :: byte]) = [65, 66] \<and>
      (\<forall>q < 3. jr_left s 0 \<le> jr_entered s q)"
    by (rule code_barrier_completes_puts [OF s(1,7), of 1 0 0]) (use s same [of 200] in simp_all)
  ultimately show ?thesis using s by (auto simp: numeral_2_eq_2)
qed

theorem code_barrier_refines_witness:
  "\<exists>s b. reach (jr_start 3 run_layout 0) (jr_step 3 run_layout 0 (\<lambda>_. 0)) s \<and> jr_left s 0 = 1 \<and>
    reach (bar_start 3) (bar_step 3 (near run_layout)) b \<and> bar_left b = jr_left s"
proof -
  obtain s where s: "reach (jr_start 3 run_layout 0) (jr_step 3 run_layout 0 (\<lambda>_. 0)) s" "jr_left s 0 = 1" "tp_intact (jr_tp s)"
    by (rule run_completes)
  with code_barrier_refines [OF s(1,3)] show ?thesis by blast
qed

theorem code_barrier_progress_witness:
  "\<exists>s. reach (jr_start 3 run_layout 0) (jr_step 3 run_layout 0 (\<lambda>_. 0)) s \<and> jr_pc s 0 = Gather 1 \<and>
    (\<exists>q < 3. \<exists>c m t. barrier_turn 72 (jr_pc s q) (jr_at run_layout s q) = Some (c, m, t) \<and> c \<noteq> jr_pc s q)"
proof -
  obtain s where s: "reach (jr_start 3 run_layout 0) (jr_step 3 run_layout 0 (\<lambda>_. 0)) s" "jr_pc s 0 = Gather 1" "jr_tp s = jr_tp run_start"
    "jr_entered s 0 = 1" "jr_entered s 1 = 1" "jr_entered s 2 = 1" by (rule run_entered)
  have "one_at 72 (jr_at run_layout s q) \<and> r_room (ps_remote (tp_pe (jr_tp s) q)) 2" if "q < 3" for q
    by (simp add: s(3) one_at_def priv_area_def all_below_4 load_int_def load4 load_def mapping_of_run SYMMETRIC_HEAP_SIZE_def eval_run r_room_def answers_ok_def r_used_def user_ptr_def)
  moreover have "job_idle 3 run_layout (jr_tp s)" by (auto simp: job_idle_def s(3) eval_run less_3)
  moreover have "\<forall>q < 3. jr_entered s 0 \<le> jr_entered s q" using s(4-6) by (auto simp: less_3)
  moreover have "tp_intact (jr_tp s)" by (simp add: s(3) run_start_def)
  ultimately have "\<exists>q < 3. \<exists>c m t. barrier_turn 72 (jr_pc s q) (jr_at run_layout s q) = Some (c, m, t) \<and> c \<noteq> jr_pc s q"
    using code_barrier_progress [OF s(1) _, of 0 "\<lambda>_. 72"] s(2) by simp
  with s(1,2) show ?thesis by blast
qed

end
