(* ===== verification/Rte.thy ===== *)
theory Rte
  imports Comm_Node
begin

text \<open>
  The runtime layer \<open>rte/pmix/rte.c\<close>. PMIx is not part of the repository: its answers are the
  fields of a record that every operation takes, so that a lemma holds for all the answers it
  can give. The layer's own state is the PE, the number of PEs and the process identifier
  \<open>__proc\<close>, whose rank the operations overwrite with the one they ask about. An output
  argument the code leaves unset is \<open>None\<close>, and so is undefined behaviour. \<open>perror\<close> and the
  release of PMIx values are not modelled, and \<open>malloc\<close> is taken to succeed for the sizes
  that are not negative.
\<close>

section \<open>Definitions\<close>

record pmix_proc_t =
  pp_nspace :: string
  pp_rank :: "32 word"

datatype pmix_key = PMIX_JOB_SIZE | PMIX_LOCAL_RANK | PMIX_LOCAL_SIZE | PMIX_NUM_NODES

text \<open>
  \<open>PMIX_RANK_WILDCARD\<close>; whether \<open>PMIx_Init\<close> succeeds and the identifier it leaves; \<open>PMIx_Get\<close>,
  as the first four bytes of the value's data; the comma-separated hosts of a namespace; the
  ranks of the processes of a host in a namespace. \<open>None\<close> is a status other than success.
\<close>

record pmix =
  PMIX_RANK_WILDCARD :: "32 word"
  PMIx_Init :: "bool \<times> pmix_proc_t"
  PMIx_Get :: "pmix_proc_t \<Rightarrow> pmix_key \<Rightarrow> 32 word option"
  PMIx_Resolve_nodes :: "string \<Rightarrow> string option"
  PMIx_Resolve_peers :: "string \<Rightarrow> string \<Rightarrow> 32 word list option"

record rte =
  MY_PE :: c_int
  N_PES :: c_int
  rte_proc :: pmix_proc_t

definition set_rank :: "32 word \<Rightarrow> rte \<Rightarrow> rte" where
  "set_rank r s = s\<lparr>rte_proc := (rte_proc s)\<lparr>pp_rank := r\<rparr>\<rparr>"

text \<open>A failing \<open>PMIx_Init\<close> is only reported; after a failing \<open>PMIx_Get\<close> an unset pointer is read.\<close>

definition rte_init :: "pmix \<Rightarrow> rte \<Rightarrow> rte option" where
  "rte_init pm s = do {
     let s = s\<lparr>rte_proc := snd (PMIx_Init pm)\<rparr>;
     let s = s\<lparr>MY_PE := pp_rank (rte_proc s)\<rparr>;
     let s = set_rank (PMIX_RANK_WILDCARD pm) s;
     v \<leftarrow> PMIx_Get pm (rte_proc s) PMIX_JOB_SIZE;
     Some (s\<lparr>N_PES := v\<rparr>)
   }"

definition rte_my_pe :: "rte \<Rightarrow> c_int" where
  "rte_my_pe s = MY_PE s"

definition rte_n_pes :: "rte \<Rightarrow> c_int" where
  "rte_n_pes s = N_PES s"

definition rte_my_local_pe :: "pmix \<Rightarrow> rte \<Rightarrow> c_int \<times> rte" where
  "rte_my_local_pe pm s =
     (let s = set_rank (MY_PE s) s
      in case PMIx_Get pm (rte_proc s) PMIX_LOCAL_RANK of
           None \<Rightarrow> (- 1, s)
         | Some v \<Rightarrow> (ucast (ucast v :: 16 word), s))"

definition rte_n_local_pes :: "pmix \<Rightarrow> rte \<Rightarrow> c_int \<times> rte" where
  "rte_n_local_pes pm s =
     (let s = set_rank (PMIX_RANK_WILDCARD pm) s
      in case PMIx_Get pm (rte_proc s) PMIX_LOCAL_SIZE of None \<Rightarrow> (- 1, s) | Some v \<Rightarrow> (v, s))"

definition rte_n_nodes :: "pmix \<Rightarrow> rte \<Rightarrow> c_int \<times> rte" where
  "rte_n_nodes pm s =
     (let s = set_rank (PMIX_RANK_WILDCARD pm) s
      in case PMIx_Get pm (rte_proc s) PMIX_NUM_NODES of None \<Rightarrow> (- 1, s) | Some v \<Rightarrow> (v, s))"

text \<open>The host name \<open>gethostname\<close> stores, cut to the buffer by the caller's length, and its length.\<close>

definition rte_hostname :: "string \<Rightarrow> string \<times> c_int" where
  "rte_hostname name = (name, of_nat (length name))"

text \<open>The tokens that \<open>strtok\<close> with the delimiter \<open>,\<close> gives, one after the other.\<close>

function strtok_all :: "string \<Rightarrow> string list" where
  "strtok_all cs =
     (let cs = dropWhile (\<lambda>c. c = CHR '','') cs
      in if cs = [] then []
         else takeWhile (\<lambda>c. c \<noteq> CHR '','') cs # strtok_all (dropWhile (\<lambda>c. c \<noteq> CHR '','') cs))"
  by auto
termination
proof (relation "measure length")
  fix cs xs :: string
  assume x: "xs = dropWhile (\<lambda>c. c = CHR '','') cs" "xs \<noteq> []"
  hence "hd xs \<noteq> CHR '',''" using hd_dropWhile by blast
  hence "length (dropWhile (\<lambda>c. c \<noteq> CHR '','') xs) < length xs"
    using x(2) by (cases xs) (auto simp: le_imp_less_Suc length_dropWhile_le)
  also have "length xs \<le> length cs" using x(1) by (simp add: length_dropWhile_le)
  finally show "(dropWhile (\<lambda>c. c \<noteq> CHR '','') xs, cs) \<in> measure length" by simp
qed simp

declare strtok_all.simps [simp del]

text \<open>
  The hosts; the inner \<open>None\<close> when they cannot be resolved, which leaves \<open>*hosts\<close> unset. The
  array has an element for each of the nodes PMIx counts (none if their number is negative,
  where \<open>malloc\<close> fails), and each name is copied into \<open>HOSTNAME_LEN\<close> bytes.
\<close>

definition rte_hosts :: "pmix \<Rightarrow> rte \<Rightarrow> (string list option \<times> rte) option" where
  "rte_hosts pm s =
     (case PMIx_Resolve_nodes pm (pp_nspace (rte_proc s)) of
        None \<Rightarrow> Some (None, s)
      | Some hoststr \<Rightarrow>
          (let (n, s) = rte_n_nodes pm s; hs = strtok_all hoststr
           in if (hs = [] \<or> int (length hs) \<le> sint n) \<and> (\<forall>h \<in> set hs. length h < HOSTNAME_LEN)
              then Some (Some hs, s) else None))"

text \<open>The ranks as the code stores them; \<open>None\<close> leaves \<open>*pes\<close> and \<open>*len\<close> unset.\<close>

definition rte_local_peers :: "pmix \<Rightarrow> rte \<Rightarrow> string \<Rightarrow> c_int list option" where
  "rte_local_peers pm s hostname = PMIx_Resolve_peers pm hostname (pp_nspace (rte_proc s))"

text \<open>\<open>hosts\<close> and, for each of them, \<open>pes\<close> and \<open>n_pes\<close>.\<close>

definition rte_remote_peers :: "pmix \<Rightarrow> rte \<Rightarrow> ((string list option \<times> c_int list option list) \<times> rte) option" where
  "rte_remote_peers pm s = do {
     (hosts, s) \<leftarrow> rte_hosts pm s;
     Some ((hosts, map (rte_local_peers pm s) (case hosts of None \<Rightarrow> [] | Some hs \<Rightarrow> hs)), s)
   }"

definition rte_local_root :: "pmix \<Rightarrow> rte \<Rightarrow> string \<Rightarrow> c_int option" where
  "rte_local_root pm s hostname =
     (case rte_local_peers pm s hostname of None \<Rightarrow> None | Some [] \<Rightarrow> None | Some (p # _) \<Rightarrow> Some p)"

text \<open>The processes that \<open>PMIx_Fence\<close> is called with; \<open>junk\<close> is what the array \<open>hostname\<close> holds.\<close>

definition rte_barrier_node :: "pmix \<Rightarrow> rte \<Rightarrow> string \<Rightarrow> (pmix_proc_t list \<times> rte) option" where
  "rte_barrier_node pm s junk = do {
     let (n, s) = rte_n_local_pes pm s;
     pes \<leftarrow> rte_local_peers pm s junk;
     if 0 < sint n \<and> int (length pes) \<le> sint n
     then Some (map (\<lambda>r. \<lparr>pp_nspace = pp_nspace (rte_proc s), pp_rank = r\<rparr>) pes, s) else None
   }"

definition rte_barrier_all :: "rte \<Rightarrow> pmix_proc_t list option" where
  "rte_barrier_all s =
     (if 0 < sint (N_PES s)
      then Some (map (\<lambda>i. \<lparr>pp_nspace = pp_nspace (rte_proc s), pp_rank = of_nat i\<rparr>) [0 ..< nat (sint (N_PES s))])
      else None)"

section \<open>Lemmas\<close>

text \<open>The names separated by commas, as the documentation of \<open>PMIx_Resolve_nodes\<close> has it.\<close>

fun comma_list :: "string list \<Rightarrow> string" where
  "comma_list [] = []"
| "comma_list [h] = h"
| "comma_list (h # hs) = h @ CHR '','' # comma_list hs"

definition host_names :: "string list \<Rightarrow> bool" where
  "host_names hs \<longleftrightarrow> (\<forall>h \<in> set hs. h \<noteq> [] \<and> CHR '','' \<notin> set h)"

lemma takeWhile_name: "CHR '','' \<notin> set h \<Longrightarrow> takeWhile (\<lambda>c. c \<noteq> CHR '','') (h @ CHR '','' # cs) = h"
  by (induction h) auto

lemma dropWhile_name: "CHR '','' \<notin> set h \<Longrightarrow> dropWhile (\<lambda>c. c \<noteq> CHR '','') (h @ CHR '','' # cs) = CHR '','' # cs"
  by (induction h) auto

lemma strtok_all_comma [simp]: "strtok_all (CHR '','' # cs) = strtok_all cs"
  by (subst (1 2) strtok_all.simps) simp

lemma strtok_all_Nil [simp]: "strtok_all [] = []"
  by (subst strtok_all.simps) simp

lemma strtok_all_name:
  assumes "h \<noteq> []" "CHR '','' \<notin> set h"
  shows "strtok_all h = [h]" and "strtok_all (h @ CHR '','' # cs) = h # strtok_all cs"
proof -
  obtain c h' where h: "h = c # h'" using assms(1) by (cases h) auto
  have "dropWhile (\<lambda>c. c = CHR '','') (h @ xs) = h @ xs" for xs
    using assms(2) by (auto simp: h)
  note skip = this this [of "[]", simplified]
  have all: "takeWhile (\<lambda>c. c \<noteq> CHR '','') h = h" "dropWhile (\<lambda>c. c \<noteq> CHR '','') h = []"
    using assms(2) by (auto simp: takeWhile_eq_all_conv dropWhile_eq_Nil_conv)
  show "strtok_all h = [h]" by (subst strtok_all.simps) (simp only: skip all Let_def assms(1) if_False strtok_all_Nil)
  show "strtok_all (h @ CHR '','' # cs) = h # strtok_all cs"
    using assms skip takeWhile_name [OF assms(2)] dropWhile_name [OF assms(2)]
    by (subst strtok_all.simps) simp
qed

lemma strtok_comma_list: "host_names hs \<Longrightarrow> strtok_all (comma_list hs) = hs"
  by (induction hs rule: comma_list.induct) (auto simp: host_names_def strtok_all_name)

lemma set_rank_simps [simp]:
  "MY_PE (set_rank r s) = MY_PE s" "N_PES (set_rank r s) = N_PES s"
  "pp_nspace (rte_proc (set_rank r s)) = pp_nspace (rte_proc s)"
  by (simp_all add: set_rank_def)

lemma rte_n_nodes_keeps [simp]:
  "MY_PE (snd (rte_n_nodes pm s)) = MY_PE s" "N_PES (snd (rte_n_nodes pm s)) = N_PES s"
  "pp_nspace (rte_proc (snd (rte_n_nodes pm s))) = pp_nspace (rte_proc s)"
  by (simp_all add: rte_n_nodes_def Let_def split: option.splits)

text \<open>What is documented of PMIx: the hosts, and for each the ranks of its processes.\<close>

definition job_hosts :: "pmix \<Rightarrow> string \<Rightarrow> (string \<times> 32 word list) list \<Rightarrow> bool" where
  "job_hosts pm ns job \<longleftrightarrow> PMIx_Resolve_nodes pm ns = Some (comma_list (map fst job)) \<and>
     host_names (map fst job) \<and> (\<forall>h \<in> set (map fst job). length h < HOSTNAME_LEN) \<and>
     (\<forall>(h, rs) \<in> set job. PMIx_Resolve_peers pm h ns = Some rs)"

lemma rte_hosts_value:
  assumes "job_hosts pm (pp_nspace (rte_proc s)) job" and "int (length job) \<le> sint (fst (rte_n_nodes pm s))"
  shows "rte_hosts pm s = Some (Some (map fst job), snd (rte_n_nodes pm s))"
  using assms by (simp add: rte_hosts_def job_hosts_def strtok_comma_list split_beta Let_def)

lemma rte_remote_peers_value:
  assumes job: "job_hosts pm (pp_nspace (rte_proc s)) job"
    and n: "int (length job) \<le> sint (fst (rte_n_nodes pm s))"
  shows "rte_remote_peers pm s =
    Some ((Some (map fst job), map (\<lambda>x. Some (snd x)) job), snd (rte_n_nodes pm s))"
  using job by (auto simp: rte_remote_peers_def rte_hosts_value [OF job n] rte_local_peers_def job_hosts_def)

text \<open>A query gives the same answer after any query.\<close>

lemma rte_query_again [simp]:
  "fst (rte_my_local_pe pm (snd (rte_my_local_pe pm s))) = fst (rte_my_local_pe pm s)"
  "fst (rte_n_local_pes pm (snd (rte_n_local_pes pm s))) = fst (rte_n_local_pes pm s)"
  "fst (rte_n_nodes pm (snd (rte_n_nodes pm s))) = fst (rte_n_nodes pm s)"
  "fst (rte_my_local_pe pm (snd (rte_n_local_pes pm s))) = fst (rte_my_local_pe pm s)"
  "fst (rte_my_local_pe pm (snd (rte_n_nodes pm s))) = fst (rte_my_local_pe pm s)"
  "fst (rte_n_local_pes pm (snd (rte_n_nodes pm s))) = fst (rte_n_local_pes pm s)"
  "fst (rte_n_local_pes pm (snd (rte_my_local_pe pm s))) = fst (rte_n_local_pes pm s)"
  "fst (rte_n_nodes pm (snd (rte_my_local_pe pm s))) = fst (rte_n_nodes pm s)"
  "fst (rte_n_nodes pm (snd (rte_n_local_pes pm s))) = fst (rte_n_nodes pm s)"
  by (simp_all add: rte_n_nodes_def rte_n_local_pes_def rte_my_local_pe_def set_rank_def Let_def split: option.splits)

lemma rte_query_keeps [simp]:
  "rte_my_pe (snd (rte_n_nodes pm s)) = rte_my_pe s" "rte_n_pes (snd (rte_n_nodes pm s)) = rte_n_pes s"
  "rte_my_pe (snd (rte_n_local_pes pm s)) = rte_my_pe s" "rte_n_pes (snd (rte_n_local_pes pm s)) = rte_n_pes s"
  "rte_my_pe (snd (rte_my_local_pe pm s)) = rte_my_pe s" "rte_n_pes (snd (rte_my_local_pe pm s)) = rte_n_pes s"
  "pp_nspace (rte_proc (snd (rte_n_local_pes pm s))) = pp_nspace (rte_proc s)"
  "pp_nspace (rte_proc (snd (rte_my_local_pe pm s))) = pp_nspace (rte_proc s)"
  by (simp_all add: rte_my_pe_def rte_n_pes_def rte_n_local_pes_def rte_my_local_pe_def Let_def split: option.splits)

section \<open>Properties\<close>

text \<open>
  When PMIx lists the hosts with commas between them, and counts no fewer nodes than it
  lists, \<open>rte_remote_peers\<close> returns the hosts in that order, each with the ranks of its own
  processes.
\<close>

theorem rte_remote_peers_result:
  assumes "job_hosts pm (pp_nspace (rte_proc s)) job"
    and "int (length job) \<le> sint (fst (rte_n_nodes pm s))"
  shows "map_option fst (rte_remote_peers pm s) = Some (Some (map fst job), map (\<lambda>x. Some (snd x)) job)"
  by (simp add: rte_remote_peers_value [OF assms])

text \<open>
  The array of hosts has an element for each node PMIx counts, but an element is written
  for each host it lists: with more hosts than that \<open>rte_hosts\<close> is undefined.
\<close>

theorem rte_hosts_overflow:
  assumes "job_hosts pm (pp_nspace (rte_proc s)) job" and "job \<noteq> []"
    and "sint (fst (rte_n_nodes pm s)) < int (length job)"
  shows "rte_hosts pm s = None"
  using assms by (auto simp: rte_hosts_def job_hosts_def strtok_comma_list split_beta Let_def)

text \<open>
  The queries overwrite the rank in \<open>__proc\<close>, but the PE, the number of PEs and the
  namespace stay what \<open>rte_init\<close> made them, so each query asks about the same process or job
  whatever ran before it.
\<close>

theorem rte_queries_independent:
  assumes "rte_init pm s0 = Some s"
  shows "rte_my_pe s = pp_rank (snd (PMIx_Init pm)) \<and>
    (\<forall>t \<in> {snd (rte_n_nodes pm s), snd (rte_n_local_pes pm s), snd (rte_my_local_pe pm s)}.
      rte_my_pe t = rte_my_pe s \<and> rte_n_pes t = rte_n_pes s \<and>
      fst (rte_my_local_pe pm t) = fst (rte_my_local_pe pm s) \<and>
      fst (rte_n_local_pes pm t) = fst (rte_n_local_pes pm s) \<and>
      fst (rte_n_nodes pm t) = fst (rte_n_nodes pm s))"
  using assms by (auto simp: rte_init_def set_rank_def rte_my_pe_def bind_eq_Some_conv rte_query_keeps [unfolded rte_my_pe_def])

text \<open>
  \<open>rte_barrier_all\<close> fences exactly the processes 0, 1, ..., \<open>n - 1\<close> of the namespace,
  each once.
\<close>

theorem rte_barrier_all_fence:
  assumes "0 < sint (N_PES s)"
  shows "\<exists>ps. rte_barrier_all s = Some ps \<and> length ps = nat (sint (rte_n_pes s)) \<and>
    map pp_rank ps = map of_nat [0 ..< nat (sint (rte_n_pes s))] \<and> distinct (map pp_rank ps) \<and>
    (\<forall>p \<in> set ps. pp_nspace p = pp_nspace (rte_proc s))"
proof -
  have "nat (sint (N_PES s)) \<le> 2 ^ 32" using sint_lt [of "N_PES s"] by simp
  hence "inj_on (of_nat :: nat \<Rightarrow> 32 word) {0 ..< nat (sint (N_PES s))}"
    by (intro inj_onI) (simp add: word_of_nat_eq_iff take_bit_nat_eq_self)
  hence "distinct (map (of_nat :: nat \<Rightarrow> 32 word) [0 ..< nat (sint (N_PES s))])"
    by (simp add: distinct_map)
  thus ?thesis using assms by (simp add: rte_barrier_all_def rte_n_pes_def comp_def)
qed

text \<open>
  \<open>rte_barrier_node\<close> fences the processes of whatever host its uninitialised array
  happens to name, not those of its own node.
\<close>

theorem rte_barrier_node_uninitialised:
  assumes "rte_barrier_node pm s junk = Some (ps, t)"
  shows "rte_local_peers pm s junk = Some (map pp_rank ps)"
  using assms
  by (auto simp: rte_barrier_node_def rte_local_peers_def rte_n_local_pes_def set_rank_def Let_def
      bind_eq_Some_conv comp_def split: option.splits if_splits)

section \<open>Witnesses\<close>

text \<open>Two hosts of two processes each, of the namespace \<open>n\<close>; the process has rank 2.\<close>

definition demo_job :: "(string \<times> 32 word list) list" where
  "demo_job = [(''ab'', [0, 2]), (''c'', [1, 3])]"

definition demo_pmix :: pmix where
  "demo_pmix = \<lparr>PMIX_RANK_WILDCARD = - 2, PMIx_Init = (True, \<lparr>pp_nspace = ''n'', pp_rank = 2\<rparr>),
     PMIx_Get = (\<lambda>p k. case k of PMIX_JOB_SIZE \<Rightarrow> Some 4 | PMIX_LOCAL_RANK \<Rightarrow> Some 1
       | PMIX_LOCAL_SIZE \<Rightarrow> Some 2 | PMIX_NUM_NODES \<Rightarrow> Some 2),
     PMIx_Resolve_nodes = (\<lambda>ns. Some ''ab,c''), PMIx_Resolve_peers = (\<lambda>h ns. map_of demo_job h)\<rparr>"

definition demo_rte :: rte where
  "demo_rte = \<lparr>MY_PE = 2, N_PES = 4, rte_proc = \<lparr>pp_nspace = ''n'', pp_rank = - 2\<rparr>\<rparr>"

lemma demo_job: "job_hosts demo_pmix ''n'' demo_job"
  by (simp add: job_hosts_def demo_pmix_def demo_job_def host_names_def HOSTNAME_LEN_def)

lemma demo_n_nodes: "fst (rte_n_nodes demo_pmix s) = 2"
  by (simp add: rte_n_nodes_def demo_pmix_def Let_def)

lemma demo_rte_init: "rte_init demo_pmix s = Some demo_rte"
  by (cases s) (simp add: rte_init_def demo_pmix_def demo_rte_def set_rank_def)

theorem rte_remote_peers_result_witness:
  "map_option fst (rte_remote_peers demo_pmix demo_rte) =
     Some (Some [''ab'', ''c''], [Some [0, 2], Some [1, 3]])"
  using rte_remote_peers_result [of demo_pmix demo_rte demo_job]
  by (simp add: demo_job demo_n_nodes demo_rte_def) (simp add: demo_job_def)

theorem rte_hosts_overflow_witness:
  "rte_hosts (demo_pmix\<lparr>PMIx_Get := \<lambda>p k. Some 1\<rparr>) demo_rte = None"
  by (rule rte_hosts_overflow [of _ _ demo_job])
    (simp_all add: job_hosts_def demo_pmix_def demo_rte_def demo_job_def host_names_def HOSTNAME_LEN_def
      rte_n_nodes_def Let_def)

theorem rte_queries_independent_witness:
  "rte_my_pe demo_rte = 2 \<and> fst (rte_my_local_pe demo_pmix (snd (rte_n_nodes demo_pmix demo_rte))) =
     fst (rte_my_local_pe demo_pmix demo_rte)"
  using rte_queries_independent [OF demo_rte_init [of demo_rte]] by (simp add: demo_pmix_def)

theorem rte_barrier_all_fence_witness:
  "\<exists>ps. rte_barrier_all demo_rte = Some ps \<and> map pp_rank ps = [0, 1, 2, 3]"
  using rte_barrier_all_fence [of demo_rte] by (auto simp: demo_rte_def rte_n_pes_def upt_rec)

theorem rte_barrier_node_uninitialised_witness:
  "\<exists>ps t. rte_barrier_node demo_pmix demo_rte ''c'' = Some (ps, t) \<and>
     rte_local_peers demo_pmix demo_rte ''c'' = Some (map pp_rank ps)"
proof -
  obtain ps t where "rte_barrier_node demo_pmix demo_rte ''c'' = Some (ps, t)"
    by (simp add: rte_barrier_node_def rte_n_local_pes_def rte_local_peers_def demo_pmix_def demo_job_def)
  thus ?thesis using rte_barrier_node_uninitialised by blast
qed

end
