(* ===== verification/Shmem.thy ===== *)
theory Shmem
  imports Comm Rte
begin

text \<open>
  The interface, \<open>shmem.c\<close>, as far as it acts on one PE: initialization, over the runtime and
  the communication layer, and the accesses to memory, with their typed instances. The
  collective operations are in \<open>Collective\<close>.
\<close>

section \<open>Setup\<close>

text \<open>
  The layers below on their answers: PMIx, \<open>gethostname\<close>, \<open>gethostbyname\<close>, \<open>malloc\<close> in the
  node layer, the opening of the PE's own and of the other heaps, the addresses of the
  variable and of the array they use, and what the variables of the wire-up hold at first.
\<close>

record shmem_env =
  env_pmix :: pmix
  env_hostname :: string
  env_resolve :: "string \<Rightarrow> 32 word list option"
  env_region :: ptr
  env_create :: "string \<Rightarrow> c_int \<times> ptr"
  env_var :: ptr
  env_at :: ptr
  env_open :: "string \<Rightarrow> c_int \<times> ptr"
  env_array :: ptr
  env_junk :: "byte list"

text \<open>
  \<open>hosts\<close> and the elements of \<open>pes\<close> are freed at the end, so all of them must have been set.
\<close>

definition shmem_map_locality :: "shmem_env \<Rightarrow> rte \<times> pe_state \<Rightarrow> (rte \<times> pe_state) option" where
  "shmem_map_locality e x = do {
     let (r, s) = x;
     let (hostname, _) = rte_hostname (env_hostname e);
     ((hosts, pes), r) \<leftarrow> rte_remote_peers (env_pmix e) r;
     hosts \<leftarrow> hosts;
     pes \<leftarrow> those pes;
     s \<leftarrow> comm_map_locality (env_resolve e) hostname hosts pes (of_nat (length hosts))
       (map (\<lambda>row. of_nat (length row)) pes) s;
     Some (r, s)
   }"




section \<open>Remote memory access\<close>

definition shmem_getmem :: "ptr \<Rightarrow> ptr \<Rightarrow> size_t \<Rightarrow> c_int \<Rightarrow> node_mem \<times> pe_state \<Rightarrow> (node_mem \<times> pe_state) option" where
  "shmem_getmem dest source nelems pe x = do {
     off \<leftarrow> comm_local_offset (ps_local (snd x)) source;
     comm_get dest off nelems pe x
   }"

definition shmem_putmem :: "ptr \<Rightarrow> ptr \<Rightarrow> size_t \<Rightarrow> c_int \<Rightarrow> node_mem \<times> pe_state \<Rightarrow> (node_mem \<times> pe_state) option" where
  "shmem_putmem dest source nelems pe x = do {
     off \<leftarrow> comm_local_offset (ps_local (snd x)) dest;
     comm_put off source nelems pe x
   }"

definition shmem_getmem_nbi :: "ptr \<Rightarrow> ptr \<Rightarrow> size_t \<Rightarrow> c_int \<Rightarrow> node_mem \<times> pe_state \<Rightarrow> (node_mem \<times> pe_state) option" where
  "shmem_getmem_nbi dest source nelems pe x = do {
     off \<leftarrow> comm_local_offset (ps_local (snd x)) source;
     s \<leftarrow> comm_get_nbi dest off nelems pe (snd x);
     Some (fst x, s)
   }"

definition shmem_putmem_nbi :: "ptr \<Rightarrow> ptr \<Rightarrow> size_t \<Rightarrow> c_int \<Rightarrow> node_mem \<times> pe_state \<Rightarrow> (node_mem \<times> pe_state) option" where
  "shmem_putmem_nbi dest source nelems pe x = do {
     off \<leftarrow> comm_local_offset (ps_local (snd x)) dest;
     s \<leftarrow> comm_put_nbi off source nelems pe (snd x);
     Some (fst x, s)
   }"

datatype rma_op = Get | Put | Get_nbi | Put_nbi

text \<open>The instances of \<open>SHMEM_OPS\<close>, with \<open>sizeof\<close> of their types on x86-64.\<close>

definition SHMEM_OPS :: "(string \<times> size_t) list" where
  "SHMEM_OPS = [(''float'', 4), (''double'', 8), (''longdouble'', 16), (''char'', 1), (''schar'', 1),
     (''short'', 2), (''int'', 4), (''long'', 8), (''longlong'', 8), (''uchar'', 1), (''ushort'', 2),
     (''uint'', 4), (''ulong'', 8), (''ulonglong'', 8), (''int8'', 1), (''int16'', 2), (''int32'', 4),
     (''int64'', 8), (''uint8'', 1), (''uint16'', 2), (''uint32'', 4), (''uint64'', 8), (''size'', 8),
     (''ptrdiff'', 8)]"

text \<open>\<open>shmem_<typename>_<op>\<close>; \<open>None\<close> for a name that has no instance.\<close>

definition SHMEM_OP :: "string \<Rightarrow> rma_op \<Rightarrow> ptr \<Rightarrow> ptr \<Rightarrow> size_t \<Rightarrow> c_int \<Rightarrow> node_mem \<times> pe_state \<Rightarrow>
    (node_mem \<times> pe_state) option" where
  "SHMEM_OP typename op dest source nelems pe x = do {
     sz \<leftarrow> map_of SHMEM_OPS typename;
     (case op of
        Get \<Rightarrow> shmem_getmem dest source (nelems * sz) pe x
      | Put \<Rightarrow> shmem_putmem dest source (nelems * sz) pe x
      | Get_nbi \<Rightarrow> shmem_getmem_nbi dest source (nelems * sz) pe x
      | Put_nbi \<Rightarrow> shmem_putmem_nbi dest source (nelems * sz) pe x)
   }"

text \<open>
  The declarations of \<open>shmem.h\<close>: the instances of \<open>SHMEM_OP_SIGNATURES\<close>, with the C type, and
  the name that \<open>SHMEM_OP_SIGNATURE\<close> gives the function of an operation.
\<close>

definition SHMEM_OP_SIGNATURES :: "(string \<times> string) list" where
  "SHMEM_OP_SIGNATURES = [(''float'', ''float''), (''double'', ''double''), (''long double'', ''longdouble''),
     (''char'', ''char''), (''signed char'', ''schar''), (''short'', ''short''), (''int'', ''int''),
     (''long'', ''long''), (''long long'', ''longlong''), (''unsigned char'', ''uchar''),
     (''unsigned short'', ''ushort''), (''unsigned int'', ''uint''), (''unsigned long'', ''ulong''),
     (''unsigned long long'', ''ulonglong''), (''int8_t'', ''int8''), (''int16_t'', ''int16''),
     (''int32_t'', ''int32''), (''int64_t'', ''int64''), (''uint8_t'', ''uint8''), (''uint16_t'', ''uint16''),
     (''uint32_t'', ''uint32''), (''uint64_t'', ''uint64''), (''size_t'', ''size''),
     (''ptrdiff_t'', ''ptrdiff'')]"

definition SHMEM_OP_SIGNATURE :: "string \<Rightarrow> rma_op \<Rightarrow> string" where
  "SHMEM_OP_SIGNATURE typename op = ''shmem_'' @ typename @ (case op of
     Get \<Rightarrow> ''_get'' | Put \<Rightarrow> ''_put'' | Get_nbi \<Rightarrow> ''_get_nbi'' | Put_nbi \<Rightarrow> ''_put_nbi'')"

text \<open>\<open>sizeof\<close> of these types on x86-64.\<close>

definition c_sizeof :: "string \<Rightarrow> size_t option" where
  "c_sizeof ty =
     (if ty \<in> set [''char'', ''signed char'', ''unsigned char'', ''int8_t'', ''uint8_t''] then Some 1
      else if ty \<in> set [''short'', ''unsigned short'', ''int16_t'', ''uint16_t''] then Some 2
      else if ty \<in> set [''float'', ''int'', ''unsigned int'', ''int32_t'', ''uint32_t''] then Some 4
      else if ty \<in> set [''double'', ''long'', ''long long'', ''unsigned long'', ''unsigned long long'', ''int64_t'',
        ''uint64_t'', ''size_t'', ''ptrdiff_t''] then Some 8
      else if ty = ''long double'' then Some 16
      else None)"

section \<open>Lemmas on single PEs\<close>


lemma shmem_map_locality_value:
  assumes job: "job_hosts (env_pmix e) (pp_nspace (rte_proc r)) job"
    and n: "int (length job) \<le> sint (fst (rte_n_nodes (env_pmix e) r))"
  shows "shmem_map_locality e (r, s) = do {
     s' \<leftarrow> comm_map_locality (env_resolve e) (env_hostname e) (map fst job) (map snd job)
       (of_nat (length job)) (map (\<lambda>x. of_nat (length (snd x))) job) s;
     Some (snd (rte_n_nodes (env_pmix e) r), s') }"
  by (simp add: shmem_map_locality_def rte_hostname_def rte_remote_peers_value [OF job n]
      those_map_Some comp_def)

lemma comm_local_offset_base:
  "cl_symmetric_heap (ps_local s) = Some h \<Longrightarrow> comm_local_offset (ps_local s) (pe_base s + off) = Some off"
  by (simp add: comm_local_offset_def shared_heap_offset_def heap_offset_def pe_base_def)

lemma typename_size: "map_of SHMEM_OPS ty = Some sz \<Longrightarrow> sz \<in> {1, 2, 4, 8, 16}"
  by (auto simp: SHMEM_OPS_def split: if_splits)

section \<open>Properties of single PEs\<close>

text \<open>
  The library defines the functions that its header declares: the declared instances are the
  defined ones, a call transfers elements of the size of the declared type, and no two of
  the functions have the same name.
\<close>

theorem shmem_declared_defined:
  "map (\<lambda>(ty, typename). (typename, c_sizeof ty)) SHMEM_OP_SIGNATURES = map (\<lambda>(typename, sz). (typename, Some sz)) SHMEM_OPS"
  by (simp add: SHMEM_OP_SIGNATURES_def SHMEM_OPS_def c_sizeof_def)

theorem shmem_declared_distinct:
  "distinct [SHMEM_OP_SIGNATURE typename op. (ty, typename) \<leftarrow> SHMEM_OP_SIGNATURES, op \<leftarrow> [Get, Put, Get_nbi, Put_nbi]]"
  by code_simp

text \<open>
  C19: mapping the locality gives every PE that PMIx lists on a host an entry with the
  position of that host, of type local exactly when it is the caller's own host.
\<close>

theorem shmem_map_locality_entries:
  assumes job: "job_hosts (env_pmix e) (pp_nspace (rte_proc r)) job"
    and n: "int (length job) \<le> sint (fst (rte_n_nodes (env_pmix e) r))"
    and ok: "hosts_ok (ps_node s) (map fst job) (map snd job) (of_nat (length job))
      (map (\<lambda>x. of_nat (length (snd x))) job)"
  shows "\<exists>r' s'. shmem_map_locality e (r, s) = Some (r', s') \<and>
    (\<forall>i < length job. \<forall>j < length (snd (job ! i)). \<exists>m. comm_node_map (ps_node s') (snd (job ! i) ! j) = Some m \<and>
      lm_host m = i \<and> (lm_type m = PE_TYPE_LOCAL) = (env_hostname e = fst (job ! i)))"
proof -
  obtain nd where nd: "comm_node_map_locality (env_resolve e) (env_hostname e) (map fst job) (map snd job)
      (of_nat (length job)) (map (\<lambda>x. of_nat (length (snd x))) job) (ps_node s) = Some nd"
    "\<And>pe m. (pe, m) \<in> set (host_writes (env_hostname e) 0 0 (zip (map fst job) (map snd job))) \<Longrightarrow>
      comm_node_map nd pe = Some m"
    by (rule map_locality_stores [OF ok]) blast
  have "comm_node_map nd (snd (job ! i) ! j) = Some (entry (env_hostname e = fst (job ! i)) i
      (length (remote_pes (env_hostname e) (take i job))) j)"
    if "i < length job" "j < length (snd (job ! i))" for i j
    using nd(2) host_writes_nth [of i job j "env_hostname e" 0 0] that by (simp add: zip_map_fst_snd)
  with nd(1) show ?thesis
    by (auto simp: shmem_map_locality_value [OF job n] comm_map_locality_def entry_def)
qed


text \<open>
  C17: a typed put of \<open>n\<close> elements to a PE of the node and a typed get of them give back the
  bytes of all \<open>n\<close> elements, for every type and every address of the symmetric heap that
  leaves room for them.
\<close>

theorem shmem_typed_put_get:
  assumes ty: "map_of SHMEM_OPS ty = Some sz"
    and pe: "local_pe (ps_node s) (ps_local s) pe i b" and h: "cl_symmetric_heap (ps_local s) \<noteq> None"
    and off: "off + unat n * unat sz \<le> SYMMETRIC_HEAP_SIZE"
    and src: "priv_area (cl_shared_memory (ps_local s)) src (unat n * unat sz)"
      "load_bytes nm (cl_me (ps_local s)) (cl_shared_memory (ps_local s)) src (unat n * unat sz) = Some xs"
    and dest: "priv_area (cl_shared_memory (ps_local s)) dest (unat n * unat sz)"
      "\<forall>k < unat n * unat sz. nm_priv nm (cl_me (ps_local s)) (dest + of_nat k) \<noteq> None"
  shows "\<exists>nm1 nm2. SHMEM_OP ty Put (pe_base s + of_nat off) src n pe (nm, s) = Some (nm1, s) \<and>
    SHMEM_OP ty Get dest (pe_base s + of_nat off) n pe (nm1, s) = Some (nm2, s) \<and>
    load_bytes nm2 (cl_me (ps_local s)) (cl_shared_memory (ps_local s)) dest (unat n * unat sz) = Some xs"
proof -
  obtain h where h: "cl_symmetric_heap (ps_local s) = Some h" using h by blast
  have "unat n * unat sz < 2 ^ 64" using off by (simp add: SYMMETRIC_HEAP_SIZE_def)
  hence len: "unat (n * sz) = unat n * unat sz" by (simp add: unat_word_ariths)
  have "\<exists>nm1 nm2. comm_put (of_nat off) src (n * sz) pe (nm, s) = Some (nm1, s) \<and>
      comm_get dest (of_nat off) (n * sz) pe (nm1, s) = Some (nm2, s) \<and>
      load_bytes nm2 (cl_me (ps_local s)) (cl_shared_memory (ps_local s)) dest (unat (n * sz)) = Some xs"
    by (rule comm_put_get_local [OF pe]) (use off src dest in \<open>simp_all add: len\<close>)
  thus ?thesis using ty
    by (simp add: SHMEM_OP_def shmem_putmem_def shmem_getmem_def comm_local_offset_base [OF h] len)
qed

section \<open>Witnesses\<close>

text \<open>A job of one PE on one host, with every answer of the system a success.\<close>

definition solo_pmix :: pmix where
  "solo_pmix = \<lparr>PMIX_RANK_WILDCARD = - 2, PMIx_Init = (True, \<lparr>pp_nspace = ''n'', pp_rank = 0\<rparr>),
     PMIx_Get = (\<lambda>p k. if k = PMIX_LOCAL_RANK then Some 0 else Some 1),
     PMIx_Resolve_nodes = (\<lambda>ns. Some ''a''), PMIx_Resolve_peers = (\<lambda>h ns. Some [0])\<rparr>"

definition solo_env :: shmem_env where
  "solo_env = \<lparr>env_pmix = solo_pmix, env_hostname = ''a'', env_resolve = \<lambda>_. None, env_region = 4096,
     env_create = \<lambda>_. (3, 4096), env_var = 64, env_at = 64, env_open = \<lambda>_. (3, 1073741824),
     env_array = 64, env_junk = [0, 0, 0, 0]\<rparr>"








theorem shmem_map_locality_entries_witness:
  "\<exists>r s. shmem_map_locality (solo_env\<lparr>env_pmix := demo_pmix, env_hostname := ''ab''\<rparr>)
      (demo_rte, demo_pe\<lparr>ps_node := demo_node\<rparr>) = Some (r, s) \<and>
    (\<exists>m. comm_node_map (ps_node s) 2 = Some m \<and> lm_type m = PE_TYPE_LOCAL)"
proof -
  let ?e = "solo_env\<lparr>env_pmix := demo_pmix, env_hostname := ''ab''\<rparr>"
  have "hosts_ok demo_node [''ab'', ''c''] [[0, 2], [1, 3]] 2 [2, 2]"
    by (simp add: hosts_ok_def demo_node_def comm_node_init_def Let_def HOSTNAME_LEN_def pes_in_def)
  hence "\<exists>r s. shmem_map_locality ?e (demo_rte, demo_pe\<lparr>ps_node := demo_node\<rparr>) = Some (r, s) \<and>
    (\<forall>i < length demo_job. \<forall>j < length (snd (demo_job ! i)). \<exists>m. comm_node_map (ps_node s) (snd (demo_job ! i) ! j) = Some m \<and>
      lm_host m = i \<and> (lm_type m = PE_TYPE_LOCAL) = (env_hostname ?e = fst (demo_job ! i)))"
    using demo_job demo_n_nodes
    by (intro shmem_map_locality_entries) (simp_all add: demo_rte_def, simp_all add: demo_job_def)
  then obtain r s where "shmem_map_locality ?e (demo_rte, demo_pe\<lparr>ps_node := demo_node\<rparr>) = Some (r, s)"
    and all: "\<And>i j. i < length demo_job \<Longrightarrow> j < length (snd (demo_job ! i)) \<Longrightarrow>
      \<exists>m. comm_node_map (ps_node s) (snd (demo_job ! i) ! j) = Some m \<and>
      lm_host m = i \<and> (lm_type m = PE_TYPE_LOCAL) = (env_hostname ?e = fst (demo_job ! i))" by blast
  thus ?thesis using all [of 0 1] by (auto simp: demo_job_def)
qed

theorem shmem_typed_put_get_witness:
  "\<exists>nm1 nm2. SHMEM_OP ''int'' Put 4104 64 1 0 (demo_nm, demo_pe) = Some (nm1, demo_pe) \<and>
    SHMEM_OP ''int'' Get 64 4104 1 0 (nm1, demo_pe) = Some (nm2, demo_pe) \<and>
    load_bytes nm2 0 [Some 4096] 64 4 = Some [64, 65, 66, 67]"
proof -
  have pe: "local_pe (ps_node demo_pe) (ps_local demo_pe) 0 0 4096"
    using demo_local_pe by (simp add: demo_pe_def)
  have ty: "map_of SHMEM_OPS ''int'' = Some 4" by (simp add: SHMEM_OPS_def)
  have off: "8 + unat (1 :: size_t) * unat (4 :: size_t) \<le> SYMMETRIC_HEAP_SIZE" by (simp add: SYMMETRIC_HEAP_SIZE_def)
  have "pe_base demo_pe = 4096" by (simp add: pe_base_def demo_pe_def demo_local_def demo_shared_heap_def heap_zero_def)
  with shmem_typed_put_get [OF ty pe _ off, of 64 demo_nm "[64, 65, 66, 67]" 64] demo_priv demo_bytes demo_defined
  show ?thesis by (auto simp: demo_pe_def demo_local_def cl_me_def)
qed

end
