(* ===== verification/Collective.thy ===== *)
theory Collective
  imports Shmem Barrier
begin

text \<open>
  The collective operations of \<open>shmem.c\<close>. They wait for the other PEs in the barrier, so they
  act on the state of all PEs: a call runs up to its barrier and enters it, the steps of the
  barrier interleave, and leaving it completes the call. The theory proves that
  \<open>shmem_malloc\<close> gives every PE the same offset and that the calls return.
\<close>

section \<open>Collective operations\<close>

text \<open>What a PE is in: no call, or one that has reached its barrier, with the result to return.\<close>

datatype call = No_call | In_barrier | In_sync | In_malloc ptr | In_finalize

record world =
  w_pe :: "nat \<Rightarrow> pe_state"
  w_call :: "nat \<Rightarrow> call"
  w_results :: "nat \<Rightarrow> ptr list"
  w_bar :: barrier

definition set_pe :: "nat \<Rightarrow> pe_state \<Rightarrow> world \<Rightarrow> world" where
  "set_pe p s w = w\<lparr>w_pe := (w_pe w)(p := s)\<rparr>"

definition set_call :: "nat \<Rightarrow> call \<Rightarrow> world \<Rightarrow> world" where
  "set_call p c w = w\<lparr>w_call := (w_call w)(p := c)\<rparr>"

definition shmem_quiet :: "pe_state \<Rightarrow> pe_state" where
  "shmem_quiet s = comm_flush s"

definition shmem_barrier_all :: "nat \<Rightarrow> world \<Rightarrow> world" where
  "shmem_barrier_all p w = set_call p In_barrier (w\<lparr>w_bar := enter_barrier p (w_bar w)\<rparr>)"

definition shmem_sync_all :: "nat \<Rightarrow> world \<Rightarrow> world" where
  "shmem_sync_all p w = set_call p In_sync (shmem_barrier_all p w)"

definition shmem_malloc :: "nat \<Rightarrow> size_t \<Rightarrow> world \<Rightarrow> world option" where
  "shmem_malloc p sz w = do {
     (result, s) \<leftarrow> comm_heap_malloc (w_pe w p) sz;
     Some (set_call p (In_malloc result) (shmem_sync_all p (set_pe p s w)))
   }"

definition shmem_free :: "nat \<Rightarrow> ptr \<Rightarrow> world \<Rightarrow> world option" where
  "shmem_free p a w = do {
     s \<leftarrow> comm_heap_free (w_pe w p) a;
     Some (shmem_sync_all p (set_pe p s w))
   }"

definition shmem_finalize :: "nat \<Rightarrow> world \<Rightarrow> world" where
  "shmem_finalize p w = set_call p In_finalize (shmem_sync_all p w)"

text \<open>After the barrier: \<open>shmem_quiet\<close>, except in \<open>shmem_barrier_all\<close>, then the rest of the call.\<close>

definition shmem_return :: "nat \<Rightarrow> world \<Rightarrow> world option" where
  "shmem_return p w = do {
     let s = shmem_quiet (w_pe w p);
     let w' = set_call p No_call (set_pe p s w);
     (case w_call w p of
        No_call \<Rightarrow> None
      | In_barrier \<Rightarrow> Some (set_call p No_call w)
      | In_sync \<Rightarrow> Some w'
      | In_malloc result \<Rightarrow> Some (w'\<lparr>w_results := (w_results w)(p := w_results w p @ [result])\<rparr>)
      | In_finalize \<Rightarrow> do { s \<leftarrow> comm_finalize s; Some (set_pe p s w') })
   }"

datatype collective = Do_barrier | Do_sync | Do_malloc size_t | Do_free ptr | Do_finalize

definition shmem_call :: "nat \<Rightarrow> collective \<Rightarrow> world \<Rightarrow> world option" where
  "shmem_call p c w =
     (case c of
        Do_barrier \<Rightarrow> Some (shmem_barrier_all p w)
      | Do_sync \<Rightarrow> Some (shmem_sync_all p w)
      | Do_malloc sz \<Rightarrow> shmem_malloc p sz w
      | Do_free a \<Rightarrow> shmem_free p a w
      | Do_finalize \<Rightarrow> Some (shmem_finalize p w))"

text \<open>The steps of the barrier, the last of which returns from the call.\<close>

inductive world_move :: "nat \<Rightarrow> (nat \<Rightarrow> nat \<Rightarrow> bool) \<Rightarrow> world \<Rightarrow> world \<Rightarrow> bool" for n loc where
  within: "bar_move n loc (w_bar w) b \<Longrightarrow> bar_left b = bar_left (w_bar w) \<Longrightarrow>
    world_move n loc w (w\<lparr>w_bar := b\<rparr>)"
| return: "bar_move n loc (w_bar w) b \<Longrightarrow> bar_left b p \<noteq> bar_left (w_bar w) p \<Longrightarrow>
    shmem_return p (w\<lparr>w_bar := b\<rparr>) = Some w' \<Longrightarrow> world_move n loc w w'"

text \<open>A PE outside a call makes the next one of its program \<open>prog p\<close>.\<close>

inductive world_step :: "nat \<Rightarrow> (nat \<Rightarrow> nat \<Rightarrow> bool) \<Rightarrow> (nat \<Rightarrow> collective list) \<Rightarrow> world \<Rightarrow> world \<Rightarrow> bool"
  for n loc prog where
  move: "world_move n loc w w' \<Longrightarrow> world_step n loc prog w w'"
| call: "p < n \<Longrightarrow> bar_pc (w_bar w) p = Outside \<Longrightarrow> bar_entered (w_bar w) p < length (prog p) \<Longrightarrow>
    shmem_call p (prog p ! bar_entered (w_bar w) p) w = Some w' \<Longrightarrow> world_step n loc prog w w'"

section \<open>All PEs running the same collective calls\<close>

fun mallocs :: "collective list \<Rightarrow> nat list" where
  "mallocs [] = []"
| "mallocs (Do_malloc sz # cs) = unat sz # mallocs cs"
| "mallocs (_ # cs) = mallocs cs"

fun pending :: "call \<Rightarrow> ptr list" where
  "pending (In_malloc r) = [r]"
| "pending _ = []"

text \<open>The pointers PE \<open>p\<close> has allocated, the one not yet returned included.\<close>

definition allocated :: "world \<Rightarrow> nat \<Rightarrow> ptr list" where
  "allocated w p = w_results w p @ pending (w_call w p)"

text \<open>The programs the properties are about: they free nothing and do not finalize the library.\<close>

definition allocating :: "collective list \<Rightarrow> bool" where
  "allocating cs \<longleftrightarrow> (\<forall>c \<in> set cs. c = Do_barrier \<or> c = Do_sync \<or> (\<exists>sz. c = Do_malloc sz))"

text \<open>PE \<open>p\<close> when its allocator is at \<open>base p\<close> and it has made \<open>k\<close> calls, \<open>l\<close> of which returned.\<close>

definition pe_at :: "nf_state \<Rightarrow> collective list \<Rightarrow> (nat \<Rightarrow> ptr) \<Rightarrow> world \<Rightarrow> nat \<Rightarrow> nat \<Rightarrow> nat \<Rightarrow> bool" where
  "pe_at a cs base w p k l \<longleftrightarrow> k \<le> length cs \<and> pe_base (w_pe w p) = base p \<and>
     pe_rep (3 * (length cs - k)) (w_pe w p) (nf_after a (mallocs (take k cs))) \<and>
     allocated w p = map (place (base p)) (nf_run a (mallocs (take k cs))) \<and>
     w_results w p = map (place (base p)) (nf_run a (mallocs (take l cs)))"

definition world_inv :: "nat \<Rightarrow> nf_state \<Rightarrow> collective list \<Rightarrow> (nat \<Rightarrow> ptr) \<Rightarrow> world \<Rightarrow> bool" where
  "world_inv n a cs base w \<longleftrightarrow> allocating cs \<and> bar_inv n (w_bar w) \<and>
     (\<forall>p < n. pe_at a cs base w p (bar_entered (w_bar w) p) (bar_left (w_bar w) p) \<and>
       (w_call w p = No_call) = (bar_pc (w_bar w) p = Outside) \<and> w_call w p \<noteq> In_finalize)"

definition world_start :: "nat \<Rightarrow> nf_state \<Rightarrow> collective list \<Rightarrow> (nat \<Rightarrow> ptr) \<Rightarrow> world \<Rightarrow> bool" where
  "world_start n a cs base w \<longleftrightarrow> bar_start n (w_bar w) \<and>
     (\<forall>p < n. w_call w p = No_call \<and> w_results w p = [] \<and> pe_base (w_pe w p) = base p \<and>
       pe_rep (3 * length cs) (w_pe w p) a)"

lemma mallocs_append: "mallocs (cs @ ds) = mallocs cs @ mallocs ds"
  by (induction cs rule: mallocs.induct) simp_all

lemma mallocs_take_Suc: "k < length cs \<Longrightarrow>
    mallocs (take (Suc k) cs) = mallocs (take k cs) @ mallocs [cs ! k]"
  by (simp add: take_Suc_conv_app_nth mallocs_append)

lemma world_inv_start: "world_start n a cs base w \<Longrightarrow> allocating cs \<Longrightarrow> world_inv n a cs base w"
  using bar_inv_start [of n "w_bar w"]
  by (simp add: world_start_def world_inv_def pe_at_def bar_start_def allocated_def nf_after_def)

lemma world_simps [simp]:
  "w_pe (set_call p c w) = w_pe w" "w_results (set_call p c w) = w_results w"
  "w_bar (set_call p c w) = w_bar w" "w_call (set_call p c w) = (w_call w)(p := c)"
  "w_pe (set_pe p s w) = (w_pe w)(p := s)" "w_results (set_pe p s w) = w_results w"
  "w_bar (set_pe p s w) = w_bar w" "w_call (set_pe p s w) = w_call w"
  by (simp_all add: set_call_def set_pe_def)

lemma enter_barrier_simps [simp]:
  "bar_entered (enter_barrier p s) = (bar_entered s)(p := Suc (bar_entered s p))"
  "bar_left (enter_barrier p s) = bar_left s"
  "(bar_pc (enter_barrier p s) q = Outside) = (q \<noteq> p \<and> bar_pc s q = Outside)"
  by (simp_all add: barrier_updates)

lemma shmem_quiet_same [simp]: "shmem_quiet s = s"
  by (simp add: shmem_quiet_def comm_flush_def)

lemma pe_at_cong:
  "w_pe w' p = w_pe w p \<Longrightarrow> w_results w' p = w_results w p \<Longrightarrow> pending (w_call w' p) = pending (w_call w p) \<Longrightarrow>
    pe_at a cs base w' p k l = pe_at a cs base w p k l"
  by (simp add: pe_at_def allocated_def)

lemma pe_rep_mono: "pe_rep k s a \<Longrightarrow> j \<le> k \<Longrightarrow> pe_rep j s a"
  unfolding pe_rep_def shared_heap_rep_def by (auto elim: heap_rep_mono)

text \<open>Making a call: PE \<open>p\<close> goes on to the next one, the others stay as they are.\<close>

lemma pe_at_call:
  assumes at: "pe_at a cs base w p k l" and k: "k < length cs" and c: "w_call w p = No_call"
    and ok: "allocating cs" and call: "shmem_call p (cs ! k) w = Some w'"
  shows "pe_at a cs base w' p (Suc k) l" "w_bar w' = enter_barrier p (w_bar w)"
    "w_call w' p \<noteq> No_call" "w_call w' p \<noteq> In_finalize"
    "\<And>q. q \<noteq> p \<Longrightarrow> w_pe w' q = w_pe w q \<and> w_results w' q = w_results w q \<and> w_call w' q = w_call w q"
proof -
  let ?m = "mallocs (take k cs)" and ?r = "3 * (length cs - Suc k)"
  have e: "?r + 3 = 3 * (length cs - k)" using k by simp
  have room: "pe_rep (?r + 3) (w_pe w p) (nf_after a ?m)" "w_results w p = map (place (base p)) (nf_run a ?m)"
    "pe_base (w_pe w p) = base p"
    using at k c by (simp_all add: pe_at_def allocated_def e)
  have step: "comm_heap_malloc (w_pe w p) sz = Some x \<Longrightarrow>
      fst x = place (base p) (fst (nf_malloc (nf_after a ?m) (unat sz))) \<and> pe_base (snd x) = base p \<and>
      pe_rep ?r (snd x) (snd (nf_malloc (nf_after a ?m) (unat sz)))" for sz x
    using comm_heap_malloc_step [OF room(1), of sz] room(3) by auto
  have rest: "w_results w p = map (place (base p)) (nf_run a (mallocs (take l cs)))" using at by (simp add: pe_at_def)
  consider "cs ! k = Do_barrier" | "cs ! k = Do_sync" | sz where "cs ! k = Do_malloc sz"
    using ok k by (auto simp: allocating_def dest: nth_mem)
  note cases = this
  show "w_bar w' = enter_barrier p (w_bar w)" "w_call w' p \<noteq> No_call" "w_call w' p \<noteq> In_finalize"
    by (cases rule: cases; use call in \<open>force simp: shmem_call_def shmem_sync_all_def shmem_barrier_all_def
      shmem_malloc_def bind_eq_Some_conv set_call_def set_pe_def\<close>)+
  show "w_pe w' q = w_pe w q \<and> w_results w' q = w_results w q \<and> w_call w' q = w_call w q" if "q \<noteq> p" for q
    by (cases rule: cases; use call that in \<open>force simp: shmem_call_def shmem_sync_all_def shmem_barrier_all_def
      shmem_malloc_def bind_eq_Some_conv set_call_def set_pe_def\<close>)
  show "pe_at a cs base w' p (Suc k) l"
  proof (cases rule: cases)
    case (3 sz)
    with call obtain r s where x: "comm_heap_malloc (w_pe w p) sz = Some (r, s)"
      "w' = set_call p (In_malloc r) (shmem_sync_all p (set_pe p s w))"
      by (auto simp: shmem_call_def shmem_malloc_def bind_eq_Some_conv)
    have "allocated w' p = w_results w p @ [r]" "w_results w' p = w_results w p" "w_pe w' p = s"
      using x(2) by (simp_all add: allocated_def shmem_sync_all_def shmem_barrier_all_def set_call_def set_pe_def)
    moreover have "mallocs (take (Suc k) cs) = ?m @ [unat sz]" using mallocs_take_Suc [OF k] 3 by simp
    ultimately show ?thesis using step [OF x(1)] room(2) rest k
      by (simp add: pe_at_def nf_run_append nf_after_append) (simp add: nf_after_def split_beta)
  qed (use call at k c room(2) rest mallocs_take_Suc [OF k] pe_rep_mono in
    \<open>auto simp: shmem_call_def pe_at_def allocated_def shmem_sync_all_def shmem_barrier_all_def set_call_def\<close>)
qed

text \<open>Leaving the barrier: one PE at a time, and only a PE that was in it.\<close>

lemma bar_move_leaves:
  assumes "bar_move n loc s t"
  shows "bar_left t = bar_left s \<and> (\<forall>q. (bar_pc t q = Outside) = (bar_pc s q = Outside)) \<or>
    (\<exists>p < n. bar_pc s p \<noteq> Outside \<and> bar_pc t p = Outside \<and>
      bar_left t = (bar_left s)(p := Suc (bar_left s p)) \<and>
      (\<forall>q. q \<noteq> p \<longrightarrow> (bar_pc t q = Outside) = (bar_pc s q = Outside)))"
  using assms
proof (rule bar_moveE)
  fix p assume p: "p < n" and run: "comm_barrier_all n loc p s = Some t"
  show ?thesis
    using p run by (cases "bar_pc s p")
      (auto simp: comm_barrier_all_def set_pc_def set_sync_def set_flight_def leave_barrier_def put_one_def
        split: if_splits)
qed (simp add: set_sync_def set_flight_def)

lemma bar_move_left:
  assumes "bar_move n loc s t" and "bar_left t p \<noteq> bar_left s p"
  shows "p < n \<and> bar_pc s p \<noteq> Outside \<and> bar_pc t p = Outside \<and>
    bar_left t = (bar_left s)(p := Suc (bar_left s p)) \<and>
    (\<forall>q. q \<noteq> p \<longrightarrow> (bar_pc t q = Outside) = (bar_pc s q = Outside))"
  using bar_move_leaves [OF assms(1)] assms(2) by (metis fun_upd_other)

lemma shmem_return_value:
  assumes "w_call w p \<noteq> No_call" "w_call w p \<noteq> In_finalize"
  shows "\<exists>w'. shmem_return p w = Some w' \<and> w_bar w' = w_bar w \<and> w_pe w' = w_pe w \<and>
    w_call w' = (w_call w)(p := No_call) \<and> w_results w' = (w_results w)(p := allocated w p)"
  using assms by (cases "w_call w p") (auto simp: shmem_return_def allocated_def set_call_def set_pe_def)

lemma world_inv_within:
  assumes inv: "world_inv n a cs base w" and b: "bar_move n loc (w_bar w) b" and l: "bar_left b = bar_left (w_bar w)"
  shows "world_inv n a cs base (w\<lparr>w_bar := b\<rparr>)"
proof -
  have "(bar_pc b q = Outside) = (bar_pc (w_bar w) q = Outside)" for q
    using bar_move_leaves [OF b] unfolding l by (metis fun_upd_same n_not_Suc_n)
  moreover have "pe_at a cs base (w\<lparr>w_bar := b\<rparr>) q k l = pe_at a cs base w q k l" for q k l
    by (rule pe_at_cong) simp_all
  ultimately show ?thesis
    using inv l bar_inv_move [OF _ b] bar_entered_move [OF b] by (simp add: world_inv_def)
qed

lemma world_inv_return:
  assumes inv: "world_inv n a cs base w" and b: "bar_move n loc (w_bar w) b"
    and l: "bar_left b p \<noteq> bar_left (w_bar w) p" and ret: "shmem_return p (w\<lparr>w_bar := b\<rparr>) = Some w'"
  shows "world_inv n a cs base w'" and "w_bar w' = b"
proof -
  have p: "p < n" "bar_pc (w_bar w) p \<noteq> Outside" "bar_pc b p = Outside"
    and b': "bar_left b = (bar_left (w_bar w))(p := Suc (bar_left (w_bar w) p))"
    and out: "\<And>q. q \<noteq> p \<Longrightarrow> (bar_pc b q = Outside) = (bar_pc (w_bar w) q = Outside)"
    using bar_move_left [OF b l] by blast+
  have call: "w_call w p \<noteq> No_call" "w_call w p \<noteq> In_finalize" using inv p by (simp_all add: world_inv_def)
  obtain w'' where "shmem_return p (w\<lparr>w_bar := b\<rparr>) = Some w''" "w_bar w'' = b" "w_pe w'' = w_pe w"
    "w_call w'' = (w_call w)(p := No_call)" "w_results w'' = (w_results w)(p := allocated w p)"
    using shmem_return_value [of "w\<lparr>w_bar := b\<rparr>" p] call by (auto simp: allocated_def)
  with ret have w': "w_bar w' = b" "w_pe w' = w_pe w" "w_call w' = (w_call w)(p := No_call)"
    "w_results w' = (w_results w)(p := allocated w p)" by simp_all
  show "w_bar w' = b" by (rule w'(1))
  have ent: "bar_entered b = bar_entered (w_bar w)" by (rule bar_entered_move [OF b])
  have binv: "bar_inv n b" using inv bar_inv_move [OF _ b] by (simp add: world_inv_def)
  have "pe_at a cs base w' q (bar_entered b q) (bar_left b q)" if q: "q < n" for q
  proof (cases "q = p")
    case True
    have "bar_entered b p = bar_left b p" using bar_invD(3) [OF binv p(1)] p(3) by simp
    moreover have "pe_at a cs base w p (bar_entered b p) (bar_left (w_bar w) p)"
      using inv p(1) ent by (simp add: world_inv_def)
    moreover have "allocated w' p = allocated w p" "w_results w' p = allocated w p"
      using w' by (simp_all add: allocated_def)
    ultimately show ?thesis using True w'(2) by (simp add: pe_at_def)
  next
    case False
    have "pe_at a cs base w' q k l = pe_at a cs base w q k l" for k l
      by (rule pe_at_cong) (use False w' in simp_all)
    with inv q False b' ent show ?thesis by (simp add: world_inv_def)
  qed
  with inv binv w' out p show "world_inv n a cs base w'" by (auto simp: world_inv_def)
qed

inductive_cases world_moveE: "world_move n loc w w'"
inductive_cases world_stepE: "world_step n loc prog w w'"

lemma world_inv_move: "world_inv n a cs base w \<Longrightarrow> world_move n loc w w' \<Longrightarrow> world_inv n a cs base w'"
  by (erule world_moveE) (simp_all add: world_inv_within world_inv_return(1))

lemma world_inv_call:
  assumes inv: "world_inv n a cs base w" and p: "p < n" "bar_pc (w_bar w) p = Outside"
    and k: "bar_entered (w_bar w) p < length cs"
    and call: "shmem_call p (cs ! bar_entered (w_bar w) p) w = Some w'"
  shows "world_inv n a cs base w'"
proof -
  let ?b = "w_bar w"
  have at: "pe_at a cs base w p (bar_entered ?b p) (bar_left ?b p)" "w_call w p = No_call" "allocating cs"
    using inv p by (simp_all add: world_inv_def)
  note c = pe_at_call [OF at(1) k at(2,3) call]
  have "pe_at a cs base w' q (bar_entered (w_bar w') q) (bar_left (w_bar w') q)" if "q < n" for q
  proof (cases "q = p")
    case False
    have "pe_at a cs base w' q k l = pe_at a cs base w q k l" for k l
      by (rule pe_at_cong) (use c(5) [OF False] in simp_all)
    with inv that False c(2) show ?thesis by (simp add: world_inv_def)
  qed (use c(1,2) in simp)
  moreover have "(w_call w' q = No_call) = (bar_pc (w_bar w') q = Outside) \<and> w_call w' q \<noteq> In_finalize" if "q < n" for q
    using inv that c(2-5) by (cases "q = p") (simp_all add: world_inv_def)
  ultimately show ?thesis using inv p bar_inv_enter [of n ?b p] c(2) by (simp add: world_inv_def)
qed

lemma world_inv_step:
  assumes "world_inv n a cs base w" and "world_step n loc (\<lambda>_. cs) w w'"
  shows "world_inv n a cs base w'"
  using assms(2)
proof (rule world_stepE)
  assume "world_move n loc w w'"
  thus ?thesis by (rule world_inv_move [OF assms(1)])
qed (use world_inv_call [OF assms(1)] in blast)

interpretation collectives: inductive_invariant "world_start n a cs base" "world_step n loc (\<lambda>_. cs)"
    "\<lambda>w. allocating cs \<longrightarrow> world_inv n a cs base w" for n a cs base loc
  by unfold_locales (blast intro: world_inv_start world_inv_step)+

lemma nf_run_prefix:
  assumes "l \<le> k" and "i < length (mallocs (take l cs))"
  shows "i < length (mallocs (take k cs))"
    and "nf_run a (mallocs (take k cs)) ! i = nf_run a (mallocs (take l cs)) ! i"
proof -
  have "take k cs = take l cs @ take (k - l) (drop l cs)"
    using assms(1) take_add [of l "k - l" cs] by simp
  hence "mallocs (take k cs) = mallocs (take l cs) @ mallocs (take (k - l) (drop l cs))"
    by (simp only: mallocs_append)
  thus "i < length (mallocs (take k cs))"
    and "nf_run a (mallocs (take k cs)) ! i = nf_run a (mallocs (take l cs)) ! i"
    using assms(2) by (simp_all add: nf_run_append nth_append)
qed

text \<open>Placing an offset that a run returned is undone by the difference with the base.\<close>

lemma place_offset:
  assumes rep: "pe_rep k s b" and ok: "nf_ok a" "nf_size a = nf_size b" and i: "i < length ns"
    and h: "nf_run a ns ! i = Some off"
  shows "place (pe_base s) (Some off) \<noteq> NULL"
    and "comm_local_offset (ps_local s) (place (pe_base s) (Some off)) = Some (of_nat off)"
proof -
  obtain x where x: "x \<in> set (nf_lay a)" using ok(1) by (cases "nf_lay a") (auto simp: nf_ok_def)
  have "off \<le> nf_size b" using nf_run_apart_old [OF ok(1) i h x] ok(2) by simp
  thus "place (pe_base s) (Some off) \<noteq> NULL" by (rule pe_heap.place_address(2) [OF rep])
  obtain sh where "cl_symmetric_heap (ps_local s) = Some sh" using rep by (auto simp: pe_rep_def)
  thus "comm_local_offset (ps_local s) (place (pe_base s) (Some off)) = Some (of_nat off)"
    by (simp add: place_def comm_local_offset_base)
qed

lemma nf_after_size: "nf_size (nf_after a ns) = nf_size a"
  by (induction ns arbitrary: a)
    (auto simp: nf_after_def nf_malloc_def nf_insert_def split: option.splits)

section \<open>Properties of the collective operations\<close>

text \<open>
  C1: \<open>shmem_malloc\<close> is symmetric in programs that free nothing. When PEs that started with
  equal heaps run the same sequence of \<open>shmem_malloc\<close>, \<open>shmem_barrier_all\<close> and
  \<open>shmem_sync_all\<close> (\<open>allocating\<close>: no \<open>shmem_free\<close>, no \<open>shmem_finalize\<close>), and \<open>malloc\<close> has room
  for the descriptors, then once one of them has returned from its k-th \<open>shmem_malloc\<close>, every
  PE has made its k-th allocation, and either all of them are NULL or all lie at the same
  offset of their symmetric heaps, however the calls and the steps of the barriers interleave.
\<close>

theorem shmem_malloc_symmetric:
  assumes "reach (world_start n a cs base) (world_step n loc (\<lambda>_. cs)) w"
    and "nf_ok a" and ok: "allocating cs" and p: "p < n" and q: "q < n" and i: "i < length (w_results w p)"
  shows "i < length (allocated w q) \<and> (w_results w p ! i = NULL) = (allocated w q ! i = NULL) \<and>
    (w_results w p ! i \<noteq> NULL \<longrightarrow>
      comm_local_offset (ps_local (w_pe w p)) (w_results w p ! i) =
      comm_local_offset (ps_local (w_pe w q)) (allocated w q ! i))"
proof -
  have inv: "world_inv n a cs base w" using collectives.reach_inv [OF assms(1)] ok by blast
  let ?l = "bar_left (w_bar w) p" and ?k = "bar_entered (w_bar w) q"
  let ?ms = "mallocs (take ?l cs)"
  obtain kp where P: "pe_base (w_pe w p) = base p" "pe_rep (3 * (length cs - kp)) (w_pe w p) (nf_after a (mallocs (take kp cs)))"
    "w_results w p = map (place (base p)) (nf_run a ?ms)"
    using inv p by (auto simp: world_inv_def pe_at_def)
  have Q: "pe_base (w_pe w q) = base q" "pe_rep (3 * (length cs - ?k)) (w_pe w q) (nf_after a (mallocs (take ?k cs)))"
    "allocated w q = map (place (base q)) (nf_run a (mallocs (take ?k cs)))"
    using inv q by (simp_all add: world_inv_def pe_at_def)
  have le: "?l \<le> ?k" using inv p q by (intro bar_inv_left_entered) (simp_all add: world_inv_def)
  note pre = nf_run_prefix [OF le, of i cs]
  have i': "i < length ?ms" using i P(3) by simp
  have len: "i < length (allocated w q)" using pre(1) [OF i'] Q(3) by simp
  have val: "w_results w p ! i = place (base p) (nf_run a ?ms ! i)"
    "allocated w q ! i = place (base q) (nf_run a ?ms ! i)"
    using pre(1) [OF i'] pre(2) [OF i', of a] i' P(3) Q(3) by simp_all
  show ?thesis
  proof (cases "nf_run a ?ms ! i")
    case (Some off)
    show ?thesis
      using len val Some place_offset [OF P(2) assms(2) _ i' Some] place_offset [OF Q(2) assms(2) _ i' Some] P(1) Q(1)
      by (simp add: nf_after_size)
  qed (use len val in \<open>simp add: place_def\<close>)
qed

lemma world_entered_move:
  assumes inv: "world_inv n a cs base w" and move: "world_move n loc w w'"
  shows "bar_entered (w_bar w') = bar_entered (w_bar w) \<and> bar_work n (w_bar w') < bar_work n (w_bar w)"
proof -
  have binv: "bar_inv n (w_bar w)" using inv by (simp add: world_inv_def)
  obtain b where "bar_move n loc (w_bar w) b" "w_bar w' = b"
  proof -
    from move show thesis
    proof (rule world_moveE)
      fix b assume "w' = w\<lparr>w_bar := b\<rparr>" "bar_move n loc (w_bar w) b"
      thus thesis by (intro that) simp_all
    next
      fix b p assume "bar_move n loc (w_bar w) b" "bar_left b p \<noteq> bar_left (w_bar w) p"
        "shmem_return p (w\<lparr>w_bar := b\<rparr>) = Some w'"
      thus thesis using world_inv_return(2) [OF inv] by (intro that) blast+
    qed
  qed
  thus ?thesis using bar_entered_move bar_work_move [OF binv] by blast
qed

lemma world_progress:
  assumes inv: "world_inv n a cs base w" and p: "p < n" "bar_pc (w_bar w) p \<noteq> Outside"
    and all: "\<forall>q<n. bar_entered (w_bar w) p \<le> bar_entered (w_bar w) q"
  shows "\<exists>w'. world_move n loc w w'"
proof -
  have "bar_inv n (w_bar w)" using inv by (simp add: world_inv_def)
  then obtain b where b: "bar_move n loc (w_bar w) b" using bar_progress [OF _ p all] by blast
  show ?thesis
  proof (cases "bar_left b = bar_left (w_bar w)")
    case False
    then obtain r where r: "bar_left b r \<noteq> bar_left (w_bar w) r" by blast
    have "w_call w r \<noteq> No_call" "w_call w r \<noteq> In_finalize"
      using inv bar_move_left [OF b r] by (simp_all add: world_inv_def)
    thus ?thesis using shmem_return_value [of "w\<lparr>w_bar := b\<rparr>" r] world_move.return [OF b r] by auto
  qed (use world_move.within [OF b] in blast)
qed

lemma shmem_call_total:
  assumes inv: "world_inv n a cs base w" and p: "p < n" and k: "bar_entered (w_bar w) p < length cs"
  shows "\<exists>w'. shmem_call p (cs ! bar_entered (w_bar w) p) w = Some w'"
proof -
  let ?k = "bar_entered (w_bar w) p"
  have at: "pe_rep (3 * (length cs - ?k)) (w_pe w p) (nf_after a (mallocs (take ?k cs)))" and ok: "allocating cs"
    using inv p by (simp_all add: world_inv_def pe_at_def)
  have e: "3 * (length cs - Suc ?k) + 3 = 3 * (length cs - ?k)" using k by simp
  have alloc: "\<exists>x. comm_heap_malloc (w_pe w p) sz = Some x" for sz
    using comm_heap_malloc_step [of "3 * (length cs - Suc ?k)" "w_pe w p"] at unfolding e by blast
  consider "cs ! ?k = Do_barrier" | "cs ! ?k = Do_sync" | sz where "cs ! ?k = Do_malloc sz"
    using ok k by (auto simp: allocating_def dest: nth_mem)
  thus ?thesis
  proof cases
    case (3 sz)
    obtain x where "comm_heap_malloc (w_pe w p) sz = Some x" using alloc by blast
    with 3 show ?thesis by (cases x) (simp add: shmem_call_def shmem_malloc_def)
  qed (simp_all add: shmem_call_def)
qed

text \<open>What is left to do: the calls that have not been made, and the steps in the barriers.\<close>

definition world_work :: "nat \<Rightarrow> collective list \<Rightarrow> world \<Rightarrow> nat" where
  "world_work n cs w = (\<Sum>p<n. (length cs - bar_entered (w_bar w) p) * (4 * n + 5)) + bar_work n (w_bar w)"

lemma world_work_call:
  assumes inv: "bar_inv n (w_bar w)" and p: "p < n" "bar_pc (w_bar w) p = Outside"
    and k: "bar_entered (w_bar w) p < length cs" and b: "w_bar w' = enter_barrier p (w_bar w)"
  shows "world_work n cs w' < world_work n cs w"
proof -
  let ?c = "if p = 0 then Gather 1 else Notify" and ?e = "bar_entered (w_bar w)"
  have "0 < n" by (rule bar_invD(1) [OF inv])
  hence c: "pc_work n ?c \<le> 4 * n + 4" by (cases "p = 0") auto
  have "(\<Sum>q<n. (length cs - (?e(p := Suc (?e p))) q) * (4 * n + 5)) + (length cs - ?e p) * (4 * n + 5) =
      (\<Sum>q<n. (length cs - ?e q) * (4 * n + 5)) + (length cs - Suc (?e p)) * (4 * n + 5)"
    using sum_update [OF p(1), of "\<lambda>_ x. (length cs - x) * (4 * n + 5)" ?e "Suc (?e p)"] .
  moreover have "(length cs - ?e p) * (4 * n + 5) = (length cs - Suc (?e p)) * (4 * n + 5) + (4 * n + 5)"
    using k by (simp add: Suc_diff_Suc [symmetric])
  moreover have "bar_work n (enter_barrier p (w_bar w)) = bar_work n (w_bar w) + pc_work n ?c"
    using sum_update [OF p(1), of "\<lambda>_. pc_work n" "bar_pc (w_bar w)" ?c] p(2)
    by (simp add: bar_work_def enter_barrier_def set_pc_def)
  ultimately show ?thesis using c unfolding world_work_def b enter_barrier_simps by linarith
qed

lemma world_work_step:
  assumes inv: "world_inv n a cs base w" and step: "world_step n loc (\<lambda>_. cs) w w'"
  shows "world_work n cs w' < world_work n cs w"
  using step
proof (rule world_stepE)
  assume "world_move n loc w w'"
  thus ?thesis using world_entered_move [OF inv] by (simp add: world_work_def)
next
  fix p assume p: "p < n" "bar_pc (w_bar w) p = Outside" "bar_entered (w_bar w) p < length cs"
    "shmem_call p (cs ! bar_entered (w_bar w) p) w = Some w'"
  have "bar_inv n (w_bar w)" "allocating cs" "w_call w p = No_call"
    "pe_at a cs base w p (bar_entered (w_bar w) p) (bar_left (w_bar w) p)"
    using inv p by (simp_all add: world_inv_def)
  thus ?thesis using world_work_call p pe_at_call(2) by blast
qed

lemma world_step_progress:
  assumes inv: "world_inv n a cs base w"
    and todo: "\<not> (\<forall>p<n. w_call w p = No_call \<and> bar_left (w_bar w) p = length cs)"
  shows "\<exists>w'. world_step n loc (\<lambda>_. cs) w w'"
proof -
  let ?e = "bar_entered (w_bar w)"
  have binv: "bar_inv n (w_bar w)" using inv by (simp add: world_inv_def)
  obtain p where p: "p < n" "\<forall>q<n. ?e p \<le> ?e q"
    using ex_min_if_finite [of "?e ` {..<n}"] bar_invD(1) [OF binv] by (force simp: not_less)
  show ?thesis
  proof (cases "bar_pc (w_bar w) p = Outside")
    case False
    thus ?thesis using world_progress [OF inv p(1) _ p(2)] world_step.move by blast
  next
    case out: True
    show ?thesis
    proof (cases "?e p < length cs")
      case True
      then obtain w' where "shmem_call p (cs ! ?e p) w = Some w'" using shmem_call_total [OF inv p(1)] by blast
      with True have "world_step n loc (\<lambda>_. cs) w w'" by (intro world_step.call [OF p(1) out])
      thus ?thesis by blast
    next
      case False
      hence all: "?e q = length cs" if "q < n" for q using p inv that by (force simp: world_inv_def pe_at_def)
      obtain q where q: "q < n" "\<not> (w_call w q = No_call \<and> bar_left (w_bar w) q = length cs)" using todo by blast
      hence "bar_pc (w_bar w) q \<noteq> Outside" using inv all bar_invD(3) [OF binv q(1)] by (auto simp: world_inv_def)
      thus ?thesis using world_progress [OF inv q(1)] all q(1) world_step.move by fastforce
    qed
  qed
qed

lemma world_completes:
  assumes "world_inv n a cs base w"
  shows "inevitable (world_step n loc (\<lambda>_. cs)) (\<lambda>v. \<forall>p<n. w_call v p = No_call \<and> bar_left (w_bar v) p = length cs) w"
proof (rule inevitable_measure [where m = "world_work n cs" and Q = "world_inv n a cs base"])
  show "world_inv n a cs base v' \<and> world_work n cs v' < world_work n cs v"
    if "world_inv n a cs base v" "world_step n loc (\<lambda>_. cs) v v'" for v v'
    using world_inv_step [OF that] world_work_step [OF that] ..
  show "\<exists>v'. world_step n loc (\<lambda>_. cs) v v'"
    if "world_inv n a cs base v" "\<not> (\<forall>p<n. w_call v p = No_call \<and> bar_left (w_bar v) p = length cs)" for v
    by (rule world_step_progress [OF that])
qed (rule assms)

text \<open>
  C21: the collective calls return. When all PEs run the same sequence of \<open>shmem_malloc\<close>,
  \<open>shmem_barrier_all\<close> and \<open>shmem_sync_all\<close> (no \<open>shmem_free\<close>, no \<open>shmem_finalize\<close>), and \<open>malloc\<close>
  has room for the descriptors, then from every state they can reach, and whatever the
  interleaving from there on, a state comes in which every PE has returned from its last call.
\<close>

theorem shmem_calls_return:
  assumes "reach (world_start n a cs base) (world_step n loc (\<lambda>_. cs)) w" and "allocating cs"
  shows "inevitable (world_step n loc (\<lambda>_. cs))
    (\<lambda>v. \<forall>p<n. w_call v p = No_call \<and> bar_left (w_bar v) p = length cs) w"
  using collectives.reach_inv [OF assms(1)] assms(2) world_completes by blast

text \<open>No collective call of these programs touches the queue of jobs.\<close>

lemma world_step_work:
  assumes inv: "world_inv n a cs base w" and step: "world_step n loc (\<lambda>_. cs) w w'"
  shows "ps_work (w_pe w' q) = ps_work (w_pe w q)"
  using step
proof (rule world_stepE)
  assume "world_move n loc w w'"
  thus ?thesis
  proof (rule world_moveE)
    fix b p assume b: "bar_move n loc (w_bar w) b" "bar_left b p \<noteq> bar_left (w_bar w) p"
      "shmem_return p (w\<lparr>w_bar := b\<rparr>) = Some w'"
    have "w_call w p \<noteq> No_call" "w_call w p \<noteq> In_finalize"
      using inv bar_move_left [OF b(1,2)] by (simp_all add: world_inv_def)
    thus ?thesis using shmem_return_value [of "w\<lparr>w_bar := b\<rparr>" p] b(3) by auto
  qed simp
next
  fix p assume p: "p < n" "bar_entered (w_bar w) p < length cs"
    "shmem_call p (cs ! bar_entered (w_bar w) p) w = Some w'"
  have "cs ! bar_entered (w_bar w) p \<in> set cs" "allocating cs" using p inv by (simp_all add: world_inv_def)
  hence "cs ! bar_entered (w_bar w) p \<in> {Do_barrier, Do_sync} \<union> range Do_malloc" by (auto simp: allocating_def)
  thus ?thesis using p(3)
    by (auto simp: shmem_call_def shmem_malloc_def shmem_sync_all_def shmem_barrier_all_def set_call_def
        set_pe_def comm_heap_malloc_def set_heap_def Let_def bind_eq_Some_conv split: option.splits)
qed

lemma world_run_work:
  assumes "(world_step n loc (\<lambda>_. cs))\<^sup>*\<^sup>* w v" and "world_inv n a cs base w"
  shows "world_inv n a cs base v \<and> ps_work (w_pe v q) = ps_work (w_pe w q)"
  using assms by (induction rule: rtranclp_induct) (auto simp: world_inv_step world_step_work)

text \<open>
  C23: nonblocking puts are completed neither by \<open>shmem_barrier_all\<close> nor by \<open>shmem_sync_all\<close>
  with its \<open>shmem_quiet\<close>. When PE \<open>p\<close> makes a \<open>shmem_putmem_nbi\<close> before the PEs of one node run
  any sequence of these calls (and of \<open>shmem_malloc\<close>, which ends in a \<open>shmem_sync_all\<close>), then
  the memory is unchanged after the put, and there is a run in which the worker of \<open>p\<close> does
  not take its turn, at the end of which every PE has returned from all of these calls while
  the job of the put is still in the queue.
\<close>

theorem shmem_quiet_leaves_puts:
  assumes start: "world_start n a cs base w" and cs: "allocating cs" and p: "p < n"
    and put: "shmem_putmem_nbi dest src m pe (nm, s) = Some (nm', s')" and made: "w_pe w p = s'"
    and rep: "work_rep (ps_work s) js"
  shows "nm' = nm \<and> (\<exists>v j. (world_step n (\<lambda>_ _. True) (\<lambda>_. cs))\<^sup>*\<^sup>* w v \<and>
    (\<forall>q<n. w_call v q = No_call \<and> bar_left (w_bar v) q = length cs) \<and>
    work_rep (ps_work (w_pe v p)) (js @ [j]) \<and>
    j_handler j = HANDLER_PUT \<and> j_dest_pe j = pe \<and> j_src j = src \<and> j_size j = m)"
proof -
  obtain off r ws where ws: "work_put_remote (ps_work s) HANDLER_PUT pe (comm_remote_pe (ps_remote s)) off src m = Some (r, ws)"
    "s' = s\<lparr>ps_work := ws\<rparr>" "nm' = nm"
    using put by (auto simp: shmem_putmem_nbi_def comm_put_nbi_def work_put_eq bind_eq_Some_conv split_beta)
  note queued = work_put_remote_Some(1) [OF rep ws(1)]
  have inv: "world_inv n a cs base w" by (rule world_inv_start [OF start cs])
  obtain v where v: "(world_step n (\<lambda>_ _. True) (\<lambda>_. cs))\<^sup>*\<^sup>* w v"
    "\<forall>q<n. w_call v q = No_call \<and> bar_left (w_bar v) q = length cs"
    using inevitable_reaches [OF world_completes [OF inv]] by blast
  have "ps_work (w_pe v p) = ws" using world_run_work [OF v(1) inv] ws(2) made by simp
  with queued ws(3) v show ?thesis by fastforce
qed

text \<open>
  C40: no PE returns from \<open>shmem_finalize\<close> with defined behaviour. When \<open>comm_finalize\<close> frees
  the array for the barriers, the layers below have been finalized and the heap object that
  the allocator would read has been freed.
\<close>

theorem shmem_finalize_undefined:
  assumes "w_call w p = In_finalize"
    and "comm_local_finalize (ps_local (w_pe w p)) (ps_maps (w_pe w p)) (ps_store (w_pe w p)) = Some (cl, vm, st)"
  shows "cl_symmetric_heap cl = None \<and> comm_finalize (w_pe w p) = None \<and> shmem_return p w = None"
proof -
  have cl: "cl_symmetric_heap cl = None"
    using assms(2) by (auto simp: comm_local_finalize_def bind_eq_Some_conv)
  hence "comm_finalize (w_pe w p) = None"
    using assms(2) by (simp add: comm_finalize_def comm_heap_free_def comm_symmetric_heap_def comm_local_heap_def Let_def)
  with cl assms(1) show ?thesis by (simp add: shmem_return_def Let_def)
qed

section \<open>Witnesses\<close>

text \<open>Two PEs of one node whose heaps are new.\<close>

definition demo_world :: "pe_state \<Rightarrow> world" where
  "demo_world s = \<lparr>w_pe = \<lambda>_. s, w_call = \<lambda>_. No_call, w_results = \<lambda>_. [], w_bar = bar_init\<rparr>"

lemma demo_heap_pe:
  obtains s where "pe_rep 9 s (nf_init 1024)" "pe_base s = 4096" "ps_work s = demo_queue" "ps_remote s = demo_remote"
    "comm_local_offset (ps_local s) 4112 = Some 16"
proof -
  obtain h st where h: "h_ptr h = 4096" "heap_rep 9 (h, st) (nf_init 1024)" by (rule demo_heap [of 4096]) auto
  define s where "s = demo_pe\<lparr>ps_local := demo_local\<lparr>cl_symmetric_heap := Some \<lparr>sh_heap = h, sh_key = []\<rparr>\<rparr>, ps_store := st\<rparr>"
  have "pe_rep 9 s (nf_init 1024)" "pe_base s = 4096"
    using h by (simp_all add: s_def pe_rep_def shared_heap_rep_def pe_base_def)
  thus thesis
    by (rule that) (simp_all add: h(1) s_def demo_pe_def comm_local_offset_def shared_heap_offset_def heap_offset_def)
qed

lemma demo_world_start:
  assumes "pe_rep 9 s (nf_init 1024)" "pe_base s = 4096" "length cs \<le> 3"
  shows "world_start 2 (nf_init 1024) cs (\<lambda>_. 4096) (demo_world s)"
  using assms pe_rep_mono [OF assms(1), of "3 * length cs"] by (simp add: world_start_def demo_world_def bar_init)

theorem shmem_calls_return_witness:
  "\<exists>w. world_start 2 (nf_init 1024) [Do_malloc 16, Do_barrier] (\<lambda>_. 4096) w \<and>
    inevitable (world_step 2 (\<lambda>_ _. False) (\<lambda>_. [Do_malloc 16, Do_barrier]))
      (\<lambda>v. \<forall>p<2. w_call v p = No_call \<and> bar_left (w_bar v) p = length [Do_malloc 16, Do_barrier]) w"
proof -
  obtain s where s: "pe_rep 9 s (nf_init 1024)" "pe_base s = 4096" by (rule demo_heap_pe)
  have "world_start 2 (nf_init 1024) [Do_malloc 16, Do_barrier] (\<lambda>_. 4096) (demo_world s)"
    by (rule demo_world_start [OF s]) simp
  moreover have "allocating [Do_malloc 16, Do_barrier]" by (simp add: allocating_def)
  ultimately show ?thesis by (blast intro: shmem_calls_return reach_start)
qed

theorem shmem_malloc_symmetric_witness:
  "\<exists>w r. reach (world_start 2 (nf_init 1024) [Do_malloc 16] (\<lambda>_. 4096))
      (world_step 2 (\<lambda>_ _. False) (\<lambda>_. [Do_malloc 16])) w \<and> w_results w 0 = [r] \<and>
    (r = NULL) = (allocated w 1 ! 0 = NULL)"
proof -
  let ?R = "reach (world_start 2 (nf_init 1024) [Do_malloc 16] (\<lambda>_. 4096))
      (world_step 2 (\<lambda>_ _. False) (\<lambda>_. [Do_malloc 16]))"
  have ok: "allocating [Do_malloc 16]" by (simp add: allocating_def)
  obtain s where s: "pe_rep 9 s (nf_init 1024)" "pe_base s = 4096" by (rule demo_heap_pe)
  have w: "world_start 2 (nf_init 1024) [Do_malloc 16] (\<lambda>_. 4096) (demo_world s)"
    by (rule demo_world_start [OF s]) simp
  obtain v where v: "(world_step 2 (\<lambda>_ _. False) (\<lambda>_. [Do_malloc 16]))\<^sup>*\<^sup>* (demo_world s) v"
    "\<forall>p<2. w_call v p = No_call \<and> bar_left (w_bar v) p = length [Do_malloc 16]"
    using inevitable_reaches [OF world_completes [OF world_inv_start [OF w ok]]] by blast
  have "?R (demo_world s)" by (rule reach_start) (rule w)
  with v(1) have R: "?R v" by (rule reach_rtranclp)
  have "length (w_results v 0) = 1"
    using collectives.reach_inv [OF R] ok v(2) by (simp add: world_inv_def pe_at_def split_beta)
  then obtain r where "w_results v 0 = [r]" by (auto simp: length_Suc_conv)
  with shmem_malloc_symmetric [OF R nf_ok_init ok, of 0 1 0] R show ?thesis by auto
qed

theorem shmem_quiet_leaves_puts_witness:
  "\<exists>w v j. world_start 2 (nf_init 1024) [Do_barrier, Do_sync] (\<lambda>_. 4096) w \<and>
    (world_step 2 (\<lambda>_ _. True) (\<lambda>_. [Do_barrier, Do_sync]))\<^sup>*\<^sup>* w v \<and>
    (\<forall>q<2. w_call v q = No_call \<and> bar_left (w_bar v) q = length [Do_barrier, Do_sync]) \<and>
    work_rep (ps_work (w_pe v 0)) [j] \<and> j_handler j = HANDLER_PUT"
proof -
  obtain s where s: "pe_rep 9 s (nf_init 1024)" "pe_base s = 4096" "ps_work s = demo_queue" "ps_remote s = demo_remote"
    "comm_local_offset (ps_local s) 4112 = Some 16"
    by (rule demo_heap_pe)
  have "w_room demo_queue (0 + 2)" by (simp only: add_0 demo_work(2))
  then obtain st where "work_put_remote demo_queue HANDLER_PUT 1 (comm_remote_pe (ps_remote s)) 16 64 8 = Some (0, st)"
    using work_put_remote_total [OF demo_work(1)] by blast
  hence put: "shmem_putmem_nbi 4112 64 8 1 (demo_nm, s) = Some (demo_nm, s\<lparr>ps_work := st\<rparr>)"
    by (simp add: shmem_putmem_nbi_def comm_put_nbi_def work_put_eq s)
  have "pe_rep 9 (s\<lparr>ps_work := st\<rparr>) (nf_init 1024)" "pe_base (s\<lparr>ps_work := st\<rparr>) = 4096"
    using s(1,2) by (simp_all add: pe_rep_def pe_base_def)
  hence w: "world_start 2 (nf_init 1024) [Do_barrier, Do_sync] (\<lambda>_. 4096) (demo_world (s\<lparr>ps_work := st\<rparr>))"
    by (rule demo_world_start) simp
  have "allocating [Do_barrier, Do_sync]" "work_rep (ps_work s) []" using demo_work(1) s(3) by (simp_all add: allocating_def)
  from shmem_quiet_leaves_puts [OF w this(1) _ put _ this(2), of 0] w show ?thesis
    by (fastforce simp: demo_world_def)
qed

theorem shmem_finalize_undefined_witness:
  "\<exists>w. w_call w 0 = In_finalize \<and> cl_symmetric_heap (ps_local (w_pe w 0)) \<noteq> None \<and> shmem_return 0 w = None"
proof -
  define s where "s = demo_pe\<lparr>ps_local := demo_local\<lparr>cl_symmetric_heap := Some \<lparr>sh_heap = heap_one 4096 1024 64 128 192, sh_key = []\<rparr>\<rparr>,
    ps_store := store_one demo_mem \<lparr>b_ptr = 4096, b_size = 0, b_next = 0\<rparr> 64 128 192 \<lparr>b_ptr = 4096, b_size = 16, b_next = NULL\<rparr> []\<rparr>"
  define w where "w = \<lparr>w_pe = \<lambda>_. s, w_call = \<lambda>_. In_finalize, w_results = \<lambda>_. [], w_bar = bar_init\<rparr>"
  obtain st2 where "heap_finalize (heap_one 4096 1024 64 128 192) (ps_store s) = Some st2"
    by (simp add: s_def heap_finalize_def heap_one_def heap_finalize_loop.simps store_one_def blk_def free_block_def)
  hence "\<exists>x. comm_local_finalize (ps_local s) (ps_maps s) (ps_store s) = Some x"
    by (simp add: comm_local_finalize_def shared_heap_close_def) (simp add: s_def demo_pe_def demo_local_def)
  then obtain cl vm st where "comm_local_finalize (ps_local s) (ps_maps s) (ps_store s) = Some (cl, vm, st)" by auto
  from shmem_finalize_undefined [of w 0 cl vm st] this show ?thesis
    by (intro exI [of _ w]) (simp add: w_def, simp add: s_def)
qed

end
