(* ===== verification/Handshake.thy ===== *)
theory Handshake
  imports Wireup "HOL-Library.Sublist"
begin

text \<open>
  The handshakes of \<open>__comm_remote_wire_client\<close> and \<open>__comm_remote_wire_server\<close>, with their
  blocking. Every PE works through the actions that \<open>Wireup\<close> gives it. A client connects to
  the command port, where it is queued, and waits for a byte; when it has it, it sends its
  number and connects to the data port. A server takes the first connection from its queue,
  whoever it is from, sends the byte, waits for the number and the data connection, and
  stores the socket under that number. The steps a PE can take without waiting for another
  are one step here. The listening sockets are open before any PE gets here and their
  backlog is the number of PEs, so connecting does not wait.

  The theory proves that no interleaving deadlocks and that in the end every connection of
  the plan is in the tables of both its sides.
\<close>

section \<open>Definitions\<close>

datatype wire_pc = Idle | Connected nat | Serving nat

text \<open>
  The actions left; where each PE is; the connections queued at each server; for a server
  and a client, whether the byte, and whether the number and the data connection, are on
  their way; the PE whose socket is stored under a number.
\<close>

record wiring =
  wi_todo :: "nat \<Rightarrow> (nat \<times> wire_action) list"
  wi_pc :: "nat \<Rightarrow> wire_pc"
  wi_queue :: "nat \<Rightarrow> nat list"
  wi_byte :: "nat \<Rightarrow> nat \<Rightarrow> bool"
  wi_number :: "nat \<Rightarrow> nat \<Rightarrow> bool"
  wi_socket :: "nat \<Rightarrow> nat \<Rightarrow> nat option"

text \<open>The body of the client's loop, for the PE \<open>y\<close>; \<open>None\<close> while it waits.\<close>

definition client_step :: "nat \<Rightarrow> nat \<Rightarrow> wiring \<Rightarrow> wiring option" where
  "client_step p y s = (case wi_pc s p of
     Idle \<Rightarrow> Some (s\<lparr>wi_queue := (wi_queue s)(y := wi_queue s y @ [p]), wi_pc := (wi_pc s)(p := Connected y)\<rparr>)
   | Connected z \<Rightarrow>
       if wi_byte s z p
       then Some (s\<lparr>wi_byte := put2 z p False (wi_byte s), wi_number := put2 z p True (wi_number s),
         wi_socket := put2 p z (Some z) (wi_socket s), wi_pc := (wi_pc s)(p := Idle),
         wi_todo := (wi_todo s)(p := tl (wi_todo s p))\<rparr>)
       else None
   | Serving x \<Rightarrow> None)"

text \<open>The body of the server's loop.\<close>

definition server_step :: "nat \<Rightarrow> wiring \<Rightarrow> wiring option" where
  "server_step q s = (case wi_pc s q of
     Idle \<Rightarrow> (case wi_queue s q of [] \<Rightarrow> None
       | x # xs \<Rightarrow> Some (s\<lparr>wi_queue := (wi_queue s)(q := xs), wi_byte := put2 q x True (wi_byte s),
           wi_pc := (wi_pc s)(q := Serving x)\<rparr>))
   | Serving x \<Rightarrow>
       if wi_number s q x
       then Some (s\<lparr>wi_number := put2 q x False (wi_number s), wi_socket := put2 q x (Some x) (wi_socket s),
         wi_pc := (wi_pc s)(q := Idle), wi_todo := (wi_todo s)(q := tl (wi_todo s q))\<rparr>)
       else None
   | Connected y \<Rightarrow> None)"

definition wire_step :: "nat \<Rightarrow> wiring \<Rightarrow> wiring option" where
  "wire_step p s = (case wi_todo s p of
     [] \<Rightarrow> None
   | (_, Connect y _ _) # _ \<Rightarrow> client_step p y s
   | (_, Accept _) # _ \<Rightarrow> server_step p s)"

definition wire_move :: "nat \<Rightarrow> wiring \<Rightarrow> wiring \<Rightarrow> bool" where
  "wire_move n s t \<longleftrightarrow> (\<exists>p < n. wire_step p s = Some t)"

text \<open>Every PE has its plan before it and nothing is under way.\<close>

definition wire_start :: "(nat \<Rightarrow> (nat \<times> wire_action) list) \<Rightarrow> wiring \<Rightarrow> bool" where
  "wire_start plan s \<longleftrightarrow> wi_todo s = plan \<and> wi_pc s = (\<lambda>_. Idle) \<and> wi_queue s = (\<lambda>_. []) \<and>
     wi_byte s = (\<lambda>_ _. False) \<and> wi_number s = (\<lambda>_ _. False)"

section \<open>Counting actions\<close>

fun accepts :: "(nat \<times> wire_action) list \<Rightarrow> nat" where
  "accepts [] = 0"
| "accepts ((_, Accept _) # as) = Suc (accepts as)"
| "accepts ((_, Connect _ _ _) # as) = accepts as"

fun connects_to :: "nat \<Rightarrow> (nat \<times> wire_action) list \<Rightarrow> nat" where
  "connects_to q [] = 0"
| "connects_to q ((_, Accept _) # as) = connects_to q as"
| "connects_to q ((_, Connect y _ _) # as) = (if y = q then 1 else 0) + connects_to q as"

lemma accepts_pos: "0 < accepts as \<longleftrightarrow> (\<exists>l i. (l, Accept i) \<in> set as)"
  by (induction as rule: accepts.induct) auto

lemma connects_to_pos: "0 < connects_to q as \<longleftrightarrow> (\<exists>l c d. (l, Connect q c d) \<in> set as)"
  by (induction q as rule: connects_to.induct) auto

text \<open>What the next action is.\<close>

fun next_connect :: "nat \<Rightarrow> (nat \<times> wire_action) list \<Rightarrow> bool" where
  "next_connect y ((_, Connect z _ _) # _) = (z = y)"
| "next_connect y _ = False"

fun next_accept :: "(nat \<times> wire_action) list \<Rightarrow> bool" where
  "next_accept ((_, Accept _) # _) = True"
| "next_accept _ = False"

lemma next_connectE: "next_connect y as \<Longrightarrow> (\<And>l c d r. as = (l, Connect y c d) # r \<Longrightarrow> P) \<Longrightarrow> P"
  by (induction y as rule: next_connect.induct) auto

lemma next_acceptE: "next_accept as \<Longrightarrow> (\<And>l i r. as = (l, Accept i) # r \<Longrightarrow> P) \<Longrightarrow> P"
  by (induction as rule: next_accept.induct) auto

section \<open>The invariant\<close>

definition pc_below :: "nat \<Rightarrow> wire_pc \<Rightarrow> bool" where
  "pc_below n c \<longleftrightarrow> (case c of Idle \<Rightarrow> True | Connected y \<Rightarrow> y < n | Serving x \<Rightarrow> x < n)"

lemma pc_below_simps [simp]:
  "pc_below n Idle" "pc_below n (Connected y) = (y < n)" "pc_below n (Serving x) = (x < n)"
  by (simp_all add: pc_below_def)

text \<open>The PEs a PE is talking to, and those queued, are among the \<open>n\<close>.\<close>

definition all_below :: "nat \<Rightarrow> wiring \<Rightarrow> bool" where
  "all_below n s \<longleftrightarrow> (\<forall>x < n. pc_below n (wi_pc s x)) \<and> (\<forall>y < n. set (wi_queue s y) \<subseteq> {..<n})"

definition at_client :: "nat \<Rightarrow> wiring \<Rightarrow> bool" where
  "at_client n s \<longleftrightarrow> (\<forall>x < n. \<forall>y. wi_pc s x = Connected y \<longrightarrow>
     next_connect y (wi_todo s x) \<and>
     (if wi_byte s y x then wi_pc s y = Serving x else x \<in> set (wi_queue s y)))"

definition at_queue :: "nat \<Rightarrow> wiring \<Rightarrow> bool" where
  "at_queue n s \<longleftrightarrow> (\<forall>y < n. distinct (wi_queue s y) \<and>
     (\<forall>x \<in> set (wi_queue s y). wi_pc s x = Connected y \<and> \<not> wi_byte s y x))"

definition at_server :: "nat \<Rightarrow> wiring \<Rightarrow> bool" where
  "at_server n s \<longleftrightarrow> (\<forall>y < n. \<forall>x. wi_pc s y = Serving x \<longrightarrow>
     next_accept (wi_todo s y) \<and>
     (if wi_number s y x then \<not> wi_byte s y x else wi_byte s y x \<and> wi_pc s x = Connected y))"

definition on_way :: "nat \<Rightarrow> wiring \<Rightarrow> bool" where
  "on_way n s \<longleftrightarrow> (\<forall>y < n. \<forall>x. wi_byte s y x \<or> wi_number s y x \<longrightarrow> wi_pc s y = Serving x)"

text \<open>The accepts a PE has left are the connections to it that are left, queued or being served.\<close>

definition balanced :: "nat \<Rightarrow> wiring \<Rightarrow> bool" where
  "balanced n s \<longleftrightarrow> (\<forall>q < n. accepts (wi_todo s q) + (\<Sum>p<n. if wi_pc s p = Connected q then 1 else 0) =
     (\<Sum>p<n. connects_to q (wi_todo s p)) + length (wi_queue s q) +
     (if \<exists>x. wi_pc s q = Serving x then 1 else 0))"

text \<open>A connection the client has done is in its table, and in the server's or on its way there.\<close>

definition recorded :: "nat \<Rightarrow> (nat \<Rightarrow> (nat \<times> wire_action) list) \<Rightarrow> wiring \<Rightarrow> bool" where
  "recorded n plan s \<longleftrightarrow> (\<forall>p < n. \<forall>l y c d. (l, Connect y c d) \<in> set (plan p) \<longrightarrow>
     (l, Connect y c d) \<notin> set (wi_todo s p) \<longrightarrow>
     wi_socket s p y = Some y \<and> (wi_socket s y p = Some p \<or> wi_number s y p))"

definition wire_inv :: "nat \<Rightarrow> (nat \<Rightarrow> (nat \<times> wire_action) list) \<Rightarrow> wiring \<Rightarrow> bool" where
  "wire_inv n plan s \<longleftrightarrow> all_below n s \<and> at_client n s \<and> at_queue n s \<and> at_server n s \<and> on_way n s \<and> balanced n s \<and>
     recorded n plan s \<and> (\<forall>p < n. suffix (wi_todo s p) (plan p))"

lemmas wire_parts = at_client_def at_queue_def at_server_def on_way_def

lemma wire_invI:
  assumes "all_below n s" "at_client n s" "at_queue n s" "at_server n s" "on_way n s" "balanced n s" "recorded n plan s"
    and "\<forall>p < n. suffix (wi_todo s p) (plan p)"
  shows "wire_inv n plan s"
  using assms by (simp add: wire_inv_def)

lemma wire_invD:
  assumes "wire_inv n plan s"
  shows "all_below n s" "at_client n s" "at_queue n s" "at_server n s" "on_way n s" "balanced n s" "recorded n plan s"
    "\<forall>p < n. suffix (wi_todo s p) (plan p)"
  using assms by (simp_all add: wire_inv_def)

lemma at_clientD:
  assumes "at_client n s" "x < n" "wi_pc s x = Connected y"
  shows "next_connect y (wi_todo s x)"
    "if wi_byte s y x then wi_pc s y = Serving x else x \<in> set (wi_queue s y)"
  using assms unfolding at_client_def by blast+

lemma at_clientI:
  assumes "\<And>x y. x < n \<Longrightarrow> wi_pc s x = Connected y \<Longrightarrow> next_connect y (wi_todo s x) \<and>
     (if wi_byte s y x then wi_pc s y = Serving x else x \<in> set (wi_queue s y))"
  shows "at_client n s"
  using assms unfolding at_client_def by blast

lemma at_serverD:
  assumes "at_server n s" "y < n" "wi_pc s y = Serving x"
  shows "next_accept (wi_todo s y)"
    "if wi_number s y x then \<not> wi_byte s y x else wi_byte s y x \<and> wi_pc s x = Connected y"
  using assms unfolding at_server_def by blast+

lemma at_serverI:
  assumes "\<And>y x. y < n \<Longrightarrow> wi_pc s y = Serving x \<Longrightarrow> next_accept (wi_todo s y) \<and>
     (if wi_number s y x then \<not> wi_byte s y x else wi_byte s y x \<and> wi_pc s x = Connected y)"
  shows "at_server n s"
  using assms unfolding at_server_def by blast

text \<open>The counts after one PE has moved.\<close>

lemma sum_connected:
  "p < n \<Longrightarrow> (\<Sum>k<n. if ((wi_pc s)(p := v)) k = Connected q then 1 else 0) + (if wi_pc s p = Connected q then 1 else 0) =
    (\<Sum>k<n. if wi_pc s k = Connected q then 1 else 0) + (if v = Connected q then 1 else (0::nat))"
  by (rule sum_update [where w = "\<lambda>_ c. if c = Connected q then 1 else 0"])

lemma sum_connects:
  "p < n \<Longrightarrow> (\<Sum>k<n. connects_to q (((wi_todo s)(p := v)) k)) + connects_to q (wi_todo s p) =
    (\<Sum>k<n. connects_to q (wi_todo s k)) + connects_to q v"
  by (rule sum_update [where w = "\<lambda>_. connects_to q"])

lemma wire_inv_connect:
  assumes inv: "wire_inv n plan s" and p: "p < n" "wi_pc s p = Idle" and todo: "wi_todo s p = (l, Connect y c d) # r"
    and y: "y < n"
  shows "wire_inv n plan (s\<lparr>wi_queue := (wi_queue s)(y := wi_queue s y @ [p]), wi_pc := (wi_pc s)(p := Connected y)\<rparr>)"
    (is "wire_inv n plan ?t")
proof (rule wire_invI)
  note d = wire_invD [OF inv]
  have nb: "\<not> wi_byte s z p" if "z < n" for z
  proof
    assume b: "wi_byte s z p"
    hence "wi_pc s z = Serving p" using d(5) that by (simp add: on_way_def)
    from at_serverD(2) [OF d(4) that this] show False using b p(2) by (simp split: if_splits)
  qed
  have nq: "p \<notin> set (wi_queue s z)" if "z < n" for z using d(3) that p by (auto simp: at_queue_def)
  show "all_below n ?t" using d(1) p y by (auto simp: all_below_def)
  show "at_client n ?t"
  proof (rule at_clientI)
    fix k z' assume k: "k < n" "wi_pc ?t k = Connected z'"
    show "next_connect z' (wi_todo ?t k) \<and>
      (if wi_byte ?t z' k then wi_pc ?t z' = Serving k else k \<in> set (wi_queue ?t z'))"
    proof (cases "k = p")
      case False
      with k(2) have "wi_pc s k = Connected z'" by simp
      from at_clientD [OF d(2) k(1) this] show ?thesis using k(2) False p y todo nb by (auto split: if_splits)
    qed (use k p y todo nb in auto)
  qed
  show "at_queue n ?t" using d(3) p y nb nq by (auto simp: at_queue_def)
  show "at_server n ?t"
  proof (rule at_serverI)
    fix k z' assume k: "k < n" "wi_pc ?t k = Serving z'"
    show "next_accept (wi_todo ?t k) \<and>
      (if wi_number ?t k z' then \<not> wi_byte ?t k z' else wi_byte ?t k z' \<and> wi_pc ?t z' = Connected k)"
    proof (cases "k = p")
      case False
      with k(2) have "wi_pc s k = Serving z'" by simp
      from at_serverD [OF d(4) k(1) this] show ?thesis using k(2) False p y todo nb by (auto split: if_splits)
    qed (use k p y todo nb in auto)
  qed
  show "on_way n ?t" using d(5) p by (auto simp: on_way_def)
  show "balanced n ?t" unfolding balanced_def
  proof (intro allI impI)
    fix q assume q: "q < n"
    show "accepts (wi_todo ?t q) + (\<Sum>k<n. if wi_pc ?t k = Connected q then 1 else 0) =
      (\<Sum>k<n. connects_to q (wi_todo ?t k)) + length (wi_queue ?t q) + (if \<exists>x. wi_pc ?t q = Serving x then 1 else 0)"
      using d(6) q p sum_connected [OF p(1), of s "Connected y" q] by (auto simp: balanced_def)
  qed
  show "recorded n plan ?t" using d(7) by (simp add: recorded_def)
  show "\<forall>k < n. suffix (wi_todo ?t k) (plan k)" using d(8) by simp
qed

lemma wire_inv_greet:
  assumes inv: "wire_inv n plan s" and p: "p < n" "wi_pc s p = Connected z" and b: "wi_byte s z p"
  shows "wire_inv n plan (s\<lparr>wi_byte := put2 z p False (wi_byte s), wi_number := put2 z p True (wi_number s),
         wi_socket := put2 p z (Some z) (wi_socket s), wi_pc := (wi_pc s)(p := Idle),
         wi_todo := (wi_todo s)(p := tl (wi_todo s p))\<rparr>)"
    (is "wire_inv n plan ?t")
proof (rule wire_invI)
  note d = wire_invD [OF inv]
  have "z < n" using d(1) p by (force simp: all_below_def)
  then obtain l c d' r where z: "z < n" "wi_pc s z = Serving p" and todo: "wi_todo s p = (l, Connect z c d') # r"
    using at_clientD [OF d(2) p] b by (auto elim: next_connectE)
  have zp: "z \<noteq> p" using z(2) p(2) by auto
  have other: "wi_byte s y x \<Longrightarrow> wi_pc s x = Connected y \<Longrightarrow> y < n \<Longrightarrow> wi_pc s y = Serving x" for x y
    using d(5) by (simp add: on_way_def)
  show "all_below n ?t" using d(1) p by (auto simp: all_below_def)
  show "at_client n ?t"
  proof (rule at_clientI)
    fix k z' assume k: "k < n" "wi_pc ?t k = Connected z'"
    show "next_connect z' (wi_todo ?t k) \<and>
      (if wi_byte ?t z' k then wi_pc ?t z' = Serving k else k \<in> set (wi_queue ?t z'))"
    proof (cases "k = p")
      case False
      with k(2) have "wi_pc s k = Connected z'" by simp
      from at_clientD [OF d(2) k(1) this] show ?thesis using k(2) False p zp z todo by (auto split: if_splits)
    qed (use k p zp z todo in auto)
  qed
  show "at_queue n ?t" using d(3) p b zp by (auto simp: at_queue_def)
  show "at_server n ?t"
  proof (rule at_serverI)
    fix k z' assume k: "k < n" "wi_pc ?t k = Serving z'"
    show "next_accept (wi_todo ?t k) \<and>
      (if wi_number ?t k z' then \<not> wi_byte ?t k z' else wi_byte ?t k z' \<and> wi_pc ?t z' = Connected k)"
    proof (cases "k = p")
      case False
      with k(2) have "wi_pc s k = Serving z'" by simp
      from at_serverD [OF d(4) k(1) this] show ?thesis using k(2) False p zp z todo by (auto split: if_splits)
    qed (use k p zp z todo in auto)
  qed
  show "on_way n ?t" using d(5) p z zp by (auto simp: on_way_def)
  show "balanced n ?t" unfolding balanced_def
  proof (intro allI impI)
    fix q assume q: "q < n"
    show "accepts (wi_todo ?t q) + (\<Sum>k<n. if wi_pc ?t k = Connected q then 1 else 0) =
      (\<Sum>k<n. connects_to q (wi_todo ?t k)) + length (wi_queue ?t q) + (if \<exists>x. wi_pc ?t q = Serving x then 1 else 0)"
      using d(6) q p todo sum_connected [OF p(1), of s Idle q] sum_connects [OF p(1), of q s r]
      by (auto simp: balanced_def)
  qed
  show "recorded n plan ?t" using d(7) todo p z by (auto simp: recorded_def)
  show "\<forall>k < n. suffix (wi_todo ?t k) (plan k)" using d(8) p(1) by (auto intro: suffix_order.trans suffix_tl)
qed

lemma wire_inv_accept:
  assumes inv: "wire_inv n plan s" and q: "q < n" "wi_pc s q = Idle" and todo: "wi_todo s q = (l, Accept i) # r"
    and x: "wi_queue s q = x # xs"
  shows "wire_inv n plan (s\<lparr>wi_queue := (wi_queue s)(q := xs), wi_byte := put2 q x True (wi_byte s),
           wi_pc := (wi_pc s)(q := Serving x)\<rparr>)"
    (is "wire_inv n plan ?t")
proof (rule wire_invI)
  note d = wire_invD [OF inv]
  have below: "x < n" "set xs \<subseteq> {..<n}" using d(1) q x by (force simp: all_below_def)+
  have x': "x < n" "wi_pc s x = Connected q" "\<not> wi_byte s q x" "distinct (x # xs)"
    using d(3) q x below by (force simp: at_queue_def)+
  have xq: "x \<noteq> q" using x'(2) q(2) by auto
  have nn: "\<not> wi_number s q z" for z using d(5) q by (auto simp: on_way_def)
  show "all_below n ?t" using d(1) q below by (auto simp: all_below_def)
  show "at_client n ?t"
  proof (rule at_clientI)
    fix k z' assume k: "k < n" "wi_pc ?t k = Connected z'"
    show "next_connect z' (wi_todo ?t k) \<and>
      (if wi_byte ?t z' k then wi_pc ?t z' = Serving k else k \<in> set (wi_queue ?t z'))"
    proof (cases "k = q")
      case False
      with k(2) have "wi_pc s k = Connected z'" by simp
      from at_clientD [OF d(2) k(1) this] show ?thesis using k(2) False q x x' xq by (auto split: if_splits)
    qed (use k q x x' xq in auto)
  qed
  show "at_queue n ?t" using d(3) q x x' by (auto simp: at_queue_def)
  show "at_server n ?t"
  proof (rule at_serverI)
    fix k z' assume k: "k < n" "wi_pc ?t k = Serving z'"
    show "next_accept (wi_todo ?t k) \<and>
      (if wi_number ?t k z' then \<not> wi_byte ?t k z' else wi_byte ?t k z' \<and> wi_pc ?t z' = Connected k)"
    proof (cases "k = q")
      case False
      with k(2) have "wi_pc s k = Serving z'" by simp
      from at_serverD [OF d(4) k(1) this] show ?thesis using k(2) False q x x' xq nn todo by (auto split: if_splits)
    qed (use k q x x' xq nn todo in auto)
  qed
  show "on_way n ?t" using d(5) q by (auto simp: on_way_def)
  show "balanced n ?t" unfolding balanced_def
  proof (intro allI impI)
    fix k assume k: "k < n"
    show "accepts (wi_todo ?t k) + (\<Sum>j<n. if wi_pc ?t j = Connected k then 1 else 0) =
      (\<Sum>j<n. connects_to k (wi_todo ?t j)) + length (wi_queue ?t k) + (if \<exists>x. wi_pc ?t k = Serving x then 1 else 0)"
      using d(6) k q x sum_connected [OF q(1), of s "Serving x" k] by (auto simp: balanced_def)
  qed
  show "recorded n plan ?t" using d(7) by (simp add: recorded_def)
  show "\<forall>k < n. suffix (wi_todo ?t k) (plan k)" using d(8) by simp
qed

lemma wire_inv_store:
  assumes inv: "wire_inv n plan s" and q: "q < n" "wi_pc s q = Serving x" and x: "wi_number s q x"
  shows "wire_inv n plan (s\<lparr>wi_number := put2 q x False (wi_number s), wi_socket := put2 q x (Some x) (wi_socket s),
         wi_pc := (wi_pc s)(q := Idle), wi_todo := (wi_todo s)(q := tl (wi_todo s q))\<rparr>)"
    (is "wire_inv n plan ?t")
proof (rule wire_invI)
  note d = wire_invD [OF inv]
  have "x < n" using d(1) q by (force simp: all_below_def)
  then obtain l i r where x': "x < n" "\<not> wi_byte s q x" and todo: "wi_todo s q = (l, Accept i) # r"
    using at_serverD [OF d(4) q] x by (auto elim: next_acceptE)
  have one: "wi_byte s q z \<or> wi_number s q z \<Longrightarrow> z = x" for z using d(5) q by (auto simp: on_way_def)
  show "all_below n ?t" using d(1) q by (auto simp: all_below_def)
  show "at_client n ?t"
  proof (rule at_clientI)
    fix k z' assume k: "k < n" "wi_pc ?t k = Connected z'"
    show "next_connect z' (wi_todo ?t k) \<and>
      (if wi_byte ?t z' k then wi_pc ?t z' = Serving k else k \<in> set (wi_queue ?t z'))"
    proof (cases "k = q")
      case False
      with k(2) have "wi_pc s k = Connected z'" by simp
      from at_clientD [OF d(2) k(1) this] show ?thesis using k(2) False q x' by (auto split: if_splits)
    qed (use k q x' in auto)
  qed
  show "at_queue n ?t" using d(3) q by (auto simp: at_queue_def)
  show "at_server n ?t"
  proof (rule at_serverI)
    fix k z' assume k: "k < n" "wi_pc ?t k = Serving z'"
    show "next_accept (wi_todo ?t k) \<and>
      (if wi_number ?t k z' then \<not> wi_byte ?t k z' else wi_byte ?t k z' \<and> wi_pc ?t z' = Connected k)"
    proof (cases "k = q")
      case False
      with k(2) have "wi_pc s k = Serving z'" by simp
      from at_serverD [OF d(4) k(1) this] show ?thesis using k(2) False q x' by (auto split: if_splits)
    qed (use k q x' in auto)
  qed
  show "on_way n ?t" using d(5) q x' one by (auto simp: on_way_def)
  show "balanced n ?t" unfolding balanced_def
  proof (intro allI impI)
    fix k assume k: "k < n"
    show "accepts (wi_todo ?t k) + (\<Sum>j<n. if wi_pc ?t j = Connected k then 1 else 0) =
      (\<Sum>j<n. connects_to k (wi_todo ?t j)) + length (wi_queue ?t k) + (if \<exists>x. wi_pc ?t k = Serving x then 1 else 0)"
      using d(6) k q todo sum_connected [OF q(1), of s Idle k] sum_connects [OF q(1), of k s r]
      by (auto simp: balanced_def)
  qed
  show "recorded n plan ?t" using d(7) todo q x' by (auto simp: recorded_def)
  show "\<forall>k < n. suffix (wi_todo ?t k) (plan k)" using d(8) q(1) by (auto intro: suffix_order.trans suffix_tl)
qed

section \<open>Progress under a plan\<close>

text \<open>
  What is needed of the plan: connections are those of \<open>Wireup\<close>; a PE that still has to
  accept after connecting is at level 0, one that still has to connect after accepting is
  past it; and every PE accepts as often as others connect to it.
\<close>

locale wiring_plan =
  fixes n :: nat and plan :: "nat \<Rightarrow> (nat \<times> wire_action) list"
  assumes targets: "p < n \<Longrightarrow> (l, Connect y c d) \<in> set (plan p) \<Longrightarrow> connects l p y \<and> y < n"
    and connect_first: "p < n \<Longrightarrow> suffix ((l, Connect y c d) # as) (plan p) \<Longrightarrow> (m, Accept i) \<in> set as \<Longrightarrow> l = 0"
    and accept_first: "p < n \<Longrightarrow> suffix ((m, Accept i) # as) (plan p) \<Longrightarrow> (l, Connect y c d) \<in> set as \<Longrightarrow> 0 < l"
    and counts: "q < n \<Longrightarrow> accepts (plan q) = (\<Sum>p<n. connects_to q (plan p))"
begin

lemma inv_start: "wire_start plan s \<Longrightarrow> wire_inv n plan s"
  by (simp add: wire_start_def wire_inv_def all_below_def wire_parts balanced_def recorded_def counts)

lemma todo_target:
  assumes inv: "wire_inv n plan s" and p: "p < n" and a: "(l, Connect y c d) \<in> set (wi_todo s p)"
  shows "connects l p y" "y < n"
proof -
  have "(l, Connect y c d) \<in> set (plan p)"
    using wire_invD(8) [OF inv] p a by (meson set_mono_suffix subsetD)
  thus "connects l p y" "y < n" using targets p by blast+
qed

lemma inv_step:
  assumes inv: "wire_inv n plan s" and p: "p < n" and step: "wire_step p s = Some t"
  shows "wire_inv n plan t"
proof (cases "wi_todo s p")
  case Nil
  with step show ?thesis by (simp add: wire_step_def)
next
  case (Cons a r)
  obtain l act where a: "a = (l, act)" by (cases a)
  show ?thesis
  proof (cases act)
    case (Connect y c d)
    have y: "y < n" using todo_target(2) [OF inv p, of l y c d] by (simp add: Cons a Connect)
    with step Cons a Connect wire_inv_connect [OF inv p _ _ y] wire_inv_greet [OF inv p] show ?thesis
      by (auto simp: wire_step_def client_step_def split: wire_pc.splits if_splits)
  next
    case (Accept i)
    with step Cons a wire_inv_accept [OF inv p] wire_inv_store [OF inv p] show ?thesis
      by (auto simp: wire_step_def server_step_def split: wire_pc.splits if_splits list.splits)
  qed
qed

lemma queued_accepts:
  assumes inv: "wire_inv n plan s" and q: "q < n"
  shows "length (wi_queue s q) \<le> accepts (wi_todo s q)"
proof -
  have "(if wi_pc s p = Connected q then 1 else 0) \<le> connects_to q (wi_todo s p)" if "p < n" for p
    using at_clientD(1) [OF wire_invD(2) [OF inv] that, of q] by (auto elim!: next_connectE)
  hence "(\<Sum>p<n. if wi_pc s p = Connected q then 1 else 0) \<le> (\<Sum>p<n. connects_to q (wi_todo s p))"
    by (intro sum_mono) simp
  moreover have "accepts (wi_todo s q) + (\<Sum>p<n. if wi_pc s p = Connected q then 1 else 0) =
      (\<Sum>p<n. connects_to q (wi_todo s p)) + length (wi_queue s q) + (if \<exists>x. wi_pc s q = Serving x then 1 else 0)"
    using wire_invD(6) [OF inv] q unfolding balanced_def by blast
  ultimately show ?thesis by linarith
qed

text \<open>Where the PEs are when none can move.\<close>

lemma stuck_idle:
  assumes "p < n" "wire_step p s = None" "wi_pc s p = Idle" "wi_todo s p \<noteq> []"
  shows "next_accept (wi_todo s p)" "wi_queue s p = []"
  using assms by (auto simp: wire_step_def client_step_def server_step_def
      split: list.splits prod.splits wire_action.splits)

lemma stuck_connected:
  assumes inv: "wire_inv n plan s" and p: "p < n" "wire_step p s = None" "wi_pc s p = Connected y"
  shows "y < n" "p \<in> set (wi_queue s y)" "\<not> wi_byte s y p"
proof -
  have "pc_below n (wi_pc s p)" using wire_invD(1) [OF inv] p(1) by (simp add: all_below_def)
  thus "y < n" using p(3) by simp
  note c = at_clientD [OF wire_invD(2) [OF inv] p(1,3)]
  show b: "\<not> wi_byte s y p" using p c(1) by (auto simp: wire_step_def client_step_def elim!: next_connectE)
  show "p \<in> set (wi_queue s y)" using c(2) b by simp
qed

lemma stuck_serving:
  assumes inv: "wire_inv n plan s" and stuck: "\<And>p. p < n \<Longrightarrow> wire_step p s = None" and p: "p < n"
  shows "wi_pc s p \<noteq> Serving x"
proof
  assume x: "wi_pc s p = Serving x"
  have "pc_below n (wi_pc s p)" using wire_invD(1) [OF inv] p by (simp add: all_below_def)
  hence xn: "x < n" using x by simp
  note c = at_serverD [OF wire_invD(4) [OF inv] p x]
  have "\<not> wi_number s p x" using stuck [OF p] x c(1) by (auto simp: wire_step_def server_step_def elim!: next_acceptE)
  hence "wi_byte s p x" "wi_pc s x = Connected p" using c(2) by auto
  thus False using stuck_connected(3) [OF inv xn stuck [OF xn]] by blast
qed

lemma stuck_not_connected:
  assumes inv: "wire_inv n plan s" and stuck: "\<And>p. p < n \<Longrightarrow> wire_step p s = None" and p: "p < n"
  shows "wi_pc s p \<noteq> Connected y"
proof
  assume y: "wi_pc s p = Connected y"
  text \<open>The PE a client waits for is a client itself, with accepts left: it is odd and at level 0.\<close>
  have up: "\<exists>z. wi_pc s y = Connected z \<and> y < n \<and> y mod 2 = 1 \<and> z mod 2 = 0"
    if w: "p < n" "wi_pc s p = Connected y" for p y
  proof -
    note c = stuck_connected [OF inv w(1) stuck [OF w(1)] w(2)]
    have acc: "0 < accepts (wi_todo s y)"
      using queued_accepts [OF inv c(1)] c(2) by (cases "wi_queue s y") auto
    have "wi_pc s y \<noteq> Idle"
    proof
      assume "wi_pc s y = Idle"
      moreover have "wi_todo s y \<noteq> []" using acc by auto
      ultimately have "wi_queue s y = []" by (rule stuck_idle(2) [OF c(1) stuck [OF c(1)]])
      thus False using c(2) by simp
    qed
    then obtain z where z: "wi_pc s y = Connected z" using stuck_serving [OF inv stuck c(1)] by (cases "wi_pc s y") auto
    obtain l c' d r where todo: "wi_todo s y = (l, Connect z c' d) # r"
      using at_clientD(1) [OF wire_invD(2) [OF inv] c(1) z] by (rule next_connectE)
    have "connects l y z" using todo_target(1) [OF inv c(1), of l z c' d] by (simp add: todo)
    moreover obtain m i where "(m, Accept i) \<in> set r" using acc todo by (auto simp: accepts_pos)
    moreover have "suffix ((l, Connect z c' d) # r) (plan y)" using wire_invD(8) [OF inv] c(1) todo by metis
    ultimately have "connects 0 y z" using connect_first [OF c(1), of l z c' d r m i] by blast
    thus ?thesis using z c(1) by (simp add: connects_def)
  qed
  obtain z where z: "wi_pc s y = Connected z" "y < n" "z mod 2 = 0"
    using up [OF p y] by (elim exE conjE) (rule that)
  have "z mod 2 = 1" using up [OF z(2,1)] by (elim exE conjE)
  thus False using z(3) by simp
qed

lemma all_idle:
  assumes "wire_inv n plan s" and "\<And>p. p < n \<Longrightarrow> wire_step p s = None" and "p < n"
  shows "wi_pc s p = Idle"
  using stuck_not_connected [OF assms] stuck_serving [OF assms] by (cases "wi_pc s p") auto

lemma waiting_for:
  assumes inv: "wire_inv n plan s" and stuck: "\<And>p. p < n \<Longrightarrow> wire_step p s = None"
    and p: "p < n" "wi_todo s p \<noteq> []"
  shows "\<exists>k < n. \<exists>l c d. (l, Connect p c d) \<in> set (wi_todo s k) \<and> 0 < l"
proof -
  have idle: "wi_pc s k = Idle" if "k < n" for k by (rule all_idle [OF inv stuck that])
  have head: "next_accept (wi_todo s k)" "wi_queue s k = []" if "k < n" "wi_todo s k \<noteq> []" for k
    using stuck_idle [OF that(1) stuck [OF that(1)] idle [OF that(1)] that(2)] by simp_all
  have "(\<Sum>k<n. if wi_pc s k = Connected p then 1 else (0::nat)) = 0" using idle by simp
  moreover have "0 < accepts (wi_todo s p)" using head(1) [OF p] by (auto elim!: next_acceptE)
  moreover have "accepts (wi_todo s p) + (\<Sum>k<n. if wi_pc s k = Connected p then 1 else 0) =
      (\<Sum>k<n. connects_to p (wi_todo s k)) + length (wi_queue s p) + (if \<exists>x. wi_pc s p = Serving x then 1 else 0)"
    using wire_invD(6) [OF inv] p(1) unfolding balanced_def by blast
  ultimately have "0 < (\<Sum>k<n. connects_to p (wi_todo s k))" using head(2) [OF p] idle [OF p(1)] by simp
  then obtain k where k: "k < n" "0 < connects_to p (wi_todo s k)"
    by (metis (no_types, lifting) lessThan_iff neq0_conv sum.neutral)
  then obtain l c d where l: "(l, Connect p c d) \<in> set (wi_todo s k)" by (auto simp: connects_to_pos)
  hence "wi_todo s k \<noteq> []" by auto
  then obtain m i r where todo: "wi_todo s k = (m, Accept i) # r" using head(1) [OF k(1)] by (blast elim: next_acceptE)
  moreover have "suffix ((m, Accept i) # r) (plan k)" using wire_invD(8) [OF inv] k(1) todo by metis
  ultimately have "0 < l" using accept_first [OF k(1)] l by auto
  thus ?thesis using k(1) l by blast
qed

lemma progress:
  assumes inv: "wire_inv n plan s" and p: "p < n" "wi_todo s p \<noteq> []"
  shows "\<exists>t. wire_move n s t"
proof (rule ccontr)
  assume "\<nexists>t. wire_move n s t"
  hence stuck: "wire_step k s = None" if "k < n" for k using that by (cases "wire_step k s") (auto simp: wire_move_def)
  let ?P = "\<lambda>l. \<exists>k < n. \<exists>y c d. (l, Connect y c d) \<in> set (wi_todo s k) \<and> 0 < l"
  define l where "l = (LEAST l. ?P l)"
  have ex: "\<exists>l. ?P l" using waiting_for [OF inv stuck p] by blast
  have "?P l" unfolding l_def by (rule LeastI_ex [OF ex])
  then obtain k y c d where k: "k < n" "(l, Connect y c d) \<in> set (wi_todo s k)" "0 < l" by blast
  have "wi_todo s k \<noteq> []" using k(2) by auto
  then obtain k' l' c' d' where k': "k' < n" "(l', Connect k c' d') \<in> set (wi_todo s k')" "0 < l'"
    using waiting_for [OF inv stuck k(1)] by blast
  have le: "l \<le> l'" unfolding l_def by (rule Least_le) (use k' in blast)
  have client: "connects l k y" and server: "connects l' k' k"
    using todo_target(1) [OF inv] k k' by blast+
  have "k mod 2 ^ Suc l' = k mod 2"
    using server k'(3) connects_parity [OF server] by (simp add: connects_def)
  hence "k mod 2 ^ Suc l = k mod 2" by (rule mod_power_less) (use le in simp_all)
  thus False using client k(3) by (simp add: connects_def)
qed

lemma finished:
  assumes inv: "wire_inv n plan s" and empty: "\<forall>p < n. wi_todo s p = []"
    and p: "p < n" "(l, Connect y c d) \<in> set (plan p)"
  shows "wi_socket s p y = Some y \<and> wi_socket s y p = Some p"
proof -
  have r: "wi_socket s p y = Some y \<and> (wi_socket s y p = Some p \<or> wi_number s y p)"
    using wire_invD(7) [OF inv] p empty by (fastforce simp: recorded_def)
  have y: "y < n" using targets [OF p] by simp
  have "\<not> wi_number s y p"
  proof
    assume "wi_number s y p"
    hence "wi_pc s y = Serving p" using wire_invD(5) [OF inv] y by (simp add: on_way_def)
    thus False using at_serverD(1) [OF wire_invD(4) [OF inv] y] empty y by fastforce
  qed
  with r show ?thesis by simp
qed

end

text \<open>Every step takes one from twice the actions left and the PEs between two actions.\<close>

definition wire_work :: "nat \<Rightarrow> wiring \<Rightarrow> nat" where
  "wire_work n s = (\<Sum>p<n. 2 * length (wi_todo s p)) + (\<Sum>p<n. if wi_pc s p = Idle then 1 else 0)"

lemma wire_work_step:
  assumes p: "p < n" and step: "wire_step p s = Some t"
  shows "wire_work n t < wire_work n s"
proof -
  have pc: "(\<Sum>k<n. if ((wi_pc s)(p := v)) k = Idle then 1 else 0) + (if wi_pc s p = Idle then 1 else 0) =
      (\<Sum>k<n. if wi_pc s k = Idle then 1 else 0) + (if v = Idle then 1 else (0::nat))" for v
    by (rule sum_update [where w = "\<lambda>_ c. if c = Idle then 1 else 0", OF p])
  have todo: "(\<Sum>k<n. 2 * length (((wi_todo s)(p := v)) k)) + 2 * length (wi_todo s p) =
      (\<Sum>k<n. 2 * length (wi_todo s k)) + 2 * length v" for v
    by (rule sum_update [where w = "\<lambda>_ t. 2 * length t", OF p])
  obtain l act r where head: "wi_todo s p = (l, act) # r"
    using step by (auto simp: wire_step_def split: list.splits)
  show ?thesis
  proof (cases act)
    case (Connect y c d)
    show ?thesis
      using step head Connect pc [of "Connected y"] pc [of Idle] todo [of r]
      by (auto simp: wire_step_def client_step_def wire_work_def split: wire_pc.splits if_splits)
  next
    case (Accept i)
    show ?thesis
      using step head Accept pc [of "Serving (hd (wi_queue s p))"] pc [of Idle] todo [of r]
      by (cases "wi_queue s p") (auto simp: wire_step_def server_step_def wire_work_def split: wire_pc.splits if_splits list.splits)
  qed
qed

context wiring_plan
begin

lemma completes:
  assumes "wire_inv n plan s"
  shows "inevitable (wire_move n) (\<lambda>t. (\<forall>p < n. wi_todo t p = []) \<and>
    (\<forall>p < n. \<forall>l y c d. (l, Connect y c d) \<in> set (plan p) \<longrightarrow>
      wi_socket t p y = Some y \<and> wi_socket t y p = Some p)) s"
proof (rule inevitable_measure [where Q = "wire_inv n plan" and m = "wire_work n"])
  show "wire_inv n plan u \<and> wire_work n u < wire_work n t" if "wire_inv n plan t" "wire_move n t u" for t u
    using that inv_step wire_work_step unfolding wire_move_def by blast
next
  fix t assume t: "wire_inv n plan t"
    and "\<not> ((\<forall>p < n. wi_todo t p = []) \<and> (\<forall>p < n. \<forall>l y c d. (l, Connect y c d) \<in> set (plan p) \<longrightarrow>
      wi_socket t p y = Some y \<and> wi_socket t y p = Some p))"
  hence "\<not> (\<forall>p < n. wi_todo t p = [])" using finished [OF t] by blast
  thus "\<exists>u. wire_move n t u" using progress [OF t] by blast
qed (rule assms)

end

section \<open>The plan of the code\<close>

text \<open>\<open>host p\<close> is the node PE \<open>p\<close> runs on; the locality maps are filled by it.\<close>

definition wire_plan :: "(nat \<Rightarrow> nat) \<Rightarrow> nat \<Rightarrow> nat \<Rightarrow> (nat \<times> wire_action) list" where
  "wire_plan host n p = comm_remote_wireup (\<lambda>i. host p \<noteq> host i) p n"

lemma wireup_from_level: "a \<in> set (wireup_from remote x n k lv) \<Longrightarrow> lv \<le> fst a"
  by (induction k arbitrary: lv) (fastforce simp: wireup_from_step split: if_splits)+

lemma sorted_wireup_from: "sorted (map fst (wireup_from remote x n k lv))"
proof (induction k arbitrary: lv)
  case (Suc k)
  have "lv \<le> fst a" if "a \<in> set (wireup_from remote x n k (Suc lv))" for a
    using wireup_from_level [OF that] by simp
  with Suc show ?case
    by (auto simp: wireup_from_step sorted_append comp_def map_replicate_const)
qed simp

lemma distinct_actions_at: "distinct (actions_at remote x n l)"
  by (auto simp: actions_at_def wire_client_def wire_server_def distinct_map distinct_strided inj_on_def)

lemma distinct_wireup_from: "distinct (wireup_from remote x n k lv)"
proof (induction k arbitrary: lv)
  case (Suc k)
  have "(lv, a) \<notin> set (wireup_from remote x n k (Suc lv))" for a
    using wireup_from_level [of "(lv, a)" remote x n k "Suc lv"] by auto
  with Suc show ?case by (auto simp: wireup_from_step distinct_map distinct_actions_at inj_on_def)
qed simp

lemma set_wire_plan:
  "(l, Connect y c d) \<in> set (wire_plan host n p) \<longleftrightarrow>
    l < ceil_log2 n \<and> connects l p y \<and> y < n \<and> host p \<noteq> host y \<and> c = PORT_BASE + 2 * y \<and> d = PORT_BASE + 2 * y + 1"
  "(l, Accept x) \<in> set (wire_plan host n p) \<longleftrightarrow> l < ceil_log2 n \<and> connects l x p \<and> x < n \<and> host p \<noteq> host x"
  by (simp_all add: wire_plan_def set_wireup_connect set_wireup_accept)

lemma accepts_card: "distinct as \<Longrightarrow> accepts as = card {(l, x). (l, Accept x) \<in> set as}"
proof (induction as rule: accepts.induct)
  case (2 l x as)
  have "{(m, y). (m, Accept y) \<in> set ((l, Accept x) # as)} = insert (l, x) {(m, y). (m, Accept y) \<in> set as}" by auto
  moreover have "finite {(m, y). (m, Accept y) \<in> set as}"
    by (rule finite_subset [of _ "(\<lambda>(m, a). (m, case a of Accept y \<Rightarrow> y | _ \<Rightarrow> 0)) ` set as"]) force+
  ultimately show ?case using 2 by (simp add: card_insert_if)
qed auto

lemma connects_to_card: "distinct as \<Longrightarrow> connects_to q as = card {(l, c, d). (l, Connect q c d) \<in> set as}"
proof (induction q as rule: connects_to.induct)
  case (3 q l y c d as)
  have "{(m, a, b). (m, Connect q a b) \<in> set ((l, Connect y c d) # as)} =
    (if y = q then insert (l, c, d) else id) {(m, a, b). (m, Connect q a b) \<in> set as}" by auto
  moreover have "finite {(m, a, b). (m, Connect q a b) \<in> set as}"
    by (rule finite_subset [of _ "(\<lambda>(m, a). (m, case a of Connect y c d \<Rightarrow> (c, d) | _ \<Rightarrow> (0, 0))) ` set as"]) force+
  ultimately show ?case using 3 by (auto simp: card_insert_if)
qed (auto simp: card_eq_0_iff)

lemma wire_plan_counts: 
  assumes "q < n"
  shows "accepts (wire_plan host n q) = (\<Sum>p<n. connects_to q (wire_plan host n p))"
proof -
  let ?L = "\<lambda>p. {l. l < ceil_log2 n \<and> connects l p q \<and> host p \<noteq> host q}"
  have dist: "distinct (wire_plan host n p)" for p
    by (simp add: wire_plan_def comm_remote_wireup_def distinct_wireup_from)
  have "connects_to q (wire_plan host n p) = card (?L p)" for p
  proof -
    have "{(l, c, d). (l, Connect q c d) \<in> set (wire_plan host n p)} =
        (\<lambda>l. (l, PORT_BASE + 2 * q, PORT_BASE + 2 * q + 1)) ` ?L p"
      using assms by (auto simp: set_wire_plan)
    thus ?thesis using connects_to_card [OF dist, of q p] by (simp add: card_image inj_on_def)
  qed
  hence "(\<Sum>p<n. connects_to q (wire_plan host n p)) = card (SIGMA p:{..<n}. ?L p)" by simp
  also have "\<dots> = card ((\<lambda>(p, l). (l, p)) ` (SIGMA p:{..<n}. ?L p))" by (rule card_image [symmetric]) (auto simp: inj_on_def)
  also have "(\<lambda>(p, l). (l, p)) ` (SIGMA p:{..<n}. ?L p) = {(l, x). (l, Accept x) \<in> set (wire_plan host n q)}"
    by (auto simp: set_wire_plan image_iff)
  finally show ?thesis using accepts_card [OF dist] by simp
qed

text \<open>A PE is on one side of the loop at a level, and past level 0 a client has no level left.\<close>

lemma connects_server:
  assumes "connects l x p" "connects l p y"
  shows False
proof (cases "l = 0")
  case False
  have "(2 :: nat) \<le> 2 ^ l" using False power_increasing [of 1 l "2 :: nat"] by simp
  moreover have "x mod 2 = p mod 2 + 2 ^ l" using assms False by (simp add: connects_def)
  moreover have "x mod 2 < 2" by simp
  ultimately show False by linarith
qed (use assms in \<open>simp add: connects_def\<close>)

lemma client_last:
  assumes "connects l p y" "connects m x p" "l \<le> m"
  shows "l = 0"
proof (rule ccontr)
  assume l: "l \<noteq> 0"
  have "p mod 2 ^ Suc m = p mod 2" using assms(2,3) l connects_parity [OF assms(2)] by (simp add: connects_def)
  hence "p mod 2 ^ Suc l = p mod 2" by (rule mod_power_less) (use assms(3) in simp_all)
  with assms(1) l show False by (simp add: connects_def)
qed

lemma wire_plan_order:
  assumes "suffix ((l, a) # as) (wire_plan host n p)" and "(m, b) \<in> set as"
  shows "l \<le> m"
proof -
  obtain ys where "wire_plan host n p = ys @ (l, a) # as" using assms(1) by (auto elim: suffixE)
  moreover have "sorted (map fst (wire_plan host n p))"
    by (simp add: wire_plan_def comm_remote_wireup_def sorted_wireup_from)
  ultimately show ?thesis using assms(2) by (force simp: sorted_append)
qed

interpretation wiring: wiring_plan n "wire_plan host n" for n host
proof
  show "connects l p y \<and> y < n" if "p < n" "(l, Connect y c d) \<in> set (wire_plan host n p)" for p l y c d
    using that by (simp add: set_wire_plan)
  show "l = 0" if "p < n" "suffix ((l, Connect y c d) # as) (wire_plan host n p)" "(m, Accept i) \<in> set as"
    for p l y c d as m i
  proof -
    have sub: "set ((l, Connect y c d) # as) \<subseteq> set (wire_plan host n p)" by (rule set_mono_suffix [OF that(2)])
    have "connects l p y" "connects m i p" using sub that(3) set_wire_plan by auto
    thus ?thesis using client_last wire_plan_order [OF that(2,3)] by blast
  qed
  show "0 < l" if "p < n" "suffix ((m, Accept i) # as) (wire_plan host n p)" "(l, Connect y c d) \<in> set as"
    for p m i as l y c d
  proof -
    have sub: "set ((m, Accept i) # as) \<subseteq> set (wire_plan host n p)" by (rule set_mono_suffix [OF that(2)])
    have c: "connects l p y" "connects m i p" using sub that(3) set_wire_plan by auto
    have "m \<le> l" by (rule wire_plan_order [OF that(2,3)])
    moreover have "m \<noteq> l" using connects_server c by blast
    ultimately show ?thesis by simp
  qed
  show "accepts (wire_plan host n q) = (\<Sum>p<n. connects_to q (wire_plan host n p))" if "q < n" for q
    by (rule wire_plan_counts [OF that])
qed

interpretation wiring_inv: inductive_invariant "wire_start (wire_plan host n)" "wire_move n"
    "wire_inv n (wire_plan host n)" for host n
  by unfold_locales (auto simp: wire_move_def intro: wiring.inv_start wiring.inv_step)

section \<open>Properties\<close>

text \<open>
  C13: wiring up never deadlocks and always ends. However the PEs are spread over the nodes
  and however their steps interleave, a state comes in which every PE has finished, and then
  every connection of the plan is stored on both sides, each under the other's number.
\<close>

theorem wireup_completes:
  assumes "reach (wire_start (wire_plan host n)) (wire_move n) s"
  shows "inevitable (wire_move n) (\<lambda>t. (\<forall>p < n. wi_todo t p = []) \<and>
    (\<forall>p < n. \<forall>l y c d. (l, Connect y c d) \<in> set (wire_plan host n p) \<longrightarrow>
      wi_socket t p y = Some y \<and> wi_socket t y p = Some p)) s"
  by (rule wiring.completes [OF wiring_inv.reach_inv [OF assms]])

theorem wireup_completes_witness:
  "\<exists>s. inevitable (wire_move 4) (\<lambda>t. (\<forall>p < 4. wi_todo t p = []) \<and>
    (\<forall>p < 4. \<forall>l y c d. (l, Connect y c d) \<in> set (wire_plan id 4 p) \<longrightarrow>
      wi_socket t p y = Some y \<and> wi_socket t y p = Some p)) s"
proof -
  let ?s = "\<lparr>wi_todo = wire_plan id 4, wi_pc = \<lambda>_. Idle, wi_queue = \<lambda>_. [], wi_byte = \<lambda>_ _. False,
    wi_number = \<lambda>_ _. False, wi_socket = \<lambda>_ _. None\<rparr>"
  have "reach (wire_start (wire_plan id 4)) (wire_move 4) ?s"
    by (rule reach_start) (simp add: wire_start_def)
  from wireup_completes [OF this] show ?thesis by blast
qed

end
