(* ===== verification/Heap_Free.thy ===== *)
theory Heap_Free
  imports Heap_Block
begin

text \<open>
  What becomes of a heap of \<open>memory/heap.c\<close> on which blocks are freed and others allocated.
  \<open>hashmap_remove\<close> takes the entry whose \<^emph>\<open>value\<close> starts at the address, where the entry was
  stored under the address of the block after the value, and \<open>heap_free\<close> leaves the entry of
  the block after the freed one as it is. The theory follows three programs: one frees
  two blocks in turn, one shows that what a later allocation returns depends on the addresses
  at which a process keeps its block descriptors, and one is the test \<open>test/shmem_heap.c\<close>.
\<close>

section \<open>Two allocations\<close>

text \<open>The heap and the store after the second allocation, of block \<open>d\<close> behind block \<open>b\<close>, entered by node \<open>e\<close>.\<close>

definition map_two :: "ptr \<Rightarrow> ptr \<Rightarrow> ptr \<Rightarrow> ptr \<Rightarrow> hashmap_t" where
  "map_two region c key e = (map_one region c)\<lparr>buckets :=
     (buckets (map_one region c))[hash_slot (hashmap_init NUM_BUCKETS) key := e]\<rparr>"

definition heap_two :: "ptr \<Rightarrow> size_t \<Rightarrow> ptr \<Rightarrow> ptr \<Rightarrow> ptr \<Rightarrow> size_t \<Rightarrow> ptr \<Rightarrow> ptr \<Rightarrow> heap_t" where
  "heap_two region sz t b c n d e = (heap_one region sz t b c)\<lparr>h_block_map := map_two region c (region + n) e, h_head := d\<rparr>"

definition store_two :: "cmem \<Rightarrow> block_t \<Rightarrow> ptr \<Rightarrow> ptr \<Rightarrow> ptr \<Rightarrow> block_t \<Rightarrow> ptr \<Rightarrow> ptr \<Rightarrow> block_t \<Rightarrow> (ptr \<times> block_t) list \<Rightarrow> cmem" where
  "store_two st bt t b c bb d e bd rest = (let s = store_one st bt t b c bb rest in
     s\<lparr>blocks := (blocks s)(b \<mapsto> bb\<lparr>b_next := d\<rparr>, d \<mapsto> bd), nodes := (nodes s)(e \<mapsto> \<lparr>n_value = b, n_next = NULL\<rparr>)\<rparr>)"

lemma map_slots:
  assumes "user_ptr region" "user_ptr key"
    and "hash_slot (hashmap_init NUM_BUCKETS) key \<noteq> hash_slot (hashmap_init NUM_BUCKETS) region"
  defines "i \<equiv> hash_slot (hashmap_init NUM_BUCKETS) region" and "j \<equiv> hash_slot (hashmap_init NUM_BUCKETS) key"
  shows "bucket_index (map_one region c) key = Some j" "buckets (map_one region c) ! j = NULL"
    and "bucket_index (map_two region c key e) region = Some i" "buckets (map_two region c key e) ! i = c"
    and "bucket_index ((map_two region c key e)\<lparr>buckets := (buckets (map_two region c key e))[i := x]\<rparr>) key = Some j"
    and "(buckets (map_two region c key e))[i := x] ! j = e" "i < length (buckets (map_two region c key e))"
    and "j < length (buckets (map_two region c key e))"
proof -
  note r = first_slot [OF assms(1)] and k = first_slot [OF assms(2)]
  have same: "bucket_index m a = bucket_index (hashmap_init NUM_BUCKETS) a"
    if "n_buckets m = n_buckets (hashmap_init NUM_BUCKETS)" "length (buckets m) = length (buckets (hashmap_init NUM_BUCKETS))" for m a
    using that by (simp add: bucket_index_def)
  show "bucket_index (map_one region c) key = Some j" "bucket_index (map_two region c key e) region = Some i"
    "bucket_index ((map_two region c key e)\<lparr>buckets := (buckets (map_two region c key e))[i := x]\<rparr>) key = Some j"
    using r(1) k(1) by (subst same; simp add: map_one_def map_two_def i_def j_def)+
  show "buckets (map_one region c) ! j = NULL" "buckets (map_two region c key e) ! i = c"
    "(buckets (map_two region c key e))[i := x] ! j = e" "i < length (buckets (map_two region c key e))"
    "j < length (buckets (map_two region c key e))"
    using assms(3) r(2,3) k(2,3) by (simp_all add: map_one_def map_two_def i_def j_def)
qed

lemma heap_malloc_second:
  assumes f: "fresh st t" "fresh st b" "fresh st c" "fresh st d" "fresh st e" "distinct [t, b, c, d, e]"
    and region: "user_ptr region" "user_ptr (region + n)"
    and slot: "hash_slot (hashmap_init NUM_BUCKETS) (region + n) \<noteq> hash_slot (hashmap_init NUM_BUCKETS) region"
    and m: "k \<le> sz - n" and bb: "bb = \<lparr>b_ptr = region, b_size = n, b_next = NULL\<rparr>"
  shows "heap_malloc (heap_one region sz t b c) (store_one st bt t b c bb ((d, jd) # (e, je) # rest)) k =
    Some (region + n, heap_two region sz t b c n d e,
      store_two st bt t b c bb d e \<lparr>b_ptr = region + n, b_size = k, b_next = NULL\<rparr> rest)"
proof -
  let ?s = "store_one st bt t b c bb ((d, jd) # (e, je) # rest)" and ?h = "heap_one region sz t b c"
  let ?bd = "\<lparr>b_ptr = region + n, b_size = k, b_next = NULL\<rparr>"
  note sl = map_slots [OF region slot]
  from f have nz: "t \<noteq> NULL" "b \<noteq> NULL" "c \<noteq> NULL" "d \<noteq> NULL" "e \<noteq> NULL" by (auto simp: fresh_def)
  from f have new: "blocks st t = None" "blocks st b = None" "blocks st d = None" "nodes st c = None" "nodes st e = None"
    by (simp_all add: fresh_def)
  have ne: "t \<noteq> b" "t \<noteq> d" "b \<noteq> d" "c \<noteq> e" "d \<noteq> c" using f(6) by auto
  define s1 where "s1 = ?s\<lparr>blocks := (blocks ?s)(d \<mapsto> jd), answers := (e, je) # rest\<rparr>"
  define s2 where "s2 = s1\<lparr>blocks := (blocks s1)(d \<mapsto> jd\<lparr>b_size := k\<rparr>)\<rparr>"
  define s4 where "s4 = s2\<lparr>blocks := (blocks s2)(d \<mapsto> ?bd)\<rparr>"
  define s5 where "s5 = s4\<lparr>blocks := (blocks s4)(b \<mapsto> bb\<lparr>b_next := d\<rparr>)\<rparr>"
  have 1: "malloc_block ?s = (d, s1)"
    using f(4) ne by (simp add: malloc_block_def store_one_def s1_def fresh_def)
  have 2: "upd_block s1 d (\<lambda>b. b\<lparr>b_size := k\<rparr>) = Some s2"
    using nz by (simp add: upd_block_def put_block_def blk_def s1_def s2_def)
  have hb: "blk s2 b = Some bb" "blk s2 d = Some (jd\<lparr>b_size := k\<rparr>)" "h_head ?h = b"
    using nz ne by (simp_all add: blk_def s1_def s2_def store_one_def heap_one_def)
  have 3: "heap_search ?h s2 k b = Some b"
    using hb m [THEN leD] by (subst heap_search.simps)
      (simp add: BLOCK_GAP_def BLOCK_END_def bb heap_one_def heap_zero_def algebra_simps)
  have 4: "upd_block s2 d (\<lambda>x. x\<lparr>b_ptr := BLOCK_END bb, b_next := b_next bb\<rparr>) = Some s4"
    using upd_block_Some [OF hb(2)] by (cases jd) (simp add: s4_def BLOCK_END_def bb)
  have hb4: "blk s4 b = Some bb" using hb(1) ne by (simp add: blk_def s4_def split: if_splits)
  have 5: "upd_block s4 b (\<lambda>x. x\<lparr>b_next := d\<rparr>) = Some s5"
    using upd_block_Some [OF hb4] by (simp add: s5_def)
  have b5: "blk s5 d = Some ?bd" using nz ne by (simp add: blk_def s5_def s4_def)
  have e5: "e \<noteq> NULL" "answers s5 = (e, je) # rest" "nodes s5 e = None" "user_ptr e" "blocks s5 e = None"
    using nz f(5,6) by (auto simp: s5_def s4_def s2_def s1_def store_one_def fresh_def)
  let ?s6 = "s5\<lparr>nodes := (nodes s5)(e \<mapsto> \<lparr>n_value = b, n_next = NULL\<rparr>), answers := rest\<rparr>"
  have 6: "hashmap_set (map_one region c) s5 (region + n) b = Some (map_two region c (region + n) e, ?s6)"
    using sl(1,2) e5
    by (simp add: hashmap_set_def hashmap_set_loop.simps malloc_node_def put_node_def node_at_def map_two_def fresh_def)
  have b6: "blk ?s6 d = Some ?bd" using b5 nz by (simp add: blk_def)
  have s6: "?s6 = store_two st bt t b c bb d e ?bd rest"
    using ne by (simp add: s5_def s4_def s2_def s1_def store_two_def store_one_def fun_upd_twist Let_def)
  show ?thesis
    using 1 2 3 4 5 6 [unfolded s6] hb hb4 b5 b6 [unfolded s6] nz
    by (simp add: heap_malloc_def heap_two_def heap_one_def bb)
qed

text \<open>
  Freeing the first block empties its bucket and frees its descriptor, to which the entry of
  the second block still refers.
\<close>

lemma heap_free_first_of_two:
  assumes f: "fresh st t" "fresh st b" "fresh st c" "fresh st d" "fresh st e" "distinct [t, b, c, d, e]"
    and region: "user_ptr region" "user_ptr (region + n)"
    and slot: "hash_slot (hashmap_init NUM_BUCKETS) (region + n) \<noteq> hash_slot (hashmap_init NUM_BUCKETS) region"
    and bt: "b_ptr bt = region"
  shows "\<exists>h' st'. heap_free (heap_two region sz t b c n d e) (store_two st bt t b c bb d e bd rest) region = Some (h', st') \<and>
    heap_free h' st' (region + n) = None"
proof -
  let ?s = "store_two st bt t b c bb d e bd rest" and ?m = "map_two region c (region + n) e"
  let ?i = "hash_slot (hashmap_init NUM_BUCKETS) region"
  note sl = map_slots [OF region slot]
  from f have nz: "t \<noteq> NULL" "b \<noteq> NULL" "c \<noteq> NULL" "d \<noteq> NULL" "e \<noteq> NULL" by (auto simp: fresh_def)
  have ne: "t \<noteq> b" "t \<noteq> d" "b \<noteq> d" "c \<noteq> e" using f(6) by auto
  have blks: "blk ?s t = Some (bt\<lparr>b_next := b\<rparr>)" "blk ?s b = Some (bb\<lparr>b_next := d\<rparr>)"
    "node_at ?s c = Some \<lparr>n_value = t, n_next = NULL\<rparr>" "node_at ?s e = Some \<lparr>n_value = b, n_next = NULL\<rparr>"
    using nz ne by (simp_all add: blk_def node_at_def store_two_def store_one_def Let_def)
  define m where "m = ?m\<lparr>buckets := (buckets ?m)[?i := NULL]\<rparr>"
  define s1 where "s1 = free_node ?s c"
  define s2 where "s2 = s1\<lparr>blocks := (blocks s1)(t \<mapsto> bt\<lparr>b_next := d\<rparr>)\<rparr>"
  have 1: "hashmap_remove ?m ?s region = Some (t, m, s1)"
    using sl(3,4,7) nz blks bt
    by (simp add: hashmap_remove_def hashmap_remove_loop.simps [of ?m ?s region] m_def s1_def)
  have b1: "blk s1 t = Some (bt\<lparr>b_next := b\<rparr>)" "blk s1 b = Some (bb\<lparr>b_next := d\<rparr>)"
    using blks(1,2) nz by (simp_all add: blk_def s1_def free_node_simps)
  have 2: "upd_block s1 t (\<lambda>x. x\<lparr>b_next := d\<rparr>) = Some s2" using upd_block_Some [OF b1(1)] by (simp add: s2_def)
  have b2: "blk s2 b = Some (bb\<lparr>b_next := d\<rparr>)" using b1(2) ne by (simp add: blk_def s2_def split: if_splits)
  define s3 where "s3 = free_block s2 b"
  obtain h' where free: "heap_free (heap_two region sz t b c n d e) ?s region = Some (h', s3)" "h_block_map h' = m"
    using 1 2 b1 b2 nz by (simp add: heap_free_def heap_two_def s3_def)
  have nd: "node_at s3 e = Some \<lparr>n_value = b, n_next = NULL\<rparr>" "blk s3 b = None"
    using blks(4) nz ne by (simp_all add: node_at_def blk_def s3_def s2_def s1_def free_node_simps free_block_simps split: if_splits)
  have "bucket_index m (region + n) = Some (hash_slot (hashmap_init NUM_BUCKETS) (region + n))"
    "buckets m ! hash_slot (hashmap_init NUM_BUCKETS) (region + n) = e"
    "hash_slot (hashmap_init NUM_BUCKETS) (region + n) < length (buckets m)"
    using sl(5,6,8) by (simp_all add: m_def)
  hence "hashmap_remove m s3 (region + n) = None"
    using nz nd by (simp add: hashmap_remove_def hashmap_remove_loop.simps [of m s3 "region + n"])
  hence "heap_free h' s3 (region + n) = None" using free(2) by (simp add: heap_free_def)
  with free(1) show ?thesis by blast
qed

section \<open>Programs on a heap\<close>

text \<open>Calls of a program, with the offset of the block to free, and the addresses they return.\<close>

datatype heap_call = Malloc_call size_t | Free_call size_t

fun heap_calls :: "heap_t \<Rightarrow> cmem \<Rightarrow> heap_call list \<Rightarrow> ptr list option" where
  "heap_calls h st [] = Some []"
| "heap_calls h st (Malloc_call n # cs) = do {
     (r, h, st) \<leftarrow> heap_malloc h st n;
     rs \<leftarrow> heap_calls h st cs;
     Some (r # rs)
   }"
| "heap_calls h st (Free_call off # cs) = do {
     (h, st) \<leftarrow> heap_free h st (h_ptr h + off);
     heap_calls h st cs
   }"

definition heap_program :: "ptr \<Rightarrow> size_t \<Rightarrow> cmem \<Rightarrow> heap_call list \<Rightarrow> ptr list option" where
  "heap_program region sz st cs = do { (h, st) \<leftarrow> heap_init region sz st; heap_calls h st cs }"

text \<open>
  A C store in which \<open>malloc\<close> returns zeroed memory at 64, 128, 192, then at \<open>d\<close> and then at
  other addresses; the fourth request is for the descriptor of the second block.
\<close>

definition store_with :: "ptr \<Rightarrow> cmem" where
  "store_with d = \<lparr>blocks = Map.empty, nodes = Map.empty,
     answers = map (\<lambda>p. (p, \<lparr>b_ptr = NULL, b_size = 0, b_next = NULL\<rparr>))
       ([64, 128, 192, d] @ map (\<lambda>i. 1048576 + of_nat i * 32) [0..<14])\<rparr>"

section \<open>Properties\<close>

text \<open>
  C28: freeing two blocks in the order in which they were allocated is undefined. After
  \<open>p = heap_malloc(n)\<close> and \<open>q = heap_malloc(k)\<close> on a new heap and \<open>heap_free(p)\<close>, the entry under
  \<open>q\<close> refers to the freed descriptor of \<open>p\<close>, and \<open>heap_free(q)\<close> reads it (unless \<open>p\<close> and \<open>q\<close>
  share a bucket of the table).
\<close>

theorem heap_free_in_turn:
  assumes ans: "answers st = (t, jt) # (b, jb) # (c, jc) # (d, jd) # (e, je) # rest" "b_next jt = NULL"
    and room: "room st 5" and region: "user_ptr region" "user_ptr (region + n)"
    and fit: "n \<le> sz" "k \<le> sz - n"
    and slot: "hash_slot (hashmap_init NUM_BUCKETS) (region + n) \<noteq> hash_slot (hashmap_init NUM_BUCKETS) region"
  shows "\<exists>h0 st0 h1 st1 h2 st2 h3 st3. heap_init region sz st = Some (h0, st0) \<and>
    heap_malloc h0 st0 n = Some (region, h1, st1) \<and> heap_malloc h1 st1 k = Some (region + n, h2, st2) \<and>
    heap_free h2 st2 region = Some (h3, st3) \<and> heap_free h3 st3 (region + n) = None"
proof -
  have f: "fresh st t" "fresh st b" "fresh st c" "fresh st d" "fresh st e" "distinct [t, b, c, d, e]"
    using room ans(1) by (auto simp: room_def list_all_iff eval_nat_numeral)
  let ?bt = "jt\<lparr>b_ptr := region, b_size := 0\<rparr>" and ?bb = "\<lparr>b_ptr = region, b_size = n, b_next = NULL\<rparr>"
  let ?st0 = "st\<lparr>blocks := (blocks st)(t \<mapsto> ?bt), answers := (b, jb) # (c, jc) # (d, jd) # (e, je) # rest\<rparr>"
  have "heap_init region sz st = Some (heap_zero region sz t, ?st0)"
    using ans(1) f(1)
    by (auto simp: heap_init_def malloc_block_def upd_block_def put_block_def blk_def heap_zero_def fresh_def)
  moreover have "heap_malloc (heap_zero region sz t) ?st0 n = Some (region, heap_one region sz t b c,
      store_one st ?bt t b c ?bb ((d, jd) # (e, je) # rest))"
    by (rule heap_malloc_first) (use f region(1) fit(1) ans(2) in auto)
  moreover note heap_malloc_second [OF f region slot fit(2) refl, of ?bt jd je rest]
  moreover note heap_free_first_of_two [OF f region slot, of ?bt sz ?bb "\<lparr>b_ptr = region + n, b_size = k, b_next = NULL\<rparr>" rest]
  ultimately show ?thesis by fastforce
qed

theorem heap_free_in_turn_witness:
  "\<exists>h0 st0 h1 st1 h2 st2 h3 st3. heap_init 4096 1024 demo_mem = Some (h0, st0) \<and>
    heap_malloc h0 st0 16 = Some (4096, h1, st1) \<and> heap_malloc h1 st1 32 = Some (4112, h2, st2) \<and>
    heap_free h2 st2 4096 = Some (h3, st3) \<and> heap_free h3 st3 4112 = None"
proof -
  have ans: "answers demo_mem = (64, \<lparr>b_ptr = NULL, b_size = 0, b_next = NULL\<rparr>) # (128, \<lparr>b_ptr = NULL, b_size = 0, b_next = NULL\<rparr>) #
    (192, \<lparr>b_ptr = NULL, b_size = 0, b_next = NULL\<rparr>) # (256, \<lparr>b_ptr = NULL, b_size = 0, b_next = NULL\<rparr>) #
    (320, \<lparr>b_ptr = NULL, b_size = 0, b_next = NULL\<rparr>) # drop 5 (answers demo_mem)"
    by (simp add: demo_mem_def)
  have "hash_slot (hashmap_init NUM_BUCKETS) (4096 + 16) \<noteq> hash_slot (hashmap_init NUM_BUCKETS) 4096" by code_simp
  from heap_free_in_turn [OF ans _ _ _ _ _ _ this, of 1024 32] room_demo show ?thesis by (simp add: user_ptr_def)
qed

text \<open>
  After \<open>heap_free\<close> the heap is neither symmetric nor safe. Two processes whose heaps lie
  at the same address make the same calls; they differ in the address at which \<open>malloc\<close> put
  one block descriptor. In the first, that address falls into the bucket of the block freed
  last, \<open>heap_free\<close> releases the block behind it, which is still in use at offsets 16 to 31,
  and the last allocation returns offset 12 for 16 bytes. In the second it returns \<open>NULL\<close>.
\<close>

theorem heap_free_breaks_symmetry:
  "room (store_with 24560) 18 \<and> room (store_with 24576) 18 \<and>
   heap_program 4190208 1024 (store_with 24560)
     [Malloc_call 16, Malloc_call 16, Malloc_call 992, Free_call 0, Malloc_call 8, Malloc_call 4, Free_call 8, Malloc_call 16] =
     Some (map (\<lambda>off. 4190208 + off) [0, 16, 32, 0, 8, 12]) \<and>
   heap_program 4190208 1024 (store_with 24576)
     [Malloc_call 16, Malloc_call 16, Malloc_call 992, Free_call 0, Malloc_call 8, Malloc_call 4, Free_call 8, Malloc_call 16] =
     Some (map (\<lambda>off. 4190208 + off) [0, 16, 32, 0, 8] @ [NULL])"
proof (intro conjI)
  show "room (store_with 24560) 18" "room (store_with 24576) 18"
    by (simp_all add: room_def fresh_def store_with_def user_ptr_def upt_rec)
qed code_simp+

section \<open>The test of the heap\<close>

text \<open>
  \<open>test/shmem_heap.c\<close>: it allocates a byte, an integer, a byte and the rest of a heap of 1024
  bytes, one byte more, frees the first byte and the integer and allocates each of them again.
\<close>

definition heap_test :: "heap_call list" where
  "heap_test = [Malloc_call 1, Malloc_call 4, Malloc_call 1, Malloc_call 1018, Malloc_call 1,
     Free_call 0, Malloc_call 1, Free_call 1, Malloc_call 4]"

text \<open>Zeroed memory at the addresses \<open>1048576 + 32 * i\<close>, for the numbers \<open>i\<close> in a list.\<close>

definition store_at_slots :: "nat list \<Rightarrow> cmem" where
  "store_at_slots xs = \<lparr>blocks = Map.empty, nodes = Map.empty,
     answers = map (\<lambda>i. (1048576 + of_nat i * 32, \<lparr>b_ptr = NULL, b_size = 0, b_next = NULL\<rparr>)) xs\<rparr>"

text \<open>
  The test does not pass. When \<open>malloc\<close> hands out the memory of the freed descriptor and node
  again, as allocators do that reuse what was freed last, the integer is not freed, and the
  last allocation returns \<open>NULL\<close> where the test expects the address of the integer. When
  \<open>malloc\<close> does not, freeing the integer reads the freed descriptor.
\<close>

theorem heap_test_fails:
  "heap_program 4190208 1024 (store_at_slots [0, 1, 2, 3, 4, 5, 6, 7, 8, 9, 1, 2, 10, 11, 12]) heap_test =
     Some (map (\<lambda>off. 4190208 + off) [0, 1, 5, 6] @ [NULL, 4190208, NULL]) \<and>
   heap_program 4190208 1024 (store_at_slots [0, 1, 2, 3, 4, 5, 6, 7, 8, 9, 10, 11, 12, 13, 14]) heap_test = None"
  by (rule conjI; code_simp)

end
