(* ===== verification/Job.thy ===== *)
theory Job
  imports Fifo
begin

text \<open>
  \<open>job/job.c\<close>: starting a handler in a thread of its own, waiting for its result, cancelling
  it. No other part of the library uses these wrappers. A thread is known to the system under
  a number and runs until it returns or, when that was requested, is cancelled; joining it
  waits for that. What \<open>malloc\<close> and \<open>pthread_create\<close> answer are lists.
\<close>

section \<open>Definitions\<close>

text \<open>\<open>job_t\<close>; \<open>None\<close> is a field that was never stored.\<close>

record job_t =
  jb_args :: "ptr option"
  jb_thread_id :: "nat option"

text \<open>A running thread has its handler, its argument and whether its cancellation was requested.\<close>

datatype thread = Running "ptr \<Rightarrow> ptr" ptr bool | Ended ptr | Joined

record threads =
  th_jobs :: "ptr \<Rightarrow> job_t option"
  th_table :: "nat \<Rightarrow> thread option"
  th_malloc :: "ptr list"
  th_create :: "nat option list"

definition PTHREAD_CANCELED :: ptr where "PTHREAD_CANCELED = - 1"

text \<open>A call that may have to wait.\<close>

datatype 'a call = Blocks | Returns 'a

text \<open>The number of a new thread, \<open>None\<close> when it cannot be created; never one in use.\<close>

definition pthread_create :: "(ptr \<Rightarrow> ptr) \<Rightarrow> ptr \<Rightarrow> threads \<Rightarrow> nat option \<times> threads" where
  "pthread_create handler args s = (case th_create s of
     Some i # ts \<Rightarrow> if th_table s i \<noteq> None then (None, s\<lparr>th_create := ts\<rparr>)
       else (Some i, s\<lparr>th_create := ts, th_table := (th_table s)(i \<mapsto> Running handler args False)\<rparr>)
   | _ \<Rightarrow> (None, s\<lparr>th_create := tl (th_create s)\<rparr>))"

text \<open>
  \<open>args\<close> is not stored, and the answer of \<open>pthread_create\<close> not tested: the number stays unset
  when it fails.
\<close>

definition job_start :: "(ptr \<Rightarrow> ptr) \<Rightarrow> ptr \<Rightarrow> threads \<Rightarrow> (ptr \<times> threads) option" where
  "job_start handler args s =
     (let (job, rest) = take_answer (\<lambda>p. th_jobs s p \<noteq> None) (th_malloc s)
      in if job = NULL then None
         else let (t, s) = pthread_create handler args (s\<lparr>th_malloc := rest\<rparr>)
              in Some (job, s\<lparr>th_jobs := (th_jobs s)(job \<mapsto> \<lparr>jb_args = None, jb_thread_id = t\<rparr>)\<rparr>))"

text \<open>The number of a job's thread and the thread.\<close>

definition job_thread :: "ptr \<Rightarrow> threads \<Rightarrow> (nat \<times> thread) option" where
  "job_thread job s = do {
     j \<leftarrow> th_jobs s job;
     i \<leftarrow> jb_thread_id j;
     t \<leftarrow> th_table s i;
     Some (i, t)
   }"

text \<open>\<open>pthread_join\<close>; a thread can be joined once.\<close>

definition job_wait :: "ptr \<Rightarrow> threads \<Rightarrow> (ptr \<times> threads) call option" where
  "job_wait job s = do {
     (i, t) \<leftarrow> job_thread job s;
     (case t of
        Running h a c \<Rightarrow> Some Blocks
      | Ended r \<Rightarrow> Some (Returns (r, s\<lparr>th_table := (th_table s)(i \<mapsto> Joined)\<rparr>))
      | Joined \<Rightarrow> None)
   }"

text \<open>\<open>pthread_cancel\<close> requests the cancellation; a thread that has ended is not changed.\<close>

definition job_terminate :: "ptr \<Rightarrow> threads \<Rightarrow> threads option" where
  "job_terminate job s = do {
     (i, t) \<leftarrow> job_thread job s;
     (case t of
        Running h a c \<Rightarrow> Some (s\<lparr>th_table := (th_table s)(i \<mapsto> Running h a True)\<rparr>)
      | Ended r \<Rightarrow> Some s
      | Joined \<Rightarrow> None)
   }"

definition job_free :: "ptr \<Rightarrow> threads \<Rightarrow> threads option" where
  "job_free job s =
     (if job = NULL then Some s
      else if th_jobs s job = None then None
      else Some (s\<lparr>th_jobs := (th_jobs s)(job := None)\<rparr>))"

text \<open>A thread ends: its handler returns, or it is cancelled.\<close>

inductive thread_step :: "threads \<Rightarrow> threads \<Rightarrow> bool" where
  th_return: "th_table s i = Some (Running h a c) \<Longrightarrow>
    thread_step s (s\<lparr>th_table := (th_table s)(i \<mapsto> Ended (h a))\<rparr>)"
| th_cancel: "th_table s i = Some (Running h a True) \<Longrightarrow>
    thread_step s (s\<lparr>th_table := (th_table s)(i \<mapsto> Ended PTHREAD_CANCELED)\<rparr>)"

section \<open>Lemmas\<close>

definition running :: "threads \<Rightarrow> nat set" where
  "running s = {i. \<exists>h a c. th_table s i = Some (Running h a c)}"

lemma job_start_thread:
  assumes "job_start h a s = Some (job, t)" and "th_create s = Some i # ts" and "th_table s i = None"
  shows "job_thread job t = Some (i, Running h a False) \<and> running t = insert i (running s)"
  using assms
  by (auto simp: job_start_def pthread_create_def job_thread_def running_def Let_def split: prod.splits if_splits)

text \<open>What a job's thread can have come to, when its cancellation was requested or not.\<close>

definition outcome :: "(ptr \<Rightarrow> ptr) \<Rightarrow> ptr \<Rightarrow> bool \<Rightarrow> thread \<Rightarrow> bool" where
  "outcome h a c t \<longleftrightarrow> t = Running h a c \<or> t = Ended (h a) \<or> c \<and> t = Ended PTHREAD_CANCELED"

lemma thread_step_outcome:
  assumes "thread_step s t" and "job_thread job s = Some (i, x)" and "outcome h a c x"
  shows "\<exists>y. job_thread job t = Some (i, y) \<and> outcome h a c y"
  using assms by cases (auto simp: job_thread_def outcome_def bind_eq_Some_conv)

lemma running_end:
  assumes "th_table s i = Some (Running h a c)"
  shows "i \<in> running s" and "running (s\<lparr>th_table := (th_table s)(i \<mapsto> Ended r)\<rparr>) = running s - {i}"
  using assms by (auto simp: running_def split: if_splits)

lemma thread_step_running:
  assumes "thread_step s t" and fin: "finite (running s)"
  shows "finite (running t) \<and> card (running t) < card (running s)"
proof -
  obtain i where i: "i \<in> running s" "running t = running s - {i}"
    using assms(1) running_end by cases blast+
  with fin show ?thesis by (metis card_Diff1_less finite_Diff)
qed

lemma job_inevitable:
  assumes "job_thread job s = Some (i, x)" and "outcome h a c x" and "finite (running s)"
  shows "inevitable thread_step (\<lambda>t. \<exists>r u. job_wait job t = Some (Returns (r, u)) \<and>
    (r = h a \<or> c \<and> r = PTHREAD_CANCELED)) s"
proof (rule inevitable_measure [where m = "\<lambda>s. card (running s)"
      and Q = "\<lambda>s. (\<exists>x. job_thread job s = Some (i, x) \<and> outcome h a c x) \<and> finite (running s)"])
  fix s t assume "(\<exists>x. job_thread job s = Some (i, x) \<and> outcome h a c x) \<and> finite (running s)" "thread_step s t"
  thus "((\<exists>x. job_thread job t = Some (i, x) \<and> outcome h a c x) \<and> finite (running t)) \<and>
      card (running t) < card (running s)"
    using thread_step_outcome thread_step_running by metis
next
  fix s assume "(\<exists>x. job_thread job s = Some (i, x) \<and> outcome h a c x) \<and> finite (running s)"
    and no: "\<not> (\<exists>r u. job_wait job s = Some (Returns (r, u)) \<and> (r = h a \<or> c \<and> r = PTHREAD_CANCELED))"
  then obtain x where x: "job_thread job s = Some (i, x)" "outcome h a c x" by blast
  hence "x = Running h a c" using no by (auto simp: outcome_def job_wait_def)
  hence "th_table s i = Some (Running h a c)" using x(1) by (auto simp: job_thread_def bind_eq_Some_conv)
  thus "\<exists>t. thread_step s t" by (blast intro: th_return)
qed (use assms in blast)

section \<open>Properties\<close>

text \<open>
  A started job ends, and waiting for it then returns what its handler returns for the
  arguments; after \<open>job_terminate\<close> it can be \<open>PTHREAD_CANCELED\<close> instead.
\<close>

theorem job_wait_result:
  assumes "job_start h a s = Some (job, t)" and "th_create s = Some i # ts" "th_table s i = None" "finite (running s)"
  shows "job_wait job t = Some Blocks \<and>
    inevitable thread_step (\<lambda>u. \<exists>v. job_wait job u = Some (Returns (h a, v))) t"
proof
  note j = job_start_thread [OF assms(1-3)]
  show "job_wait job t = Some Blocks" using j by (simp add: job_wait_def)
  show "inevitable thread_step (\<lambda>u. \<exists>v. job_wait job u = Some (Returns (h a, v))) t"
    using job_inevitable [of job t i _ h a False] j assms(4) by (auto simp: outcome_def)
qed

theorem job_terminate_result:
  assumes "job_start h a s = Some (job, t)" and "th_create s = Some i # ts" "th_table s i = None" "finite (running s)"
  shows "\<exists>u. job_terminate job t = Some u \<and> inevitable thread_step
    (\<lambda>v. \<exists>r w. job_wait job v = Some (Returns (r, w)) \<and> (r = h a \<or> r = PTHREAD_CANCELED)) u"
proof -
  note j = job_start_thread [OF assms(1-3)]
  let ?u = "t\<lparr>th_table := (th_table t)(i \<mapsto> Running h a True)\<rparr>"
  have "job_thread job ?u = Some (i, Running h a True)"
    using j by (auto simp: job_thread_def bind_eq_Some_conv)
  moreover have "running ?u = running t" using j by (auto simp: running_def)
  ultimately show ?thesis
    using job_inevitable [of job ?u i "Running h a True" h a True] j assms(4)
    by (auto simp: job_terminate_def outcome_def)
qed

text \<open>When the thread cannot be created, the job is returned like any other, but waiting for it is undefined.\<close>

theorem job_start_failure:
  assumes "job_start h a s = Some (job, t)" and "th_create s = None # ts"
  shows "job_wait job t = None"
  using assms
  by (auto simp: job_start_def pthread_create_def job_wait_def job_thread_def Let_def split: prod.splits if_splits)

text \<open>A job is waited for once.\<close>

theorem job_wait_twice:
  "job_wait job s = Some (Returns (r, t)) \<Longrightarrow> job_wait job t = None"
  by (cases "job_thread job s"; cases "snd (the (job_thread job s))")
    (auto simp: job_wait_def job_thread_def bind_eq_Some_conv)

theorem job_wait_result_witness:
  "\<exists>t. job_start (\<lambda>x. x + 1) 5 \<lparr>th_jobs = Map.empty, th_table = Map.empty, th_malloc = [64], th_create = [Some 0]\<rparr> =
    Some (64, t) \<and> inevitable thread_step (\<lambda>u. \<exists>v. job_wait 64 u = Some (Returns (6, v))) t"
proof -
  let ?s = "\<lparr>th_jobs = Map.empty, th_table = Map.empty, th_malloc = [64], th_create = [Some 0]\<rparr>"
  have "user_ptr 64" by (rule user_ptrI) simp_all
  then obtain t where t: "job_start (\<lambda>x. x + 1) 5 ?s = Some (64, t)"
    by (auto simp: job_start_def pthread_create_def Let_def)
  have "finite (running ?s)" by (simp add: running_def)
  with job_wait_result [OF t, of 0 "[]"] t show ?thesis by simp
qed

end
