(* ===== verification/Ring.thy ===== *)
theory Ring
  imports Pipeline
begin

text \<open>
  The program of \<open>test/shmem_ring.c\<close>, run by all PEs over the real queues of \<open>Pipeline\<close>: a
  token goes once around the PEs. It shows what the barrier and the puts give a client, all
  parts together. The stores of 0 are ordered before the puts of 1 by the barrier between
  them, so no token is lost; every put is delivered by the threads, so nobody waits for ever.
  The steps go from the barrier of \<open>shmem_malloc\<close> up to the call of \<open>shmem_finalize\<close>, which is
  left out, over the queues and sockets of \<open>Pipeline\<close>, which lose nothing.

  The program only uses connections that the wire-up makes for any number of PEs: those of
  PE 0 and of each PE with the next (\<open>Wireup\<close>).

  A step is one access of a PE to its token, a put, or a step in a barrier. The test of the
  token reads memory each time: a compiler is taken not to hoist it out of the loop, although
  \<open>token\<close> is not volatile. \<open>printf\<close> and \<open>sleep\<close> are left out.
\<close>

section \<open>Definitions\<close>

text \<open>
  Where a PE is: about to enter its barrier number \<open>k\<close> (that of \<open>shmem_malloc\<close>, then the two
  of the program), in it, at the store of 0, at the put, in the loop, at \<open>shmem_finalize\<close>.
\<close>

datatype ring_pc = At_barrier nat | Within nat | Zero | Put_token | Spin | Final

record ring =
  rg_pipe :: pipeline
  rg_pc :: "nat \<Rightarrow> ring_pc"

definition ring_goto :: "nat \<Rightarrow> ring_pc \<Rightarrow> ring \<Rightarrow> ring" where
  "ring_goto p c s = s\<lparr>rg_pc := (rg_pc s)(p := c)\<rparr>"

definition ring_token :: "nat \<Rightarrow> nat \<Rightarrow> pipeline \<Rightarrow> byte list" where
  "ring_token tok p s = map (pl_heap s p) [tok ..< tok + 4]"

text \<open>\<open>target\<close>, and what follows a barrier.\<close>

definition ring_target :: "nat \<Rightarrow> nat \<Rightarrow> nat" where
  "ring_target n p = (p + 1) mod n"

definition ring_after :: "nat \<Rightarrow> nat \<Rightarrow> ring_pc" where
  "ring_after p k = (if k = 0 then Zero else if k = 1 then if p = 0 then Put_token else Spin else Final)"

text \<open>
  One step of PE \<open>p\<close>, whose token is at the offset \<open>tok\<close> of its heap. The store of 0 has the
  effect of a put to the PE itself.
\<close>

definition ring_turn :: "nat \<Rightarrow> (nat \<Rightarrow> nat \<Rightarrow> bool) \<Rightarrow> nat \<Rightarrow> nat \<Rightarrow> ring \<Rightarrow> ring option" where
  "ring_turn n loc tok p s = (let pl = rg_pipe s in
     case rg_pc s p of
       At_barrier k \<Rightarrow> Some (ring_goto p (Within k) (s\<lparr>rg_pipe := pl\<lparr>pl_bar := enter_barrier p (pl_bar pl)\<rparr>\<rparr>))
     | Within k \<Rightarrow>
         (case comm_barrier_all n loc p (pl_bar pl) of
            None \<Rightarrow> Some (ring_goto p (ring_after p k) s)
          | Some b \<Rightarrow> Some (s\<lparr>rg_pipe := pipe_run n loc p b pl\<rparr>))
     | Zero \<Rightarrow> Some (ring_goto p (At_barrier 1) (s\<lparr>rg_pipe := pipe_put loc p p tok (bytes_of_nat 4 0) pl\<rparr>))
     | Put_token \<Rightarrow> Some (ring_goto p (if p = 0 then Spin else At_barrier 2)
         (s\<lparr>rg_pipe := pipe_put loc p (ring_target n p) tok (bytes_of_nat 4 1) pl\<rparr>))
     | Spin \<Rightarrow> Some (if nat_of_bytes (ring_token tok p pl) = 0 then s
         else ring_goto p (if p = 0 then At_barrier 2 else Put_token) s)
     | Final \<Rightarrow> None)"

inductive ring_step :: "nat \<Rightarrow> (nat \<Rightarrow> nat \<Rightarrow> bool) \<Rightarrow> nat \<Rightarrow> ring \<Rightarrow> ring \<Rightarrow> bool" for n loc tok where
  rg_turn: "p < n \<Longrightarrow> ring_turn n loc tok p s = Some t \<Longrightarrow> t \<noteq> s \<Longrightarrow> ring_step n loc tok s t"
| rg_move: "pipe_move n (rg_pipe s) pl \<Longrightarrow> ring_step n loc tok s (s\<lparr>rg_pipe := pl\<rparr>)"

definition ring_start :: "nat \<Rightarrow> ring \<Rightarrow> bool" where
  "ring_start n s \<longleftrightarrow> pipe_start n (rg_pipe s) \<and> rg_pc s = (\<lambda>_. At_barrier 0)"

section \<open>The invariant\<close>

fun entered_at :: "ring_pc \<Rightarrow> nat" where
  "entered_at (At_barrier k) = k"
| "entered_at (Within k) = Suc k"
| "entered_at Zero = 1"
| "entered_at Put_token = 2"
| "entered_at Spin = 2"
| "entered_at Final = 3"

text \<open>Whether a PE has stored 0, has put the token and has received it.\<close>

definition has_zeroed :: "ring_pc \<Rightarrow> bool" where
  "has_zeroed c \<longleftrightarrow> c \<notin> {At_barrier 0, Within 0, Zero}"

definition has_put :: "nat \<Rightarrow> ring_pc \<Rightarrow> bool" where
  "has_put p c \<longleftrightarrow> c \<in> {At_barrier 2, Within 2, Final} \<or> p = 0 \<and> c = Spin"

definition has_token :: "nat \<Rightarrow> ring_pc \<Rightarrow> bool" where
  "has_token p c \<longleftrightarrow> c \<in> {At_barrier 2, Within 2, Final} \<or> p \<noteq> 0 \<and> c = Put_token"

lemmas ring_flags = has_zeroed_def has_put_def has_token_def

definition pc_fits :: "barrier \<Rightarrow> nat \<Rightarrow> ring_pc \<Rightarrow> bool" where
  "pc_fits b p c \<longleftrightarrow> bar_entered b p = entered_at c \<and> (bar_pc b p = Outside \<or> (\<exists>k. c = Within k)) \<and>
     (\<forall>k. c = At_barrier k \<or> c = Within k \<longrightarrow> k \<le> 2)"

text \<open>What PE \<open>p\<close> has put to PE \<open>d\<close>.\<close>

definition ring_puts :: "nat \<Rightarrow> nat \<Rightarrow> nat \<Rightarrow> nat \<Rightarrow> ring_pc \<Rightarrow> (nat \<times> nat \<times> byte list) list" where
  "ring_puts n tok p d c = (if d = p \<and> has_zeroed c then [(1, tok, bytes_of_nat 4 0)] else []) @
     (if d = ring_target n p \<and> has_put p c then [(2, tok, bytes_of_nat 4 1)] else [])"

definition token_ok :: "nat \<Rightarrow> nat \<Rightarrow> ring \<Rightarrow> nat \<Rightarrow> bool" where
  "token_ok n tok s d \<longleftrightarrow> (let v = ring_token tok d (rg_pipe s) in
     (has_zeroed (rg_pc s d) \<longrightarrow> v \<in> {bytes_of_nat 4 0, bytes_of_nat 4 1}) \<and>
     (has_token d (rg_pc s d) \<longrightarrow> v = bytes_of_nat 4 1) \<and>
     (\<forall>q < n. d = ring_target n q \<and> has_put q (rg_pc s q) \<and>
        User 2 tok (bytes_of_nat 4 1) \<notin> set (pipe_way (rg_pipe s) q d) \<longrightarrow> v = bytes_of_nat 4 1))"

definition ring_inv :: "nat \<Rightarrow> (nat \<Rightarrow> nat \<Rightarrow> bool) \<Rightarrow> nat \<Rightarrow> ring \<Rightarrow> bool" where
  "ring_inv n loc tok s \<longleftrightarrow> reach (pipe_start n) (pipe_step n loc) (rg_pipe s) \<and>
     (\<forall>p < n. pc_fits (pl_bar (rg_pipe s)) p (rg_pc s p)) \<and>
     (\<forall>p < n. \<forall>d < n. pl_made (rg_pipe s) p d = ring_puts n tok p d (rg_pc s p)) \<and>
     (\<forall>d < n. token_ok n tok s d)"

lemma ring_target_less: "p < n \<Longrightarrow> ring_target n p < n"
  by (simp add: ring_target_def)

lemma ring_target_inj: "p < n \<Longrightarrow> q < n \<Longrightarrow> ring_target n p = ring_target n q \<Longrightarrow> p = q"
  by (auto simp: ring_target_def mod_Suc split: if_splits)

lemma ring_bytes: "nat_of_bytes (bytes_of_nat 4 0) = 0" "nat_of_bytes (bytes_of_nat 4 1) = 1" "length (bytes_of_nat 4 x) = 4"
  by (simp_all add: nat_of_bytes_of_nat)

lemma ring_invD:
  assumes "ring_inv n loc tok s"
  shows "reach (pipe_start n) (pipe_step n loc) (rg_pipe s)"
    and "p < n \<Longrightarrow> pc_fits (pl_bar (rg_pipe s)) p (rg_pc s p)"
    and "p < n \<Longrightarrow> d < n \<Longrightarrow> pl_made (rg_pipe s) p d = ring_puts n tok p d (rg_pc s p)"
    and "d < n \<Longrightarrow> token_ok n tok s d"
  using assms unfolding ring_inv_def by blast+

lemma ring_delivery:
  assumes "ring_inv n loc tok s"
  shows "dl_inv n loc (pipe_abs (rg_pipe s))" and "bar_inv n (pl_bar (rg_pipe s))"
    and "pipe_inv n (rg_pipe s)"
proof -
  note r = ring_invD(1) [OF assms]
  show inv: "dl_inv n loc (pipe_abs (rg_pipe s))" by (rule delivery.reach_inv [OF pipeline.reach_abs [OF r]])
  show "bar_inv n (pl_bar (rg_pipe s))" using dl_invD(1) [OF inv] by (simp add: pipe_abs_def)
  show "pipe_inv n (rg_pipe s)" by (rule pipeline.reach_inv [OF r])
qed

text \<open>What is on the way from one PE to another of the program is the token.\<close>

lemma on_way:
  assumes inv: "ring_inv n loc tok s" and loc: "\<And>q. loc q q" and pd: "p < n" "d < n"
    and way: "User e a v \<in> set (pipe_way (rg_pipe s) p d)"
  shows "e = 2" "a = tok" "v = bytes_of_nat 4 1" "d = ring_target n p" "has_put p (rg_pc s p)"
proof -
  note dl = ring_delivery(1) [OF inv]
  have w: "User e a v \<in> set (dl_way (pipe_abs (rg_pipe s)) p d)" using way by (simp add: pipe_abs_def)
  have "\<not> loc p d" using dl_invD(2) [OF dl pd] w by (auto simp: way_ok_def)
  hence "p \<noteq> d" using loc by metis
  moreover have "(e, a, v) \<in> set (ring_puts n tok p d (rg_pc s p))"
    using dl_invD(3) [OF dl pd] w ring_invD(3) [OF inv pd] by (simp add: kept_def pipe_abs_def)
  ultimately show "e = 2" "a = tok" "v = bytes_of_nat 4 1" "d = ring_target n p" "has_put p (rg_pc s p)"
    by (auto simp: ring_puts_def split: if_splits)
qed

text \<open>A PE that has put the token, or received it, has left the first barrier of the program.\<close>

lemma left_two:
  assumes inv: "ring_inv n loc tok s" and p: "p < n" and c: "has_put p (rg_pc s p) \<or> has_token p (rg_pc s p)"
  shows "2 \<le> bar_left (pl_bar (rg_pipe s)) p"
  using ring_invD(2) [OF inv p] bar_invD(3) [OF ring_delivery(2) [OF inv] p] c
  by (auto simp: pc_fits_def ring_flags split: if_splits)

lemma zeroed_before:
  assumes inv: "ring_inv n loc tok s" and pd: "p < n" "d < n"
    and c: "has_put p (rg_pc s p) \<or> has_token p (rg_pc s p)"
  shows "has_zeroed (rg_pc s d)"
  using left_two [OF inv pd(1) c] bar_inv_left_entered [OF ring_delivery(2) [OF inv] pd] ring_invD(2) [OF inv pd(2)]
  by (auto simp: pc_fits_def has_zeroed_def)

section \<open>Every step keeps it\<close>

lemma set_cells_other: "b \<notin> fst ` set xs \<Longrightarrow> set_cells xs h b = h b"
  by (induction xs arbitrary: h) (auto simp: set_cells_simps)

lemma set_cells_bytes: "map (set_cells (put_cells off bs) h) [off ..< off + length bs] = bs"
proof (induction bs arbitrary: off h)
  case (Cons v bs)
  have c: "put_cells off (v # bs) = (off, v) # put_cells (Suc off) bs"
    by (simp add: put_cells_def upt_conv_Cons del: upt_Suc)
  have "off \<notin> fst ` set (put_cells (Suc off) bs)" by (auto simp: put_cells_iff)
  hence "set_cells (put_cells off (v # bs)) h off = v" by (simp add: c set_cells_simps set_cells_other)
  moreover have "map (set_cells (put_cells off (v # bs)) h) [Suc off ..< Suc off + length bs] = bs"
    unfolding c set_cells_simps by (rule Cons.IH)
  ultimately show ?case by (simp add: upt_conv_Cons del: upt_Suc)
qed simp

lemma token_store:
  assumes "length bs = 4"
  shows "ring_token tok q (pipe_store d tok bs s) = (if q = d then bs else ring_token tok q s)"
  using set_cells_bytes [of tok bs "pl_heap s d"] assms by (simp add: ring_token_def pipe_store_def)

lemma token_ok_keep:
  assumes "token_ok n tok s d" and "ring_token tok d (rg_pipe t) = ring_token tok d (rg_pipe s)"
    and "has_zeroed (rg_pc t d) \<Longrightarrow> has_zeroed (rg_pc s d)" "has_token d (rg_pc t d) \<Longrightarrow> has_token d (rg_pc s d)"
    and "\<And>q. q < n \<Longrightarrow> d = ring_target n q \<Longrightarrow> has_put q (rg_pc t q) \<Longrightarrow>
      User 2 tok (bytes_of_nat 4 1) \<notin> set (pipe_way (rg_pipe t) q d) \<Longrightarrow>
      has_put q (rg_pc s q) \<and> User 2 tok (bytes_of_nat 4 1) \<notin> set (pipe_way (rg_pipe s) q d)"
  shows "token_ok n tok t d"
proof -
  let ?v = "ring_token tok d (rg_pipe s)" and ?one = "bytes_of_nat 4 1"
  have 1: "has_zeroed (rg_pc t d) \<longrightarrow> ?v \<in> {bytes_of_nat 4 0, ?one}" and 2: "has_token d (rg_pc t d) \<longrightarrow> ?v = ?one"
    using assms(1,3,4) unfolding token_ok_def Let_def by blast+
  have "?v = ?one" if "q < n" "d = ring_target n q \<and> has_put q (rg_pc t q) \<and>
      User 2 tok ?one \<notin> set (pipe_way (rg_pipe t) q d)" for q
    using assms(1) assms(5) [OF that(1)] that unfolding token_ok_def Let_def by blast
  with 1 2 show ?thesis unfolding token_ok_def Let_def assms(2) by blast
qed

lemma token_ok_one: "ring_token tok d (rg_pipe t) = bytes_of_nat 4 1 \<Longrightarrow> token_ok n tok t d"
  by (simp add: token_ok_def)

lemma ring_invI:
  assumes "ring_inv n loc tok s" and "rg_pipe t = rg_pipe s \<or> pipe_step n loc (rg_pipe s) (rg_pipe t)"
    and "\<And>p. p < n \<Longrightarrow> pc_fits (pl_bar (rg_pipe t)) p (rg_pc t p)"
    and "\<And>p d. p < n \<Longrightarrow> d < n \<Longrightarrow> pl_made (rg_pipe t) p d = ring_puts n tok p d (rg_pc t p)"
    and "\<And>d. d < n \<Longrightarrow> token_ok n tok t d"
  shows "ring_inv n loc tok t"
  using assms unfolding ring_inv_def by (metis reach_next)

lemma barrier_all_frame:
  assumes "comm_barrier_all n loc p b = Some b'"
  shows "bar_entered b' = bar_entered b" "q \<noteq> p \<Longrightarrow> bar_pc b' q = bar_pc b q"
  using assms by (auto simp: comm_barrier_all_def barrier_updates split: bar_pc.splits if_splits)

lemma way_run:
  "User e a v \<in> set (pipe_way (pipe_run n loc p b s) q d) \<longleftrightarrow> User e a v \<in> set (pipe_way s q d)"
  by (auto simp: pipe_run_def pipe_enqueue_def pipe_way_def split: option.splits)

lemma run_keeps:
  "pl_bar (pipe_run n loc p b s) = b" "pl_made (pipe_run n loc p b s) = pl_made s" "pl_heap (pipe_run n loc p b s) = pl_heap s"
  by (simp_all add: pipe_run_def pipe_enqueue_def split: option.splits)

lemma ring_inv_barrier:
  assumes inv: "ring_inv n loc tok s" and p: "p < n" and at: "rg_pc s p = At_barrier k"
  shows "ring_inv n loc tok (ring_goto p (Within k) (s\<lparr>rg_pipe := (rg_pipe s)\<lparr>pl_bar := enter_barrier p (pl_bar (rg_pipe s))\<rparr>\<rparr>))"
    (is "ring_inv n loc tok ?t")
proof (rule ring_invI [OF inv])
  have out: "bar_pc (pl_bar (rg_pipe s)) p = Outside" using ring_invD(2) [OF inv p] at by (simp add: pc_fits_def)
  thus "rg_pipe ?t = rg_pipe s \<or> pipe_step n loc (rg_pipe s) (rg_pipe ?t)"
    using pl_enter [OF p] by (simp add: ring_goto_def)
  have flags: "has_zeroed (Within k) = has_zeroed (At_barrier k)" "has_put p (Within k) = has_put p (At_barrier k)"
    "has_token p (Within k) = has_token p (At_barrier k)" by (auto simp: ring_flags)
  show "pc_fits (pl_bar (rg_pipe ?t)) q (rg_pc ?t q)" if "q < n" for q
    using ring_invD(2) [OF inv that] at by (auto simp: pc_fits_def ring_goto_def barrier_updates)
  show "pl_made (rg_pipe ?t) q d = ring_puts n tok q d (rg_pc ?t q)" if "q < n" "d < n" for q d
    using ring_invD(3) [OF inv that] at flags by (simp add: ring_goto_def ring_puts_def)
  show "token_ok n tok ?t d" if "d < n" for d
    by (rule token_ok_keep [OF ring_invD(4) [OF inv that]])
      (use at flags in \<open>auto simp: ring_goto_def ring_token_def split: if_splits\<close>)
qed

lemma ring_inv_pc:
  assumes inv: "ring_inv n loc tok s" and p: "p < n"
    and fits: "pc_fits (pl_bar (rg_pipe s)) p c" and flags: "has_zeroed c = has_zeroed (rg_pc s p)"
    "has_put p c = has_put p (rg_pc s p)"
    and token: "has_token p c = has_token p (rg_pc s p) \<or> ring_token tok p (rg_pipe s) = bytes_of_nat 4 1"
  shows "ring_inv n loc tok (ring_goto p c s)" (is "ring_inv n loc tok ?t")
proof (rule ring_invI [OF inv])
  show "pc_fits (pl_bar (rg_pipe ?t)) q (rg_pc ?t q)" if "q < n" for q
    using ring_invD(2) [OF inv that] fits by (simp add: ring_goto_def)
  show "pl_made (rg_pipe ?t) q d = ring_puts n tok q d (rg_pc ?t q)" if "q < n" "d < n" for q d
    using ring_invD(3) [OF inv that] flags by (simp add: ring_goto_def ring_puts_def)
  show "token_ok n tok ?t d" if d: "d < n" for d
  proof (cases "d = p \<and> ring_token tok p (rg_pipe s) = bytes_of_nat 4 1")
    case False
    with token flags show ?thesis
      by (intro token_ok_keep [OF ring_invD(4) [OF inv d]]) (auto simp: ring_goto_def split: if_splits)
  qed (auto intro: token_ok_one simp: ring_goto_def)
qed (simp add: ring_goto_def)

lemma ring_inv_leave:
  assumes inv: "ring_inv n loc tok s" and p: "p < n" and at: "rg_pc s p = Within k"
    and out: "bar_pc (pl_bar (rg_pipe s)) p = Outside"
  shows "ring_inv n loc tok (ring_goto p (ring_after p k) s)"
proof -
  have "k \<le> 2" "bar_entered (pl_bar (rg_pipe s)) p = Suc k"
    using ring_invD(2) [OF inv p] at by (simp_all add: pc_fits_def)
  hence "k = 0 \<or> k = 1 \<or> k = 2" by linarith
  thus ?thesis using at out \<open>bar_entered (pl_bar (rg_pipe s)) p = Suc k\<close>
    by (intro ring_inv_pc [OF inv p]) (auto simp: pc_fits_def ring_flags ring_after_def)
qed

lemma ring_inv_run:
  assumes inv: "ring_inv n loc tok s" and p: "p < n" and at: "rg_pc s p = Within k"
    and run: "comm_barrier_all n loc p (pl_bar (rg_pipe s)) = Some b"
  shows "ring_inv n loc tok (s\<lparr>rg_pipe := pipe_run n loc p b (rg_pipe s)\<rparr>)" (is "ring_inv n loc tok ?t")
proof (rule ring_invI [OF inv])
  show "rg_pipe ?t = rg_pipe s \<or> pipe_step n loc (rg_pipe s) (rg_pipe ?t)" using pl_run [OF p run] by simp
  show "pc_fits (pl_bar (rg_pipe ?t)) q (rg_pc ?t q)" if "q < n" for q
    using ring_invD(2) [OF inv that] barrier_all_frame [OF run] at
    by (cases "q = p") (auto simp: pc_fits_def run_keeps)
  show "pl_made (rg_pipe ?t) q d = ring_puts n tok q d (rg_pc ?t q)" if "q < n" "d < n" for q d
    using ring_invD(3) [OF inv that] by (simp add: run_keeps)
  show "token_ok n tok ?t d" if "d < n" for d
    by (rule token_ok_keep [OF ring_invD(4) [OF inv that]]) (auto simp: ring_token_def run_keeps way_run)
qed

lemma ring_inv_spin:
  assumes inv: "ring_inv n loc tok s" and p: "p < n" and at: "rg_pc s p = Spin"
    and tok: "nat_of_bytes (ring_token tok p (rg_pipe s)) \<noteq> 0"
  shows "ring_inv n loc tok (ring_goto p (if p = 0 then At_barrier 2 else Put_token) s)"
proof (rule ring_inv_pc [OF inv p])
  have "ring_token tok p (rg_pipe s) \<in> {bytes_of_nat 4 0, bytes_of_nat 4 1}"
    using ring_invD(4) [OF inv p] at by (simp add: token_ok_def Let_def has_zeroed_def)
  thus "has_token p (if p = 0 then At_barrier 2 else Put_token) = has_token p (rg_pc s p) \<or>
      ring_token tok p (rg_pipe s) = bytes_of_nat 4 1"
    using tok ring_bytes(1) by auto
qed (use ring_invD(2) [OF inv p] at in \<open>auto simp: pc_fits_def ring_flags\<close>)

lemma pipe_put_keeps:
  "pl_bar (pipe_put loc p d off bs s) = pl_bar s"
  "pl_made (pipe_put loc p d off bs s) q c =
    (if q = p \<and> c = d then pl_made s p d @ [(bar_entered (pl_bar s) p, off, bs)] else pl_made s q c)"
  by (simp_all add: pipe_put_def Let_def pipe_store_def pipe_enqueue_def)

lemma pipe_put_way:
  "set (pipe_way (pipe_put loc p d off bs s) q c) = (if q = p \<and> c = d \<and> \<not> loc p d
    then insert (User (bar_entered (pl_bar s) p) off bs) (set (pipe_way s q c)) else set (pipe_way s q c))"
  by (auto simp: pipe_put_def Let_def pipe_store_def pipe_enqueue_def pipe_way_def)

lemma pipe_put_token:
  assumes "length bs = 4"
  shows "ring_token tok q (pipe_put loc p d tok bs s) = (if q = d \<and> loc p d then bs else ring_token tok q s)"
  using token_store [OF assms] by (auto simp: pipe_put_def Let_def) (auto simp: pipe_enqueue_def ring_token_def)

lemma ring_inv_zero:
  assumes inv: "ring_inv n loc tok s" and loc: "\<And>q. loc q q" and p: "p < n" and at: "rg_pc s p = Zero"
  shows "ring_inv n loc tok (ring_goto p (At_barrier 1) (s\<lparr>rg_pipe := pipe_put loc p p tok (bytes_of_nat 4 0) (rg_pipe s)\<rparr>))"
    (is "ring_inv n loc tok ?t")
proof (rule ring_invI [OF inv])
  let ?pl = "pipe_put loc p p tok (bytes_of_nat 4 0) (rg_pipe s)"
  have t: "rg_pipe ?t = ?pl" "rg_pc ?t = (rg_pc s)(p := At_barrier 1)" by (simp_all add: ring_goto_def)
  have fit: "bar_pc (pl_bar (rg_pipe s)) p = Outside" "bar_entered (pl_bar (rg_pipe s)) p = 1"
    using ring_invD(2) [OF inv p] at by (simp_all add: pc_fits_def)
  show "rg_pipe ?t = rg_pipe s \<or> pipe_step n loc (rg_pipe s) (rg_pipe ?t)"
    unfolding t using pl_put [OF p p fit(1)] by simp
  show "pc_fits (pl_bar (rg_pipe ?t)) q (rg_pc ?t q)" if "q < n" for q
    using ring_invD(2) [OF inv that] fit unfolding t by (auto simp: pc_fits_def pipe_put_keeps)
  show "pl_made (rg_pipe ?t) q d = ring_puts n tok q d (rg_pc ?t q)" if "q < n" "d < n" for q d
    using ring_invD(3) [OF inv that] at fit unfolding t by (auto simp: pipe_put_keeps ring_puts_def ring_flags)
  show "token_ok n tok ?t d" if d: "d < n" for d
  proof (cases "d = p")
    case True
    have "\<not> has_put q (rg_pc ?t q)" if q: "q < n" for q
      using zeroed_before [OF inv q p] at unfolding t by (auto simp: ring_flags split: if_splits)
    moreover have "ring_token tok p ?pl = bytes_of_nat 4 0" using loc by (simp add: pipe_put_token)
    ultimately show ?thesis unfolding token_ok_def Let_def t True by (simp add: has_token_def)
  next
    case False
    thus ?thesis by (intro token_ok_keep [OF ring_invD(4) [OF inv d]], unfold t)
      (auto simp: pipe_put_token pipe_put_way ring_flags split: if_splits)
  qed
qed

lemma ring_inv_put:
  assumes inv: "ring_inv n loc tok s" and p: "p < n" and at: "rg_pc s p = Put_token"
  shows "ring_inv n loc tok (ring_goto p (if p = 0 then Spin else At_barrier 2)
    (s\<lparr>rg_pipe := pipe_put loc p (ring_target n p) tok (bytes_of_nat 4 1) (rg_pipe s)\<rparr>))"
    (is "ring_inv n loc tok ?t")
proof (rule ring_invI [OF inv])
  let ?d = "ring_target n p" and ?c = "if p = 0 then Spin else At_barrier 2"
  let ?pl = "pipe_put loc p ?d tok (bytes_of_nat 4 1) (rg_pipe s)"
  have t: "rg_pipe ?t = ?pl" "rg_pc ?t = (rg_pc s)(p := ?c)" by (simp_all add: ring_goto_def)
  have fit: "bar_pc (pl_bar (rg_pipe s)) p = Outside" "bar_entered (pl_bar (rg_pipe s)) p = 2"
    using ring_invD(2) [OF inv p] at by (simp_all add: pc_fits_def)
  have flags: "has_zeroed ?c = has_zeroed Put_token" "has_token p ?c = has_token p Put_token" "has_put p ?c" "\<not> has_put p Put_token"
    by (auto simp: ring_flags)
  show "rg_pipe ?t = rg_pipe s \<or> pipe_step n loc (rg_pipe s) (rg_pipe ?t)"
    unfolding t using pl_put [OF p ring_target_less [OF p] fit(1)] by simp
  show "pc_fits (pl_bar (rg_pipe ?t)) q (rg_pc ?t q)" if "q < n" for q
    using ring_invD(2) [OF inv that] fit unfolding t by (auto simp: pc_fits_def pipe_put_keeps)
  show "pl_made (rg_pipe ?t) q d = ring_puts n tok q d (rg_pc ?t q)" if "q < n" "d < n" for q d
    using ring_invD(3) [OF inv that] at fit flags unfolding t by (auto simp: pipe_put_keeps ring_puts_def)
  show "token_ok n tok ?t d" if d: "d < n" for d
  proof (cases "d = ?d \<and> loc p ?d")
    case True
    hence "ring_token tok d ?pl = bytes_of_nat 4 1" by (simp add: pipe_put_token)
    thus ?thesis by (intro token_ok_one) (simp only: t)
  next
    case False
    show ?thesis
    proof (rule token_ok_keep [OF ring_invD(4) [OF inv d]], unfold t)
      fix q assume q: "q < n" "d = ring_target n q" "has_put q (((rg_pc s)(p := ?c)) q)"
        "User 2 tok (bytes_of_nat 4 1) \<notin> set (pipe_way ?pl q d)"
      have "q \<noteq> p" using q(2,4) False fit(2) by (auto simp: pipe_put_way)
      with q(3,4) show "has_put q (rg_pc s q) \<and> User 2 tok (bytes_of_nat 4 1) \<notin> set (pipe_way (rg_pipe s) q d)"
        by (auto simp: pipe_put_way)
    qed (use False at flags in \<open>auto simp: pipe_put_token split: if_splits\<close>)
  qed
qed

lemma ring_inv_move:
  assumes inv: "ring_inv n loc tok s" and loc: "\<And>q. loc q q" and move: "pipe_move n (rg_pipe s) pl"
  shows "ring_inv n loc tok (s\<lparr>rg_pipe := pl\<rparr>)" (is "ring_inv n loc tok ?t")
proof (rule ring_invI [OF inv])
  show "rg_pipe ?t = rg_pipe s \<or> pipe_step n loc (rg_pipe s) (rg_pipe ?t)" using pl_move [OF move] by simp
  have bar: "bar_pc (pl_bar pl) = bar_pc (pl_bar (rg_pipe s))" "bar_entered (pl_bar pl) = bar_entered (pl_bar (rg_pipe s))"
    using move
  proof (atomize (full), cases rule: pipe_move.cases)
    case (pl_worked d p x q)
    thus "bar_pc (pl_bar pl) = bar_pc (pl_bar (rg_pipe s)) \<and> bar_entered (pl_bar pl) = bar_entered (pl_bar (rg_pipe s))"
      by (cases x) (simp_all add: Let_def barrier_updates pipe_store_def)
  qed simp_all
  show "pc_fits (pl_bar (rg_pipe ?t)) q (rg_pc ?t q)" if "q < n" for q
    using ring_invD(2) [OF inv that] by (simp add: pc_fits_def bar)
  show "pl_made (rg_pipe ?t) q d = ring_puts n tok q d (rg_pc ?t q)" if "q < n" "d < n" for q d
    using ring_invD(3) [OF inv that] by (simp add: pipe_move_made [OF move])
  show "token_ok n tok ?t d" if d: "d < n" for d
    using move
  proof (cases rule: pipe_move.cases)
    case (pl_worked c p x q)
    let ?u = "rg_pipe s\<lparr>pl_jobs := (pl_jobs (rg_pipe s))(c := q)\<rparr>"
    have p: "p < n" using ring_delivery(3) [OF inv] pl_worked by (auto simp: pipe_inv_def)
    have way: "set (pipe_way pl r d) = set (pipe_way ?u r d)" for r using pl_worked(1) by (simp add: pipe_way_def)
    have mem: "User e a v \<in> set (pipe_way (rg_pipe s) r d) \<longleftrightarrow>
        User e a v \<in> set (pipe_way ?u r d) \<or> r = p \<and> d = c \<and> x = User e a v" for r e a v
      using pl_worked(3) by (auto simp: pipe_way_def)
    show ?thesis
    proof (cases "d = c \<and> x \<noteq> Sync")
      case True
      then obtain e a v where x: "x = User e a v" by (cases x) auto
      hence "User e a v \<in> set (pipe_way (rg_pipe s) p c)" using pl_worked(3) by (simp add: pipe_way_def)
      note xs = on_way [OF inv loc p pl_worked(2) this]
      have "ring_token tok d pl = bytes_of_nat 4 1"
        unfolding pl_worked(1) x xs(2,3) using True by (simp add: token_store)
      thus ?thesis by (intro token_ok_one) simp
    next
      case False
      have "ring_token tok d pl = ring_token tok d (rg_pipe s)"
        using False pl_worked(1) by (cases x) (auto simp: ring_token_def Let_def pipe_store_def)
      thus ?thesis using False mem way by (intro token_ok_keep [OF ring_invD(4) [OF inv d]]) auto
    qed
  qed (intro token_ok_keep [OF ring_invD(4) [OF inv d]]; auto simp: ring_token_def pipe_way_def split: if_splits)+
qed

inductive_cases ring_stepE: "ring_step n loc tok s t"

lemma ring_inv_turn:
  assumes inv: "ring_inv n loc tok s" and loc: "\<And>q. loc q q" and p: "p < n" and turn: "ring_turn n loc tok p s = Some t"
  shows "ring_inv n loc tok t"
proof (cases "rg_pc s p")
  case (Within k)
  note at = this
  show ?thesis
  proof (cases "comm_barrier_all n loc p (pl_bar (rg_pipe s))")
    case None
    hence "bar_pc (pl_bar (rg_pipe s)) p = Outside" by (simp add: comm_barrier_all_def split: bar_pc.splits)
    with ring_inv_leave [OF inv p at] None at turn show ?thesis by (simp add: ring_turn_def Let_def)
  next
    case (Some b)
    with ring_inv_run [OF inv p at Some] at turn show ?thesis by (simp add: ring_turn_def Let_def)
  qed
next
  case Spin
  with ring_inv_spin [OF inv p Spin] inv turn show ?thesis by (simp add: ring_turn_def Let_def split: if_splits)
next
  case (At_barrier k)
  with ring_inv_barrier [OF inv p At_barrier] turn show ?thesis by (simp add: ring_turn_def Let_def)
next
  case Zero
  with ring_inv_zero [OF inv loc p Zero] turn show ?thesis by (simp add: ring_turn_def Let_def)
next
  case Put_token
  with ring_inv_put [OF inv p Put_token] turn show ?thesis by (simp add: ring_turn_def Let_def)
qed (use turn in \<open>simp add: ring_turn_def Let_def\<close>)

lemma ring_inv_step: "ring_inv n loc tok s \<Longrightarrow> (\<And>q. loc q q) \<Longrightarrow> ring_step n loc tok s t \<Longrightarrow> ring_inv n loc tok t"
  by (erule ring_stepE) (auto intro: ring_inv_turn ring_inv_move)

lemma ring_inv_start: "ring_start n s \<Longrightarrow> ring_inv n loc tok s"
  by (auto simp: ring_inv_def ring_start_def pipe_start_def pc_fits_def ring_puts_def token_ok_def ring_flags bar_start_def
      intro: reach_start)

interpretation ring: inductive_invariant "ring_start n" "ring_step n loc tok" "\<lambda>s. (\<forall>q. loc q q) \<longrightarrow> ring_inv n loc tok s" for n loc tok
  by unfold_locales (auto intro: ring_inv_start ring_inv_step)

section \<open>Progress\<close>

text \<open>What is left to do of the program, of the barriers and of the threads.\<close>

definition ring_rank :: "nat \<Rightarrow> ring_pc \<Rightarrow> nat" where
  "ring_rank p c = (case c of At_barrier k \<Rightarrow> (if k = 0 then 9 else if k = 1 then 6 else 2)
     | Within k \<Rightarrow> (if k = 0 then 8 else if k = 1 then 5 else 1) | Zero \<Rightarrow> 7
     | Put_token \<Rightarrow> (if p = 0 then 4 else 3) | Spin \<Rightarrow> (if p = 0 then 3 else 4) | Final \<Rightarrow> 0)"

definition pc_sum :: "nat \<Rightarrow> barrier \<Rightarrow> nat" where
  "pc_sum n b = (\<Sum>p<n. pc_work n (bar_pc b p))"

definition ring_work :: "nat \<Rightarrow> ring \<Rightarrow> nat" where
  "ring_work n s = (16 * n + 20) * (\<Sum>p<n. ring_rank p (rg_pc s p)) + 4 * pc_sum n (pl_bar (rg_pipe s)) +
     pipe_load n (rg_pipe s)"

lemma pc_sum_update: "p < n \<Longrightarrow> (\<And>q. q \<noteq> p \<Longrightarrow> bar_pc b' q = bar_pc b q) \<Longrightarrow>
    pc_sum n b' + pc_work n (bar_pc b p) = pc_sum n b + pc_work n (bar_pc b' p)"
proof -
  assume p: "p < n" and same: "\<And>q. q \<noteq> p \<Longrightarrow> bar_pc b' q = bar_pc b q"
  have "bar_pc b' = (bar_pc b)(p := bar_pc b' p)" using same by (auto simp: fun_eq_iff)
  with sum_update [OF p, of "\<lambda>_. pc_work n" "bar_pc b" "bar_pc b' p"] show ?thesis by (simp add: pc_sum_def)
qed

lemma pc_sum_enter:
  assumes "p < n"
  shows "pc_sum n (enter_barrier p b) \<le> pc_sum n b + 4 * n + 4"
proof -
  have "bar_pc (enter_barrier p b) q = bar_pc b q" if "q \<noteq> p" for q using that by (simp add: barrier_updates)
  from pc_sum_update [OF assms this]
  have "pc_sum n (enter_barrier p b) \<le> pc_sum n b + pc_work n (bar_pc (enter_barrier p b) p)" by linarith
  moreover have "pc_work n (bar_pc (enter_barrier p b) p) \<le> 2 * (n - 1) + 2 * n + 4" by (simp add: barrier_updates)
  ultimately show ?thesis by linarith
qed

lemma pc_sum_run:
  assumes inv: "bar_inv n b" and p: "p < n" and run: "comm_barrier_all n loc p b = Some b'" and new: "b' \<noteq> b"
  shows "pc_sum n b' < pc_sum n b"
proof -
  have "pc_work n (bar_pc b' p) < pc_work n (bar_pc b p)"
    using run new bar_invD(2) [OF inv p]
    by (cases "bar_pc b p") (auto simp: comm_barrier_all_def barrier_updates split: if_splits)
  with pc_sum_update [OF p barrier_all_frame(2) [OF run]] show ?thesis by linarith
qed

lemma load_enqueue:
  assumes "p < n"
  shows "pipe_load n (pipe_enqueue p d x s) = pipe_load n s + 3"
  using sum_update [OF assms, of "\<lambda>_ ys. 3 * length ys" "pl_send s" "pl_send s p @ [(d, x)]"]
  by (simp add: pipe_load_def pipe_enqueue_def)

lemma load_updates [simp]:
  "pipe_load n (s\<lparr>pl_bar := b\<rparr>) = pipe_load n s" "pipe_load n (s\<lparr>pl_made := m\<rparr>) = pipe_load n s"
  "pipe_load n (pipe_store d off bs s) = pipe_load n s"
  by (simp_all add: pipe_load_def pipe_store_def)

lemma load_run: "p < n \<Longrightarrow> pipe_load n (pipe_run n loc p b s) \<le> pipe_load n s + 3"
  by (auto simp: pipe_run_def load_enqueue split: option.splits)

lemma load_put: "p < n \<Longrightarrow> pipe_load n (pipe_put loc p d off bs s) \<le> pipe_load n s + 3"
  by (simp add: pipe_put_def Let_def load_enqueue)

lemma ring_work_goto:
  assumes p: "p < n" and less: "ring_rank p c < ring_rank p (rg_pc s p)" and pc: "rg_pc t = rg_pc s"
    and more: "4 * pc_sum n (pl_bar (rg_pipe t)) + pipe_load n (rg_pipe t) <
      4 * pc_sum n (pl_bar (rg_pipe s)) + pipe_load n (rg_pipe s) + 16 * n + 20"
  shows "ring_work n (ring_goto p c t) < ring_work n s"
proof -
  let ?R = "\<lambda>f. \<Sum>q<n. ring_rank q (f q)"
  have "?R ((rg_pc s)(p := c)) + 1 \<le> ?R (rg_pc s)" using sum_update [OF p, of ring_rank "rg_pc s" c] less by linarith
  hence "(16 * n + 20) * (?R ((rg_pc s)(p := c)) + 1) \<le> (16 * n + 20) * ?R (rg_pc s)" by (rule mult_le_mono2)
  hence "(16 * n + 20) * ?R ((rg_pc s)(p := c)) + 16 * n + 20 \<le> (16 * n + 20) * ?R (rg_pc s)"
    by (simp only: distrib_left mult_1_right add.assoc)
  with more show ?thesis unfolding ring_work_def ring_goto_def by (simp add: pc)
qed

lemma ring_work_turn:
  assumes inv: "ring_inv n loc tok s" and p: "p < n" and turn: "ring_turn n loc tok p s = Some t" and new: "t \<noteq> s"
  shows "ring_work n t < ring_work n s"
proof (cases "rg_pc s p")
  case (At_barrier k)
  hence "k \<le> 2" using ring_invD(2) [OF inv p] by (simp add: pc_fits_def)
  hence "ring_rank p (Within k) < ring_rank p (rg_pc s p)" using At_barrier by (simp add: ring_rank_def)
  with turn At_barrier pc_sum_enter [OF p, of "pl_bar (rg_pipe s)"] show ?thesis
    by (auto simp: ring_turn_def Let_def intro!: ring_work_goto [OF p])
next
  case (Within k)
  show ?thesis
  proof (cases "comm_barrier_all n loc p (pl_bar (rg_pipe s))")
    case None
    have "ring_rank p (ring_after p k) < ring_rank p (rg_pc s p)" using Within by (simp add: ring_rank_def ring_after_def)
    with turn Within None show ?thesis by (auto simp: ring_turn_def Let_def intro!: ring_work_goto [OF p])
  next
    case (Some b)
    hence t: "t = s\<lparr>rg_pipe := pipe_run n loc p b (rg_pipe s)\<rparr>" using turn Within by (simp add: ring_turn_def Let_def)
    have "b \<noteq> pl_bar (rg_pipe s)"
    proof
      assume b: "b = pl_bar (rg_pipe s)"
      hence "sync_target n (bar_pc (pl_bar (rg_pipe s)) p) = None" using Some
        by (auto simp: comm_barrier_all_def set_pc_neq split: bar_pc.splits if_splits)
      with b t new show False by (simp add: pipe_run_def)
    qed
    with pc_sum_run [OF ring_delivery(2) [OF inv] p Some] load_run [OF p, of loc b "rg_pipe s"] show ?thesis
      by (simp add: t ring_work_def run_keeps)
  qed
next
  case Zero
  have "ring_rank p (At_barrier 1) < ring_rank p (rg_pc s p)" using Zero by (simp add: ring_rank_def)
  with turn Zero load_put [OF p, of loc p tok "bytes_of_nat 4 0" "rg_pipe s"] show ?thesis
    by (auto simp: ring_turn_def Let_def pipe_put_keeps intro!: ring_work_goto [OF p])
next
  case Put_token
  have "ring_rank p (if p = 0 then Spin else At_barrier 2) < ring_rank p (rg_pc s p)" using Put_token by (simp add: ring_rank_def)
  with turn Put_token load_put [OF p, of loc "ring_target n p" tok "bytes_of_nat 4 1" "rg_pipe s"] show ?thesis
    by (auto simp: ring_turn_def Let_def pipe_put_keeps intro!: ring_work_goto [OF p])
next
  case Spin
  have "ring_rank p (if p = 0 then At_barrier 2 else Put_token) < ring_rank p (rg_pc s p)" using Spin by (simp add: ring_rank_def)
  hence "ring_work n (ring_goto p (if p = 0 then At_barrier 2 else Put_token) s) < ring_work n s"
    by (rule ring_work_goto [OF p]) simp_all
  with turn Spin new show ?thesis by (simp add: ring_turn_def Let_def split: if_splits)
qed (use turn in \<open>simp add: ring_turn_def Let_def\<close>)

lemma pc_sum_move: "pipe_move n s t \<Longrightarrow> pc_sum n (pl_bar t) = pc_sum n (pl_bar s)"
proof (erule pipe_moveE)
  fix d p x q assume "t = pipe_execute p d x (s\<lparr>pl_jobs := (pl_jobs s)(d := q)\<rparr>)"
  thus ?thesis by (cases x) (simp_all add: Let_def pc_sum_def barrier_updates pipe_store_def)
qed simp_all

lemma ring_work_step:
  assumes inv: "ring_inv n loc tok s" and step: "ring_step n loc tok s t"
  shows "ring_work n t < ring_work n s"
  using step
proof (rule ring_stepE)
  fix pl assume "t = s\<lparr>rg_pipe := pl\<rparr>" "pipe_move n (rg_pipe s) pl"
  with pipe_move_load [OF ring_delivery(3) [OF inv], of pl] pc_sum_move [of n "rg_pipe s" pl] show ?thesis
    by (simp add: ring_work_def)
qed (rule ring_work_turn [OF inv])

lemma empty_no_flight:
  assumes inv: "dl_inv n loc (pipe_abs s)" and e: "pipe_empty n s" and d: "d < n" "i < n"
  shows "bar_flight (pl_bar s) d i = 0"
proof (rule ccontr)
  assume "bar_flight (pl_bar s) d i \<noteq> 0"
  then obtain k where k: "bar_flight (dl_bar (pipe_abs s)) d i = Suc k" by (auto simp: pipe_abs_def gr0_conv_Suc)
  have way: "dl_way (pipe_abs s) p c = []" if "p < n" "c < n" for p c
    using e that by (simp add: pipe_abs_def pipe_way_def pipe_empty_def)
  hence "only_syncs n (pipe_abs s)" by (simp add: only_syncs_def)
  then obtain p xs where "p < n" "dl_way (pipe_abs s) p d = Sync # xs" by (rule sync_on_way [OF inv _ d k])
  with way d show False by simp
qed

text \<open>When nothing can be done, every PE is at the end, waits for its token or waits in a barrier.\<close>

lemma ring_stuck:
  assumes inv: "ring_inv n loc tok s" and stuck: "\<nexists>t. ring_step n loc tok s t"
  shows "pipe_empty n (rg_pipe s)"
    and "\<nexists>b. bar_move n loc (pl_bar (rg_pipe s)) b"
    and "p < n \<Longrightarrow> rg_pc s p = Final \<or> rg_pc s p = Spin \<and> nat_of_bytes (ring_token tok p (rg_pipe s)) = 0 \<or>
      (\<exists>k. rg_pc s p = Within k \<and> bar_pc (pl_bar (rg_pipe s)) p \<noteq> Outside)"
proof -
  have still: "t = s" if "p < n" "ring_turn n loc tok p s = Some t" for p t
    using stuck that rg_turn by blast
  show e: "pipe_empty n (rg_pipe s)" using stuck rg_move pipe_can_move by blast
  have out: "bar_pc (pl_bar (rg_pipe s)) p = Outside" if "p < n" "\<nexists>k. rg_pc s p = Within k" for p
    using ring_invD(2) [OF inv that(1)] that(2) by (auto simp: pc_fits_def)
  show "\<nexists>b. bar_move n loc (pl_bar (rg_pipe s)) b"
  proof
    assume "\<exists>b. bar_move n loc (pl_bar (rg_pipe s)) b"
    then obtain b where "bar_move n loc (pl_bar (rg_pipe s)) b" by blast
    thus False
    proof (rule bar_moveE)
      fix p assume p: "p < n" and run: "comm_barrier_all n loc p (pl_bar (rg_pipe s)) = Some b" and new: "b \<noteq> pl_bar (rg_pipe s)"
      have "bar_pc (pl_bar (rg_pipe s)) p \<noteq> Outside" using run by (auto simp: comm_barrier_all_def)
      then obtain k where "rg_pc s p = Within k" using out [OF p] by blast
      hence "s\<lparr>rg_pipe := pipe_run n loc p b (rg_pipe s)\<rparr> = s" using still [OF p] run by (simp add: ring_turn_def Let_def)
      from arg_cong [OF this, of "\<lambda>s. pl_bar (rg_pipe s)"] new show False by (simp add: run_keeps)
    next
      fix d i k assume "d < n" "i < n" "bar_flight (pl_bar (rg_pipe s)) d i = Suc k"
      thus False using empty_no_flight [OF ring_delivery(1) [OF inv] e] by simp
    qed
  qed
  have goto: "rg_pc s p = c" if "p < n" "ring_turn n loc tok p s = Some (ring_goto p c t)" for p c t
    using arg_cong [OF still [OF that], of "\<lambda>s. rg_pc s p"] by (simp add: ring_goto_def)
  assume p: "p < n"
  show "rg_pc s p = Final \<or> rg_pc s p = Spin \<and> nat_of_bytes (ring_token tok p (rg_pipe s)) = 0 \<or>
      (\<exists>k. rg_pc s p = Within k \<and> bar_pc (pl_bar (rg_pipe s)) p \<noteq> Outside)"
  proof (cases "rg_pc s p")
    case (At_barrier k)
    from goto [OF p] At_barrier show ?thesis by (auto simp: ring_turn_def Let_def)
  next
    case (Within k)
    have "bar_pc (pl_bar (rg_pipe s)) p \<noteq> Outside"
    proof
      assume "bar_pc (pl_bar (rg_pipe s)) p = Outside"
      hence "ring_turn n loc tok p s = Some (ring_goto p (ring_after p k) s)"
        using Within by (simp add: ring_turn_def Let_def comm_barrier_all_def)
      from goto [OF p this] Within show False by (simp add: ring_after_def split: if_splits)
    qed
    with Within show ?thesis by blast
  next
    case Zero
    from goto [OF p] Zero show ?thesis by (auto simp: ring_turn_def Let_def)
  next
    case Put_token
    hence "ring_turn n loc tok p s = Some (ring_goto p (if p = 0 then Spin else At_barrier 2)
        (s\<lparr>rg_pipe := pipe_put loc p (ring_target n p) tok (bytes_of_nat 4 1) (rg_pipe s)\<rparr>))"
      by (simp add: ring_turn_def Let_def)
    from goto [OF p this] Put_token show ?thesis by (simp split: if_splits)
  next
    case Spin
    have "nat_of_bytes (ring_token tok p (rg_pipe s)) = 0"
    proof (rule ccontr)
      assume "nat_of_bytes (ring_token tok p (rg_pipe s)) \<noteq> 0"
      hence "ring_turn n loc tok p s = Some (ring_goto p (if p = 0 then At_barrier 2 else Put_token) s)"
        using Spin by (simp add: ring_turn_def Let_def)
      from goto [OF p this] Spin show False by (simp split: if_splits)
    qed
    with Spin show ?thesis by blast
  qed simp
qed

lemma token_arrived:
  assumes inv: "ring_inv n loc tok s" and e: "pipe_empty n (rg_pipe s)" and q: "q < n" "has_put q (rg_pc s q)"
  shows "nat_of_bytes (ring_token tok (ring_target n q) (rg_pipe s)) = 1"
proof -
  note d = ring_target_less [OF q(1)]
  have "pipe_way (rg_pipe s) q (ring_target n q) = []" using e q(1) d by (simp add: pipe_empty_def pipe_way_def)
  hence "ring_token tok (ring_target n q) (rg_pipe s) = bytes_of_nat 4 1"
    using ring_invD(4) [OF inv d] q by (simp add: token_ok_def Let_def)
  thus ?thesis by (simp only: ring_bytes)
qed

lemma ring_progress:
  assumes inv: "ring_inv n loc tok s" and p: "p < n" "rg_pc s p \<noteq> Final"
  shows "\<exists>t. ring_step n loc tok s t"
proof (rule ccontr)
  assume stuck: "\<nexists>t. ring_step n loc tok s t"
  let ?b = "pl_bar (rg_pipe s)"
  note at = ring_stuck(3) [OF inv stuck]
  have entered: "bar_entered ?b q = entered_at (rg_pc s q)" if "q < n" for q
    using ring_invD(2) [OF inv that] by (simp add: pc_fits_def)
  obtain m where m: "m < n" "\<And>q. q < n \<Longrightarrow> bar_entered ?b m \<le> bar_entered ?b q"
    using ex_min_if_finite [of "bar_entered ?b ` {..<n}"] p(1) by (force simp: not_less)
  have least: "bar_pc ?b q = Outside" if "q < n" "bar_entered ?b q = bar_entered ?b m" for q
    using bar_progress [OF ring_delivery(2) [OF inv] that(1)] ring_stuck(2) [OF inv stuck] m(2) that(2) by metis
  have within: "k = 2" if q: "q < n" "rg_pc s q = Within k" and "2 \<le> bar_entered ?b m" for q k
  proof -
    have "bar_pc ?b q \<noteq> Outside" using at [OF q(1)] q(2) by auto
    hence "bar_entered ?b q \<noteq> bar_entered ?b m" using least [OF q(1)] by blast
    hence "2 < Suc k" using m(2) [OF q(1)] entered [OF q(1)] q(2) that(3) by simp
    moreover have "k \<le> 2" using ring_invD(2) [OF inv q(1)] q(2) by (simp add: pc_fits_def)
    ultimately show ?thesis by simp
  qed
  from at [OF m(1)] least [OF m(1) refl] consider "rg_pc s m = Final" |
    "rg_pc s m = Spin" "nat_of_bytes (ring_token tok m (rg_pipe s)) = 0" by auto
  thus False
  proof cases
    case 1
    hence three: "bar_entered ?b m = 3" using entered [OF m(1)] by simp
    with at [OF p(1)] p(2) consider "rg_pc s p = Spin" | k where "rg_pc s p = Within k" by auto
    thus False
    proof cases
      case 1
      with three m(2) [OF p(1)] entered [OF p(1)] show False by simp
    next
      case 2
      hence "bar_entered ?b p = bar_entered ?b m" using within [OF p(1)] three entered [OF p(1)] by simp
      with least [OF p(1)] at [OF p(1)] 2 show False by simp
    qed
  next
    case 2
    hence two: "bar_entered ?b m = 2" using entered [OF m(1)] by simp
    have pcs: "rg_pc s q = Spin \<and> nat_of_bytes (ring_token tok q (rg_pipe s)) = 0 \<or> rg_pc s q = Within 2" if q: "q < n" for q
    proof -
      have "rg_pc s q \<noteq> Final"
      proof
        assume "rg_pc s q = Final"
        hence "bar_left ?b q = 3" using ring_invD(2) [OF inv q] bar_invD(3) [OF ring_delivery(2) [OF inv] q]
          by (auto simp: pc_fits_def)
        with bar_inv_left_entered [OF ring_delivery(2) [OF inv] q m(1)] two show False by simp
      qed
      with at [OF q] within [OF q] two show ?thesis by auto
    qed
    have put: "q < n \<Longrightarrow> has_put q (rg_pc s q)" for q
    proof (induction q)
      case 0
      with pcs [of 0] show ?case by (auto simp: has_put_def)
    next
      case (Suc q)
      hence "has_put q (rg_pc s q)" "ring_target n q = Suc q" by (simp_all add: ring_target_def)
      with token_arrived [OF inv ring_stuck(1) [OF inv stuck], of q] Suc.prems
      have "nat_of_bytes (ring_token tok (Suc q) (rg_pipe s)) = 1" by simp
      with pcs [OF Suc.prems] show ?case by (auto simp: has_put_def)
    qed
    let ?q = "if m = 0 then n - 1 else m - 1"
    have q: "?q < n" "ring_target n ?q = m" using m(1) by (auto simp: ring_target_def)
    from token_arrived [OF inv ring_stuck(1) [OF inv stuck] q(1) put [OF q(1)]] q(2) 2(2) show False by simp
  qed
qed

section \<open>Properties\<close>

text \<open>
  C6: the token of the ring test goes all the way round. On any number of PEs, spread over
  nodes in any way, and whatever the interleaving of the PEs with their communication threads
  and workers, when sockets lose nothing every PE receives the token, with the value 1, and
  leaves the last barrier: it gets to the call of \<open>shmem_finalize\<close>, which is not part of this
  and, by \<open>shmem_finalize_undefined\<close>, does not return with defined behaviour.
\<close>

theorem ring_token_goes_round:
  assumes "reach (ring_start n) (ring_step n loc tok) s" and loc: "\<And>q. loc q q"
  shows "inevitable (ring_step n loc tok)
    (\<lambda>t. \<forall>p < n. rg_pc t p = Final \<and> nat_of_bytes (ring_token tok p (rg_pipe t)) = 1) s"
proof (rule inevitable_measure [where Q = "ring_inv n loc tok" and m = "ring_work n"])
  fix t assume inv: "ring_inv n loc tok t"
    and no: "\<not> (\<forall>p < n. rg_pc t p = Final \<and> nat_of_bytes (ring_token tok p (rg_pipe t)) = 1)"
  have "nat_of_bytes (ring_token tok p (rg_pipe t)) = 1" if "p < n" "rg_pc t p = Final" for p
  proof -
    have "ring_token tok p (rg_pipe t) = bytes_of_nat 4 1"
      using ring_invD(4) [OF inv that(1)] that(2) by (simp add: token_ok_def Let_def has_token_def)
    thus ?thesis by (simp only: ring_bytes)
  qed
  with no ring_progress [OF inv] show "\<exists>u. ring_step n loc tok t u" by blast
next
  show "ring_inv n loc tok s" using ring.reach_inv [OF assms(1)] loc by blast
qed (use ring_inv_step ring_work_step loc in blast)

theorem ring_token_goes_round_witness:
  "\<exists>s. inevitable (ring_step 3 (=) 64)
    (\<lambda>t. \<forall>p < 3. rg_pc t p = Final \<and> nat_of_bytes (ring_token 64 p (rg_pipe t)) = 1) s"
proof -
  let ?s = "\<lparr>rg_pipe = pipe_of (dl_init 7), rg_pc = \<lambda>_. At_barrier 0\<rparr>"
  have "ring_start 3 ?s" by (simp add: ring_start_def pipe_start_def pipe_of_def dl_init_def bar_init)
  hence "reach (ring_start 3) (ring_step 3 (=) 64) ?s" by (rule reach_start)
  from ring_token_goes_round [OF this] show ?thesis by blast
qed

end
