(* ===== verification/Rte_Mpi.thy ===== *)
theory Rte_Mpi
  imports Comm_Node
begin

text \<open>
  The other runtime layer, \<open>rte/mpi/rte.c\<close>. What MPI answers is a record: the ranks and the
  number of processes, and for each process the bytes that \<open>MPI_Get_processor_name\<close> leaves in
  the buffer of \<open>HOSTNAME_LEN\<close> bytes it is given. The layer provides the PE, the number of
  PEs, the barrier and a list of the host of every PE; it has none of the queries about nodes,
  and its \<open>rte_hosts\<close> has another signature than the one in \<open>rte.h\<close>. \<open>malloc\<close> is taken to
  succeed.
\<close>

section \<open>Definitions\<close>

record mpi =
  MPI_Comm_rank :: c_int
  MPI_Comm_size :: c_int
  MPI_Get_processor_name :: "nat \<Rightarrow> byte list"

record mpi_rte =
  mr_my_pe :: c_int
  mr_n_pes :: c_int

definition mpi_rte_init :: "mpi \<Rightarrow> mpi_rte \<Rightarrow> mpi_rte" where
  "mpi_rte_init m s = s\<lparr>mr_my_pe := MPI_Comm_rank m, mr_n_pes := MPI_Comm_size m\<rparr>"

definition mpi_rte_my_pe :: "mpi_rte \<Rightarrow> c_int" where
  "mpi_rte_my_pe s = mr_my_pe s"

definition mpi_rte_n_pes :: "mpi_rte \<Rightarrow> c_int" where
  "mpi_rte_n_pes s = mr_n_pes s"

definition mpi_rte_hostname :: "mpi \<Rightarrow> mpi_rte \<Rightarrow> byte list" where
  "mpi_rte_hostname m s = MPI_Get_processor_name m (nat (sint (mr_my_pe s)))"

text \<open>
  \<open>MPI_Allgather\<close> puts the buffers of all processes after each other; the one of this process
  is what \<open>rte_hostname\<close> has left in it.
\<close>

definition MPI_Allgather :: "mpi \<Rightarrow> nat \<Rightarrow> nat \<Rightarrow> byte list \<Rightarrow> byte list" where
  "MPI_Allgather m n me own = concat (map (\<lambda>i. if i = me then own else MPI_Get_processor_name m i) [0..<n])"

text \<open>\<open>strcpy\<close> into \<open>k\<close> bytes: the bytes up to the first zero; \<open>None\<close> when they do not fit or there is none.\<close>

definition strcpy :: "nat \<Rightarrow> byte list \<Rightarrow> byte list option" where
  "strcpy k xs = (let s = takeWhile (\<lambda>b. b \<noteq> 0) xs in if length s < k \<and> length s < length xs then Some s else None)"

definition mpi_rte_hosts :: "mpi \<Rightarrow> mpi_rte \<Rightarrow> byte list list option" where
  "mpi_rte_hosts m s = (let n = nat (sint (mr_n_pes s));
     hosts = MPI_Allgather m n (nat (sint (mr_my_pe s))) (mpi_rte_hostname m s)
     in those (map (\<lambda>i. strcpy HOSTNAME_LEN (drop (i * HOSTNAME_LEN) hosts)) [0..<n]))"

section \<open>Properties\<close>

text \<open>A buffer that holds a name, a zero and whatever was behind it.\<close>

definition name_buffer :: "byte list \<Rightarrow> byte list \<Rightarrow> bool" where
  "name_buffer name buf \<longleftrightarrow> 0 \<notin> set name \<and> length buf = HOSTNAME_LEN \<and> (\<exists>junk. buf = name @ 0 # junk)"

lemma strcpy_name: "name_buffer name buf \<Longrightarrow> strcpy HOSTNAME_LEN (buf @ ys) = Some name"
  by (auto simp: name_buffer_def strcpy_def Let_def takeWhile_append)

lemma drop_rows:
  assumes "\<And>i. i < n \<Longrightarrow> length (f i) = k" and "j < n"
  shows "\<exists>ys. drop (j * k) (concat (map f [0..<n])) = f j @ ys"
proof -
  have len: "length (concat (map f [0..<j])) = j * k" using assms
  proof (induction j)
    case (Suc j)
    hence "length (concat (map f [0..<j])) = j * k" "length (f j) = k" by simp_all
    thus ?case by simp
  qed simp
  have "[0..<n] = [0..<j] @ j # [Suc j..<n]" 
    using upt_add_eq_append [of 0 j "n - j"] assms(2) by (simp add: upt_conv_Cons)
  hence "concat (map f [0..<n]) = concat (map f [0..<j]) @ f j @ concat (map f [Suc j..<n])" by simp
  with len show ?thesis by simp
qed

text \<open>
  Over MPI, \<open>rte_hosts\<close> lists for every PE, by number, the name of its host, on every PE
  the same.
\<close>

theorem mpi_rte_hosts_result:
  assumes "0 \<le> sint (MPI_Comm_size m)"
    and names: "\<And>i. int i < sint (MPI_Comm_size m) \<Longrightarrow> name_buffer (name i) (MPI_Get_processor_name m i)"
  shows "mpi_rte_hosts m (mpi_rte_init m s) = Some (map name [0..<nat (sint (mpi_rte_n_pes (mpi_rte_init m s)))])"
proof -
  define n where "n = nat (sint (MPI_Comm_size m))"
  have nm: "name_buffer (name i) (MPI_Get_processor_name m i)" if "i < n" for i
    using names that assms(1) by (simp add: n_def)
  have len: "length (MPI_Get_processor_name m i) = HOSTNAME_LEN" if "i < n" for i
    using nm [OF that] by (simp add: name_buffer_def)
  have gather: "MPI_Allgather m n me (MPI_Get_processor_name m me) = concat (map (MPI_Get_processor_name m) [0..<n])" for me
    by (simp add: MPI_Allgather_def cong: if_cong) (metis (mono_tags, lifting) map_cong)
  have "strcpy HOSTNAME_LEN (drop (i * HOSTNAME_LEN) (concat (map (MPI_Get_processor_name m) [0..<n]))) = Some (name i)"
    if i: "i < n" for i
  proof -
    obtain ys where "drop (i * HOSTNAME_LEN) (concat (map (MPI_Get_processor_name m) [0..<n])) = MPI_Get_processor_name m i @ ys"
      using drop_rows [of n "MPI_Get_processor_name m" HOSTNAME_LEN i, OF len i] by blast
    thus ?thesis using strcpy_name [OF nm [OF i]] by simp
  qed
  hence eq: "map (\<lambda>i. strcpy HOSTNAME_LEN (drop (i * HOSTNAME_LEN) (concat (map (MPI_Get_processor_name m) [0..<n])))) [0..<n]
      = map Some (map name [0..<n])" by simp
  have "those (map (\<lambda>i. strcpy HOSTNAME_LEN (drop (i * HOSTNAME_LEN) (concat (map (MPI_Get_processor_name m) [0..<n])))) [0..<n])
      = Some (map name [0..<n])" unfolding eq using those_map_Some [of name] by (simp add: comp_def)
  thus ?thesis
    by (simp add: mpi_rte_hosts_def mpi_rte_init_def mpi_rte_hostname_def mpi_rte_n_pes_def gather Let_def flip: n_def)
qed

text \<open>Two processes on the host named \<open>a\<close>; the rest of their buffers is not zero.\<close>

definition demo_name_buffer :: "byte list" where
  "demo_name_buffer = 97 # 0 # replicate 254 7"

definition demo_mpi :: mpi where
  "demo_mpi = \<lparr>MPI_Comm_rank = 1, MPI_Comm_size = 2, MPI_Get_processor_name = \<lambda>_. demo_name_buffer\<rparr>"

lemma demo_name_buffer: "name_buffer [97] demo_name_buffer"
  by (simp add: name_buffer_def demo_name_buffer_def HOSTNAME_LEN_def)

theorem mpi_rte_hosts_result_witness:
  "mpi_rte_hosts demo_mpi \<lparr>mr_my_pe = 1, mr_n_pes = 2\<rparr> = Some [[97], [97]]"
  using mpi_rte_hosts_result [of demo_mpi "\<lambda>_. [97]" "\<lparr>mr_my_pe = 0, mr_n_pes = 0\<rparr>"] demo_name_buffer
  by (simp add: demo_mpi_def mpi_rte_init_def mpi_rte_n_pes_def upt_rec)

end
