(* ===== verification/Spec2Isabelle.thy ===== *)
theory Spec2Isabelle
  imports Code_Barrier Collective Handshake Heap_Free Job Ring Rte_Mpi Wire_Sockets
begin

text \<open>
  A model of an OpenSHMEM library in C: one process (PE) of a job has a symmetric heap that
  the others read and write.

  \<^bold>\<open>The program.\<close> \<open>shmem.c\<close> is the interface. It starts the runtime layer (\<open>rte/\<close>), asks it
  which PEs run on which hosts, and hands this to the communication layer (\<open>comm/comm.c\<close>),
  which keeps the table of localities (\<open>comm/comm_node.c\<close>). A PE on the same node is reached
  by \<open>comm/comm_local.c\<close>, which maps its heap (\<open>memory/shared_mem.c\<close>, \<open>memory/shared_heap.c\<close>)
  and copies. A PE on another node is reached by \<open>comm/comm_remote.c\<close>, which connects the PEs
  with sockets (\<open>network/\<close>), queues packets, and has a thread that sends and receives them. A
  received packet becomes a job of the worker thread (\<open>job/work.c\<close>), which performs it with
  \<open>comm_put\<close> at its own PE. Every PE allocates in its heap with the allocator of
  \<open>memory/heap.c\<close> over the hash table of \<open>memory/hashmap.c\<close>. PEs wait for each other in
  \<open>comm_barrier_all\<close>, through puts to the array \<open>pSync\<close> in their heaps.

  \<^bold>\<open>Conventions.\<close> Definitions bear the names of the C functions and records, without leading
  underscores. Integers have their width in LP64. Static variables are records passed
  through; \<open>None\<close> is undefined behaviour, and each theory says so where it means something
  else. What the system answers (\<open>malloc\<close>, \<open>shm_open\<close>, \<open>mmap\<close>, sockets, \<open>gethostbyname\<close>, PMIx,
  MPI) is an argument, so the theorems hold for all the answers that their hypotheses allow.
  Processes and threads interleave: such parts are step relations, their theorems hold in
  every state \<open>reach\<close> gives, and \<open>inevitable\<close> says that every maximal run gets somewhere.

  \<^bold>\<open>Memory.\<close>
  \<^item> \<open>C_Memory\<close>, \<open>Hashmap\<close>: the store of blocks and nodes and every operation of
    \<open>hashmap.c\<close> on it. \<open>hm_rep\<close> reads a table as lists; the lemmas give the effect of each
    operation on them, the locale \<open>block_index\<close> what the allocator needs of the table.
  \<^item> \<open>Next_Fit\<close>: the specification of the allocator, without pointers, and what follows from
    it (blocks are disjoint and in the region). The locale \<open>next_fit_heap\<close> is its interface.
  \<^item> \<open>Heap_Block\<close>: \<open>heap.c\<close> and its refinement of \<open>Next_Fit\<close>; what \<open>heap_free\<close> releases.
  \<^item> \<open>Heap_Free\<close>: programs that free and allocate: where they become undefined, and where two
    PEs come to differ.
  \<^item> \<open>Shared_Mem\<close>: names and mapping of shared memory, and the heap over such a region, again
    an instance of \<open>next_fit_heap\<close>. \<open>Node_Memory\<close>: the memory the PEs of a node share.

  \<^bold>\<open>Communication.\<close>
  \<^item> \<open>Comm_Node\<close>: the region of the node and the table of localities, with the entry of every
    PE that is listed. \<open>Comm_Local\<close>: mapping the heaps of the node, local puts and gets.
  \<^item> \<open>Fifo\<close>: the queues as an interface, interpreted by both. \<open>Work_Queue\<close>: the queue of jobs
    and the worker, which executes the jobs in order. \<open>Comm_Remote\<close>: packets and their bytes,
    the send queue, the communication thread.
  \<^item> \<open>Network\<close>: \<open>network.c\<close> over an arbitrary sequence of answers of the system.
  \<^item> \<open>Wireup\<close>: which PEs connect at which level; both sides agree, nobody connects twice, and
    which pairs are connected for any number of PEs: up to six PEs all of them, from seven on
    not all. \<open>Handshake\<close>: the connections as steps that block; none of the interleavings
    deadlocks and all end with the sockets stored. \<open>Wire_Sockets\<close>: the same functions at one PE
    with every system call they make, the retries of refused connections included. Every call
    gets an answer there; waiting for ever on a blocking \<open>read\<close> is only in \<open>Handshake\<close>.
  \<^item> \<open>Comm\<close>: the state of one PE, dispatch by locality, the symmetric heap, a put followed from
    the sender through packet, socket, job and worker into the receiver's heap.
  \<^item> \<open>Transport\<close>: those operations of all PEs, on any number of nodes whose memory their PEs
    share, interleaved: the linked queues, bytes on sockets, buffers and jobs. \<open>write\<close> takes and
    the network moves any number of bytes at a time. The code recovers from neither a short
    \<open>write\<close> nor an incomplete packet, so \<open>tp_intact\<close> records whether there has been one (or a
    packet that \<open>malloc\<close> gave no memory for). As long as there has not, the puts of one PE to
    another node are performed in order and byte for byte, nothing undefined happens, and the
    threads complete all puts.
  \<^item> \<open>Job\<close>: the wrapper of threads of \<open>job/job.c\<close>, which nothing else uses.

  \<^bold>\<open>The job.\<close>
  \<^item> \<open>Rte\<close>, \<open>Rte_Mpi\<close>: the runtime layers over PMIx and over MPI.
  \<^item> \<open>Barrier\<close>: \<open>comm_barrier_all\<close> of all PEs, one step per access to \<open>pSync\<close>: nobody leaves
    before all have entered, all leave, the array is clear for the next one.
  \<^item> \<open>Delivery\<close>: the barrier with the puts of the program, where the way from one PE to
    another is one queue that loses nothing: which puts the barrier completes and which it does
    not. \<open>Pipeline\<close>: send queues, sockets and job queues in the place of the ways, a refinement
    with the same runs. Both are specifications that the code implements as long as \<open>tp_intact\<close>
    holds; they serve the proofs of \<open>Code_Barrier\<close>.
  \<^item> \<open>Barrier_Transport\<close>: \<open>comm_barrier_all\<close> on the memory and state of each PE, with loads,
    stores and puts over \<open>Transport\<close>: a run of it in which nothing is lost is a run of
    \<open>Pipeline\<close>. \<open>Code_Barrier\<close>: what is proved of the barrier and its puts in \<open>Barrier\<close> and
    \<open>Delivery\<close> is then true of the code, byte for byte; a scheduler that executes such runs, and
    one of three PEs on two nodes.
  \<^item> \<open>Shmem\<close>: initialization end to end, with the system calls of the wire-up, and the typed
    puts and gets. It needs \<open>malloc\<close> to leave a null pointer in the first block of the heap,
    which it need not; both cases are proved. \<open>Collective\<close>: the collective calls of all PEs. In
    programs that free nothing and do not finalize (\<open>allocating\<close>), \<open>shmem_malloc\<close> returns the
    same offset everywhere and all calls return; \<open>shmem_quiet\<close> completes nothing, and
    \<open>shmem_finalize\<close> is undefined.
  \<^item> \<open>Ring\<close>: the program of \<open>test/shmem_ring.c\<close> over \<open>Pipeline\<close>, up to the call of
    \<open>shmem_finalize\<close>: every PE gets the token.

  \<^bold>\<open>Bounds.\<close> Loops over pointers are partial functions, and theorems say that they return. The
  loops of the two threads take a number of rounds, since they run until told to stop; the
  theorems about them give enough rounds for what is queued. An allocation in the heap asks
  \<open>malloc\<close> at most three times (a block and two nodes), so the theorems about \<open>k\<close> allocations
  assume \<open>3 * k\<close> answers that are not \<open>NULL\<close>; \<open>malloc\<close> failing inside the allocator is
  undefined behaviour in the code and \<open>None\<close> here.

  \<^bold>\<open>Not modelled.\<close> Creating, joining and cancelling threads and the mutexes (an operation that
  holds its mutex throughout is one step), except in \<open>Job\<close>; \<open>printf\<close> and \<open>perror\<close>; \<open>ftruncate\<close>,
  whose result is ignored; \<open>rte_finalize\<close> and the barrier of the MPI layer, which only call PMIx
  or MPI; compilers that reorder the accesses to \<open>pSync\<close>, which is not volatile; the tests that
  print or measure time. What becomes of the bytes after a short \<open>write\<close> or an incomplete packet
  is followed for one packet in \<open>Comm_Remote\<close> only; the theorems about all PEs are about runs
  in which neither has happened.

  \<^bold>\<open>Simplified.\<close> In \<open>Transport\<close> the PEs make blocking puts only; the nonblocking ones are in
  \<open>Comm\<close> and \<open>Collective\<close>. A \<open>memcpy\<close>, and an \<open>int\<close> read or written, is one step there.
  \<open>Comm_Remote\<close> gives every remote PE a socket, also those that \<open>Wireup\<close> proves unconnected.
\<close>

end
